(* ===== verification/Prelude.thy ===== *)
theory Prelude
  imports Main "HOL-Library.Word"
begin

text \<open>
  Shared vocabulary of the SeaKernel development.  It holds the outcome type in which every fallible
  kernel routine returns (\<open>Ret\<close> a value, \<open>Panic\<close> for a failed \<^verbatim>\<open>assert\<close> or a call of
  \<^verbatim>\<open>panic\<close>, \<open>Block\<close> when the routine has to wait for another task, \<open>Fault\<close> for an access to memory
  that is not there), the errno values of \<^verbatim>\<open>include/sea/errno.h\<close>, the atomic primitives of
  \<^verbatim>\<open>include/sea/cpu/atomic.h\<close>, the execution context the synchronisation primitives look at, and the
  generic lemmas on words, lists and pointer heaps that the component theories share.
  The configuration is the default one of \<^verbatim>\<open>kernel/config.cfg\<close> (asserts, debugging and SMP enabled)
  on the 64-bit architecture, so \<^verbatim>\<open>long\<close> and pointers have 64 bits.
\<close>

unbundle bit_operations_syntax

named_theorems outcome_simps \<open>evaluation of sequenced outcomes\<close>
named_theorems lock_simps \<open>acquire and release of uncontended locks\<close>
named_theorems heap_simps \<open>pointer chains under heap updates\<close>

section \<open>Machine types\<close>

type_synonym u8 = "8 word"
type_synonym u16 = "16 word"
type_synonym u32 = "32 word"
type_synonym u64 = "64 word"

text \<open>A pointer into a typed heap; \<open>0\<close> is the null pointer.\<close>

type_synonym ptr = nat

section \<open>Outcomes\<close>

datatype 'a outcome = Ret 'a | Panic | Block | Fault

fun obind :: "'a outcome \<Rightarrow> ('a \<Rightarrow> 'b outcome) \<Rightarrow> 'b outcome" where
  "obind (Ret x) k = k x"
| "obind Panic k = Panic"
| "obind Block k = Block"
| "obind Fault k = Fault"

definition oassert :: "bool \<Rightarrow> 'a outcome \<Rightarrow> 'a outcome" where
  "oassert b k = (if b then k else Panic)"

text \<open>Reading through a pointer: a missing cell is a fault.\<close>

definition deref :: "(ptr \<rightharpoonup> 'n) \<Rightarrow> ptr \<Rightarrow> ('n \<Rightarrow> 'b outcome) \<Rightarrow> 'b outcome" where
  "deref h p k = (case h p of None \<Rightarrow> Fault | Some c \<Rightarrow> k c)"

text \<open>Writing through a pointer: the cell must exist.\<close>

definition hupd :: "(ptr \<rightharpoonup> 'n) \<Rightarrow> ptr \<Rightarrow> ('n \<Rightarrow> 'n) \<Rightarrow> ((ptr \<rightharpoonup> 'n) \<Rightarrow> 'b outcome) \<Rightarrow> 'b outcome" where
  "hupd h p f k = (case h p of None \<Rightarrow> Fault | Some c \<Rightarrow> k (h(p \<mapsto> f c)))"

lemma oassert_simps [simp, outcome_simps]:
  "oassert True k = k" "oassert False k = Panic"
  by (simp_all add: oassert_def)

lemma deref_Some [simp, outcome_simps]: "h p = Some c \<Longrightarrow> deref h p k = k c"
  by (simp add: deref_def)

lemma deref_None [simp, outcome_simps]: "h p = None \<Longrightarrow> deref h p k = Fault"
  by (simp add: deref_def)

lemma hupd_Some [simp, outcome_simps]: "h p = Some c \<Longrightarrow> hupd h p f k = k (h(p \<mapsto> f c))"
  by (simp add: hupd_def)

lemma hupd_None [simp, outcome_simps]: "h p = None \<Longrightarrow> hupd h p f k = Fault"
  by (simp add: hupd_def)

lemma obind_eq_Ret [outcome_simps]: "obind x k = Ret z \<longleftrightarrow> (\<exists>y. x = Ret y \<and> k y = Ret z)"
  by (cases x) auto

lemma oassert_eq_Ret [outcome_simps]: "oassert b k = Ret z \<longleftrightarrow> b \<and> k = Ret z"
  by (simp add: oassert_def)

lemma obind_assoc [outcome_simps]: "obind (obind x f) g = obind x (\<lambda>y. obind (f y) g)"
  by (cases x) auto

lemma deref_eq_Ret [outcome_simps]: "deref h p k = Ret z \<longleftrightarrow> (\<exists>c. h p = Some c \<and> k c = Ret z)"
  by (cases "h p") (auto simp: deref_def)

lemma hupd_eq_Ret [outcome_simps]:
  "hupd h p f k = Ret z \<longleftrightarrow> (\<exists>c. h p = Some c \<and> k (h(p \<mapsto> f c)) = Ret z)"
  by (cases "h p") (auto simp: hupd_def)

section \<open>errno.h\<close>

abbreviation EPERM :: int where "EPERM \<equiv> 1"
abbreviation ENOENT :: int where "ENOENT \<equiv> 2"
abbreviation ESRCH :: int where "ESRCH \<equiv> 3"
abbreviation EINTR :: int where "EINTR \<equiv> 4"
abbreviation EIO :: int where "EIO \<equiv> 5"
abbreviation EBADF :: int where "EBADF \<equiv> 9"
abbreviation ECHILD :: int where "ECHILD \<equiv> 10"
abbreviation EAGAIN :: int where "EAGAIN \<equiv> 11"
abbreviation EACCES :: int where "EACCES \<equiv> 13"
abbreviation EEXIST :: int where "EEXIST \<equiv> 17"
abbreviation EINVAL :: int where "EINVAL \<equiv> 22"
abbreviation EPIPE :: int where "EPIPE \<equiv> 32"
abbreviation ENOSYS :: int where "ENOSYS \<equiv> 88"

section \<open>atomic.h\<close>

text \<open>
  \<^verbatim>\<open>bts_atomic\<close> and \<^verbatim>\<open>btr_atomic\<close> set and clear one bit and return its old value;
  \<^verbatim>\<open>add_atomic\<close> and \<^verbatim>\<open>sub_atomic\<close> are plain wrapping additions at the width of the cell, so they
  appear as \<open>+\<close> and \<open>-\<close> on words.
\<close>

definition bts_atomic :: "'a::len word \<Rightarrow> nat \<Rightarrow> 'a word \<times> bool" where
  "bts_atomic w v = (w OR push_bit v 1, w AND push_bit v 1 \<noteq> 0)"

definition btr_atomic :: "'a::len word \<Rightarrow> nat \<Rightarrow> 'a word \<times> bool" where
  "btr_atomic w v = (w AND NOT (push_bit v 1), w AND push_bit v 1 \<noteq> 0)"

abbreviation has_flag :: "'a::len word \<Rightarrow> 'a word \<Rightarrow> bool" where
  "has_flag w f \<equiv> w AND f \<noteq> 0"

lemma and_minus_two: "(w :: 'a::len word) AND - 2 = w - of_bool (odd w)"
proof -
  have "w AND - 2 = 2 * (w div 2)"
    using unset_bit_0 [of w] unset_bit_eq_and_not [of 0 w] by simp
  also have "\<dots> = w - w mod 2"
    by (simp add: minus_mod_eq_mult_div)
  finally show ?thesis
    by (simp add: mod2_eq_if)
qed

lemma bts_atomic_0: "bts_atomic w 0 = (w + of_bool (even w), odd w)"
  by (simp add: bts_atomic_def or_one_eq and_one_eq odd_iff_mod_2_eq_one mod2_eq_if)

lemma btr_atomic_0: "btr_atomic w 0 = (w - of_bool (odd w), odd w)"
  by (simp add: btr_atomic_def and_minus_two and_one_eq mod2_eq_if)

lemma unat_even_iff: "even (unat (w :: 'a::len word)) \<longleftrightarrow> even w"
  by transfer (simp add: even_nat_iff)

section \<open>Critical sections\<close>

text \<open>
  What the data structures rely on of the lock that guards them: an uncontended lock can be taken,
  and releasing it restores it.  A critical section whose body leaves the lock alone then computes
  just what its body computes.
\<close>

locale critical_section =
  fixes acquire :: "'l \<Rightarrow> 'l outcome"
    and release :: "'l \<Rightarrow> 'l outcome"
    and idle :: "'l \<Rightarrow> bool"
  assumes acquire_idle: "idle l \<Longrightarrow> \<exists>m. acquire l = Ret m \<and> release m = Ret l"
begin

lemma transparent:
  "idle l \<Longrightarrow> obind (acquire l) (\<lambda>m. obind body (\<lambda>r. obind (release m) (k r))) = obind body (\<lambda>r. k r l)"
  using acquire_idle [of l] by (cases body) auto

lemma transparent_pure:
  "idle l \<Longrightarrow> obind (acquire l) (\<lambda>m. obind (release m) k) = k l"
  using acquire_idle [of l] by auto

end

section \<open>Bounded loops\<close>

text \<open>A \<^verbatim>\<open>for\<close> loop whose body may panic, block or fault.\<close>

fun ofold :: "('x \<Rightarrow> 's \<Rightarrow> 's outcome) \<Rightarrow> 'x list \<Rightarrow> 's \<Rightarrow> 's outcome" where
  "ofold f [] s = Ret s"
| "ofold f (x # xs) s = obind (f x s) (ofold f xs)"

lemma ofold_append: "ofold f (xs @ ys) s = obind (ofold f xs s) (ofold f ys)"
proof (induction xs arbitrary: s)
  case (Cons x xs)
  then show ?case by (cases "f x s") simp_all
qed simp

lemma ofold_Ret:
  "(\<And>x s. x \<in> set xs \<Longrightarrow> f x s = Ret (g x s)) \<Longrightarrow> ofold f xs s = Ret (fold g xs s)"
  by (induction xs arbitrary: s) simp_all

section \<open>Single flags\<close>

lemma flag_clear_set: "has_flag (w :: u32) (2 ^ k) \<Longrightarrow> (w AND NOT (2 ^ k)) OR 2 ^ k = w"
  by (auto simp: and_exp_eq_0_iff_not_bit intro!: bit_eqI simp: bit_simps)

lemma flag_clear_off: "\<not> has_flag (w :: u32) (2 ^ k) \<Longrightarrow> w AND NOT (2 ^ k) = w"
  by (auto simp: and_exp_eq_0_iff_not_bit intro!: bit_eqI simp: bit_simps)

lemma flag_set_on: "has_flag (w :: u32) (2 ^ k) \<Longrightarrow> w OR 2 ^ k = w"
  by (auto simp: and_exp_eq_0_iff_not_bit intro!: bit_eqI simp: bit_simps)

lemma flag_set_clear: "\<not> has_flag (w :: u32) (2 ^ k) \<Longrightarrow> (w OR 2 ^ k) AND NOT (2 ^ k) = w"
  by (auto simp: and_exp_eq_0_iff_not_bit intro!: bit_eqI simp: bit_simps)

lemma flag_cleared: "(w AND NOT (2 ^ k)) AND 2 ^ k = (0 :: u32)"
  by (auto intro!: bit_eqI simp: bit_simps)

section \<open>Forward simulation\<close>

text \<open>
  The refinement notion of the data structures: an operation of the abstract machine that is
  enabled is matched by a returning operation of the code with the same result.  Runs are lists of
  operations.
\<close>

fun run_ops :: "('op \<Rightarrow> 's \<Rightarrow> ('r \<times> 's) outcome) \<Rightarrow> 'op list \<Rightarrow> 's \<Rightarrow> ('r list \<times> 's) outcome" where
  "run_ops step [] s = Ret ([], s)"
| "run_ops step (x # xs) s =
     obind (step x s) (\<lambda>(r, s). obind (run_ops step xs s) (\<lambda>(rs, s). Ret (r # rs, s)))"

fun run_abs :: "('op \<Rightarrow> 'a \<Rightarrow> ('r \<times> 'a) option) \<Rightarrow> 'op list \<Rightarrow> 'a \<Rightarrow> ('r list \<times> 'a) option" where
  "run_abs astep [] a = Some ([], a)"
| "run_abs astep (x # xs) a =
     (case astep x a of None \<Rightarrow> None
      | Some (r, a) \<Rightarrow> (case run_abs astep xs a of None \<Rightarrow> None | Some (rs, a) \<Rightarrow> Some (r # rs, a)))"

locale simulation =
  fixes step :: "'op \<Rightarrow> 's \<Rightarrow> ('r \<times> 's) outcome"
    and astep :: "'op \<Rightarrow> 'a \<Rightarrow> ('r \<times> 'a) option"
    and rel :: "'s \<Rightarrow> 'a \<Rightarrow> bool"
  assumes simulates: "rel s a \<Longrightarrow> astep x a = Some (r, a') \<Longrightarrow> \<exists>s'. step x s = Ret (r, s') \<and> rel s' a'"
begin

lemma run_simulates:
  "rel s a \<Longrightarrow> run_abs astep xs a = Some (rs, a') \<Longrightarrow> \<exists>s'. run_ops step xs s = Ret (rs, s') \<and> rel s' a'"
proof (induction xs arbitrary: s a rs)
  case Nil
  then show ?case by simp
next
  case (Cons x xs)
  then obtain r a1 rs1 where a1: "astep x a = Some (r, a1)" "run_abs astep xs a1 = Some (rs1, a')" "rs = r # rs1"
    by (auto split: option.splits)
  then obtain s1 where "step x s = Ret (r, s1)" "rel s1 a1"
    using simulates Cons.prems(1) by blast
  with Cons.IH a1 show ?case by fastforce
qed

end

section \<open>Chains in a heap\<close>

text \<open>
  \<open>seg nx h p as q\<close>: following the field \<open>nx\<close> from \<open>p\<close> visits the cells \<open>as\<close> and ends at \<open>q\<close>;
  \<open>chain\<close> is a null-terminated segment.
\<close>

primrec seg :: "('n \<Rightarrow> ptr) \<Rightarrow> (ptr \<rightharpoonup> 'n) \<Rightarrow> ptr \<Rightarrow> ptr list \<Rightarrow> ptr \<Rightarrow> bool" where
  "seg nx h p [] q \<longleftrightarrow> p = q"
| "seg nx h p (a # as) q \<longleftrightarrow> p = a \<and> a \<noteq> 0 \<and> (\<exists>c. h a = Some c \<and> seg nx h (nx c) as q)"

definition chain :: "('n \<Rightarrow> ptr) \<Rightarrow> (ptr \<rightharpoonup> 'n) \<Rightarrow> ptr \<Rightarrow> ptr list \<Rightarrow> bool" where
  "chain nx h p as = seg nx h p as 0"

lemma chain_Nil [simp]: "chain nx h p [] \<longleftrightarrow> p = 0"
  by (simp add: chain_def)

lemma chain_Cons [simp]: "chain nx h p (a # as) \<longleftrightarrow> p = a \<and> a \<noteq> 0 \<and> (\<exists>c. h a = Some c \<and> chain nx h (nx c) as)"
  by (simp add: chain_def)

lemma chain_null [simp]: "chain nx h 0 as \<longleftrightarrow> as = []"
  by (cases as) auto

lemma chain_nonnull: "p \<noteq> 0 \<Longrightarrow> chain nx h p as \<longleftrightarrow>
    (\<exists>c bs. as = p # bs \<and> h p = Some c \<and> chain nx h (nx c) bs)"
  by (cases as) auto

lemma seg_append [heap_simps]: "seg nx h p (as @ bs) q \<longleftrightarrow> (\<exists>r. seg nx h p as r \<and> seg nx h r bs q)"
  by (induction as arbitrary: p) auto

lemma chain_append [heap_simps]: "chain nx h p (as @ bs) \<longleftrightarrow> (\<exists>r. seg nx h p as r \<and> chain nx h r bs)"
  by (simp add: chain_def seg_append)

lemma seg_upd [heap_simps]: "a \<notin> set as \<Longrightarrow> seg nx (h(a := x)) p as q = seg nx h p as q"
  by (induction as arbitrary: p) auto

lemma chain_upd [heap_simps]: "a \<notin> set as \<Longrightarrow> chain nx (h(a := x)) p as = chain nx h p as"
  by (simp add: chain_def seg_upd)

lemma seg_dom: "seg nx h p as q \<Longrightarrow> set as \<subseteq> dom h - {0}"
  by (induction as arbitrary: p) auto

lemma chain_dom: "chain nx h p as \<Longrightarrow> set as \<subseteq> dom h - {0}"
  by (simp add: chain_def seg_dom)

lemma chain_det: "chain nx h p as \<Longrightarrow> chain nx h p bs \<Longrightarrow> as = bs"
proof (induction as arbitrary: p bs)
  case Nil
  then show ?case by simp
next
  case (Cons a as)
  then obtain c bs' where "bs = a # bs'" "h a = Some c" "chain nx h (nx c) as" "chain nx h (nx c) bs'"
    by (cases bs) auto
  with Cons.IH show ?case by blast
qed

lemma chain_distinct: "chain nx h p as \<Longrightarrow> distinct as"
proof (induction as arbitrary: p)
  case Nil
  then show ?case by simp
next
  case (Cons a as)
  then obtain c where c: "h a = Some c" "chain nx h (nx c) as" by auto
  have "a \<notin> set as"
  proof
    assume "a \<in> set as"
    then obtain us vs where "as = us @ a # vs" by (auto simp: in_set_conv_decomp)
    with c have "chain nx h (nx c) vs" by (auto simp: chain_append)
    with c(2) have "as = vs" by (rule chain_det)
    with \<open>as = us @ a # vs\<close> show False by simp
  qed
  with Cons.IH c show ?case by auto
qed

text \<open>
  Doubly linked segments: \<open>dseg nx pv h p a as q b\<close> visits \<open>as\<close> from \<open>p\<close> to \<open>q\<close>, and the backward fields
  lead from \<open>b\<close>, the cell before \<open>q\<close>, back to \<open>a\<close>, the cell before \<open>p\<close>.
\<close>

primrec dseg :: "('n \<Rightarrow> ptr) \<Rightarrow> ('n \<Rightarrow> ptr) \<Rightarrow> (ptr \<rightharpoonup> 'n) \<Rightarrow> ptr \<Rightarrow> ptr \<Rightarrow> ptr list \<Rightarrow> ptr \<Rightarrow> ptr \<Rightarrow> bool" where
  "dseg nx pv h p a [] q b \<longleftrightarrow> p = q \<and> a = b"
| "dseg nx pv h p a (x # xs) q b \<longleftrightarrow>
     p = x \<and> x \<noteq> 0 \<and> (\<exists>c. h x = Some c \<and> pv c = a \<and> dseg nx pv h (nx c) x xs q b)"

lemma dseg_append [heap_simps]:
  "dseg nx pv h p a (xs @ ys) q b \<longleftrightarrow> (\<exists>r m. dseg nx pv h p a xs r m \<and> dseg nx pv h r m ys q b)"
  by (induction xs arbitrary: p a) auto

lemma dseg_upd [heap_simps]: "x \<notin> set xs \<Longrightarrow> dseg nx pv (h(x := v)) p a xs q b = dseg nx pv h p a xs q b"
  by (induction xs arbitrary: p a) auto

lemma dseg_cong:
  assumes "\<And>x. x \<in> set xs \<Longrightarrow> map_option (\<lambda>c. (nx c, pv c)) (h' x) = map_option (\<lambda>c. (nx c, pv c)) (h x)"
    and "dseg nx pv h p a xs q b"
  shows "dseg nx pv h' p a xs q b"
  using assms
proof (induction xs arbitrary: p a)
  case Nil
  then show ?case by simp
next
  case (Cons x xs)
  then obtain c where c: "h x = Some c" "pv c = a" "dseg nx pv h (nx c) x xs q b" "p = x" "x \<noteq> 0" by auto
  with Cons.prems(1) [of x] obtain c' where "h' x = Some c'" "nx c' = nx c" "pv c' = pv c"
    by (cases "h' x") auto
  with c Cons.IH Cons.prems(1) show ?case by simp
qed

lemma dseg_last: "dseg nx pv h p a xs q b \<Longrightarrow> b = last (a # xs)"
  by (induction xs arbitrary: p a) auto

lemma dseg_seg: "dseg nx pv h p a xs q b \<Longrightarrow> seg nx h p xs q"
  by (induction xs arbitrary: p a) auto

lemma dseg_distinct: "dseg nx pv h p a xs 0 b \<Longrightarrow> distinct xs"
  by (rule chain_distinct [of nx h p]) (simp add: chain_def dseg_seg)

lemma dseg_dom: "dseg nx pv h p a xs q b \<Longrightarrow> set xs \<subseteq> dom h - {0}"
  by (rule seg_dom) (rule dseg_seg)

text \<open>\<open>entries_at f h xs\<close>: every cell of the list of pairs \<open>xs\<close> carries the payload it is paired with.\<close>

definition entries_at :: "('n \<Rightarrow> 'e) \<Rightarrow> (ptr \<rightharpoonup> 'n) \<Rightarrow> (ptr \<times> 'e) list \<Rightarrow> bool" where
  "entries_at f h xs \<longleftrightarrow> (\<forall>x \<in> set xs. \<exists>c. h (fst x) = Some c \<and> f c = snd x)"

lemma entries_at_simps [simp]:
  "entries_at f h []" "entries_at f h (x # xs) \<longleftrightarrow> (\<exists>c. h (fst x) = Some c \<and> f c = snd x) \<and> entries_at f h xs"
  "entries_at f h (xs @ ys) \<longleftrightarrow> entries_at f h xs \<and> entries_at f h ys"
  by (auto simp: entries_at_def)

lemma entries_at_upd [heap_simps]: "a \<notin> fst ` set xs \<Longrightarrow> entries_at f (h(a := v)) xs = entries_at f h xs"
  by (auto simp: entries_at_def)

section \<open>The execution context\<close>

text \<open>
  What \<^verbatim>\<open>mutex.c\<close> and \<^verbatim>\<open>rwlock.c\<close> read of the rest of the kernel: the kernel state flags and the
  current task (its pid, its flags and the flags of the cpu it runs on).
\<close>

record ktask =
  tk_pid :: int
  tk_flags :: u32
  tk_cpu_flags :: u32

record kenv =
  kernel_state_flags :: u32
  current_task :: "ktask option"

abbreviation KSF_SHUTDOWN :: u32 where "KSF_SHUTDOWN \<equiv> 0x2"
abbreviation KSF_SMP_ENABLE :: u32 where "KSF_SMP_ENABLE \<equiv> 0x10"
abbreviation KSF_PAGING :: u32 where "KSF_PAGING \<equiv> 0x20"
abbreviation KSF_MEMMAPPED :: u32 where "KSF_MEMMAPPED \<equiv> 0x80"
abbreviation TF_IN_INT :: u32 where "TF_IN_INT \<equiv> 0x40000"
abbreviation CPU_INTER :: u32 where "CPU_INTER \<equiv> 0x40"

end
