(* ===== verification/Mutex.thy ===== *)
theory Mutex
  imports Prelude
begin

text \<open>
  Mutual exclusion locks (\<^verbatim>\<open>kernel/mutex.c\<close>).  The first part translates the routines as functions of
  the mutex and the execution context; a spinning acquire is \<open>Block\<close>.  The second part splits acquire and
  release at their atomic actions and interleaves any number of tasks over one mutex, and shows that the
  lock excludes them and that no assertion of the two routines can fail.
\<close>

section \<open>The routines\<close>

abbreviation MUTEX_MAGIC :: u32 where "MUTEX_MAGIC \<equiv> 0xDEADBEEF"
abbreviation MT_ALLOC :: u32 where "MT_ALLOC \<equiv> 1"
abbreviation MT_NOSCHED :: u32 where "MT_NOSCHED \<equiv> 2"
abbreviation MT_LCK_INT :: u32 where "MT_LCK_INT \<equiv> 2"

record mutex =
  mx_magic :: u32
  mx_lock :: u32
  mx_flags :: u32
  mx_pid :: int

definition mutex_is_locked :: "kenv \<Rightarrow> mutex \<Rightarrow> u32" where
  "mutex_is_locked env m =
     (if has_flag (kernel_state_flags env) KSF_SHUTDOWN then 1 else mx_lock m)"

text \<open>The two panics at the top of \<^verbatim>\<open>__mutex_acquire\<close>.\<close>

definition mutex_relocks :: "kenv \<Rightarrow> mutex \<Rightarrow> bool" where
  "mutex_relocks env m =
     (case current_task env of
        None \<Rightarrow> False
      | Some t \<Rightarrow> mx_lock m \<noteq> 0 \<and> mx_pid m = tk_pid t \<and>
          (has_flag (mx_lock m) MT_LCK_INT \<or> \<not> has_flag (tk_flags t) TF_IN_INT))"

definition mutex_deadlocks :: "kenv \<Rightarrow> mutex \<Rightarrow> bool" where
  "mutex_deadlocks env m =
     (case current_task env of
        None \<Rightarrow> False
      | Some t \<Rightarrow> \<not> has_flag (kernel_state_flags env) KSF_SMP_ENABLE \<and>
          has_flag (mx_flags m) MT_NOSCHED \<and> \<not> has_flag (tk_cpu_flags t) CPU_INTER \<and>
          tk_pid t \<noteq> mx_pid m \<and> mx_pid m \<noteq> -1)"

definition mutex_reenters :: "kenv \<Rightarrow> mutex \<Rightarrow> bool" where
  "mutex_reenters env m =
     (case current_task env of
        None \<Rightarrow> False
      | Some t \<Rightarrow> mx_pid m = tk_pid t \<and> has_flag (tk_flags t) TF_IN_INT)"

definition mutex_take :: "kenv \<Rightarrow> mutex \<Rightarrow> mutex" where
  "mutex_take env m =
     (case current_task env of None \<Rightarrow> m | Some t \<Rightarrow> m\<lparr>mx_pid := tk_pid t\<rparr>)"

definition mutex_acquire :: "kenv \<Rightarrow> mutex \<Rightarrow> mutex outcome" where
  "mutex_acquire env m =
     oassert (mx_magic m = MUTEX_MAGIC)
     (if has_flag (kernel_state_flags env) KSF_SHUTDOWN then Ret m
      else if mutex_relocks env m then Panic
      else if mutex_deadlocks env m then Panic
      else if mutex_reenters env m then
        oassert (\<not> has_flag (mx_lock m) MT_LCK_INT)
          (Ret (m\<lparr>mx_lock := mx_lock m OR MT_LCK_INT\<rparr>))
      else (let (l, was_set) = bts_atomic (mx_lock m) 0 in
        if was_set then Block
        else oassert (l \<noteq> 0) (Ret (mutex_take env (m\<lparr>mx_lock := l\<rparr>)))))"

definition mutex_release :: "kenv \<Rightarrow> mutex \<Rightarrow> mutex outcome" where
  "mutex_release env m =
     oassert (mx_magic m = MUTEX_MAGIC)
     (if has_flag (kernel_state_flags env) KSF_SHUTDOWN then Ret m
      else oassert (mx_lock m \<noteq> 0)
      (if (case current_task env of None \<Rightarrow> False | Some t \<Rightarrow> mx_pid m \<noteq> tk_pid t) then Panic
       else if has_flag (mx_lock m) MT_LCK_INT then
         (case current_task env of
            None \<Rightarrow> Fault
          | Some t \<Rightarrow> oassert (has_flag (tk_flags t) TF_IN_INT)
              (Ret (m\<lparr>mx_lock := mx_lock m AND NOT MT_LCK_INT\<rparr>)))
       else Ret (m\<lparr>mx_pid := -1, mx_lock := fst (btr_atomic (mx_lock m) 0)\<rparr>)))"

text \<open>
  \<^verbatim>\<open>mutex_create\<close>: the flag says whether the caller passed a null pointer, in which case the mutex is
  allocated (zeroed, as \<^verbatim>\<open>kmalloc\<close> does).
\<close>

definition mutex_create :: "bool \<Rightarrow> u32 \<Rightarrow> mutex" where
  "mutex_create alloc flags =
     (let m = \<lparr>mx_magic = 0, mx_lock = 0, mx_flags = 0, mx_pid = 0\<rparr>;
          m = (if alloc then m\<lparr>mx_flags := mx_flags m OR (MT_ALLOC OR flags)\<rparr>
               else m\<lparr>mx_flags := flags\<rparr>)
      in m\<lparr>mx_lock := 0, mx_magic := MUTEX_MAGIC, mx_pid := -1\<rparr>)"

text \<open>The second result says whether the memory is handed to \<^verbatim>\<open>kfree\<close>.\<close>

definition mutex_destroy :: "kenv \<Rightarrow> mutex \<Rightarrow> (mutex \<times> bool) outcome" where
  "mutex_destroy env m =
     oassert (mx_magic m = MUTEX_MAGIC)
     (if has_flag (kernel_state_flags env) KSF_SHUTDOWN then Ret (m, False)
      else Ret (m\<lparr>mx_lock := 0, mx_magic := 0\<rparr>, has_flag (mx_flags m) MT_ALLOC))"

subsection \<open>Uncontended use\<close>

text \<open>A mutex nobody holds, and an ordinary context: no shutdown in progress.\<close>

definition mutex_free :: "mutex \<Rightarrow> bool" where
  "mutex_free m \<longleftrightarrow> mx_magic m = MUTEX_MAGIC \<and> mx_lock m = 0 \<and> mx_pid m = -1"

definition env_ok :: "kenv \<Rightarrow> bool" where
  "env_ok env \<longleftrightarrow> \<not> has_flag (kernel_state_flags env) KSF_SHUTDOWN \<and>
     (\<forall>t. current_task env = Some t \<longrightarrow> tk_pid t \<noteq> -1)"

definition mutex_held :: "kenv \<Rightarrow> mutex \<Rightarrow> bool" where
  "mutex_held env m \<longleftrightarrow> mx_magic m = MUTEX_MAGIC \<and> mx_lock m = 1 \<and>
     mx_pid m = (case current_task env of None \<Rightarrow> -1 | Some t \<Rightarrow> tk_pid t)"

lemma mutex_create_free: "mutex_free (mutex_create a f)"
  by (simp add: mutex_create_def mutex_free_def Let_def)

lemma mutex_acquire_free [lock_simps]:
  assumes "env_ok env" "mutex_free m"
  shows "mutex_acquire env m = Ret (mutex_take env (m\<lparr>mx_lock := 1\<rparr>))"
  using assms
  by (auto simp: mutex_acquire_def env_ok_def mutex_free_def mutex_relocks_def mutex_deadlocks_def
      mutex_reenters_def bts_atomic_0 split: option.splits)

lemma mutex_take_held:
  "mutex_free m \<Longrightarrow> mutex_held env (mutex_take env (m\<lparr>mx_lock := 1\<rparr>))"
  by (auto simp: mutex_free_def mutex_held_def mutex_take_def split: option.splits)

lemma mutex_release_held [lock_simps]:
  assumes "env_ok env" "mutex_held env m"
  shows "mutex_release env m = Ret (m\<lparr>mx_pid := -1, mx_lock := 0\<rparr>)"
  using assms
  by (auto simp: mutex_release_def env_ok_def mutex_held_def btr_atomic_0 split: option.splits)

lemma mutex_release_take [lock_simps]:
  assumes "env_ok env" "mutex_free m"
  shows "mutex_release env (mutex_take env (m\<lparr>mx_lock := 1\<rparr>)) = Ret m"
proof -
  have "mutex_release env (mutex_take env (m\<lparr>mx_lock := 1\<rparr>)) =
      Ret ((mutex_take env (m\<lparr>mx_lock := 1\<rparr>))\<lparr>mx_pid := -1, mx_lock := 0\<rparr>)"
    using assms mutex_release_held mutex_take_held by blast
  with assms show ?thesis
    by (cases m) (auto simp: mutex_free_def mutex_take_def split: option.splits)
qed

interpretation mx: critical_section "mutex_acquire env" "mutex_release env"
  "\<lambda>m. env_ok env \<and> mutex_free m" for env
  by unfold_locales (auto simp: lock_simps)

section \<open>Interleaved tasks\<close>

text \<open>
  One program counter per task: outside; spinning on \<^verbatim>\<open>bts_atomic\<close>; bit won but \<^verbatim>\<open>m->pid\<close> not yet
  written; inside the critical section; \<^verbatim>\<open>m->pid\<close> cleared but the bit not yet; panicked.  Tasks are numbered,
  task \<open>i\<close> has pid \<open>i\<close> and runs outside interrupt handlers with SMP enabled.
\<close>

datatype mpc = MIdle | MSpin | MGot | MHeld | MUnl | MPanic

definition task_env :: "nat \<Rightarrow> kenv" where
  "task_env i = \<lparr>kernel_state_flags = KSF_SMP_ENABLE,
     current_task = Some \<lparr>tk_pid = int i, tk_flags = 0, tk_cpu_flags = 0\<rparr>\<rparr>"

definition mutex_tstep :: "kenv \<Rightarrow> mutex \<Rightarrow> mpc \<Rightarrow> mutex \<times> mpc" where
  "mutex_tstep env m pc =
     (case pc of
        MIdle \<Rightarrow> if mx_magic m \<noteq> MUTEX_MAGIC \<or> mutex_relocks env m \<or> mutex_deadlocks env m
                 then (m, MPanic) else (m, MSpin)
      | MSpin \<Rightarrow> (let (l, was_set) = bts_atomic (mx_lock m) 0
                  in (m\<lparr>mx_lock := l\<rparr>, if was_set then MSpin else MGot))
      | MGot \<Rightarrow> if mx_lock m = 0 then (m, MPanic) else (mutex_take env m, MHeld)
      | MHeld \<Rightarrow> if mx_magic m \<noteq> MUTEX_MAGIC \<or> mx_lock m = 0 \<or>
                    (case current_task env of None \<Rightarrow> False | Some t \<Rightarrow> mx_pid m \<noteq> tk_pid t) \<or>
                    has_flag (mx_lock m) MT_LCK_INT
                 then (m, MPanic) else (m\<lparr>mx_pid := -1\<rparr>, MUnl)
      | MUnl \<Rightarrow> (m\<lparr>mx_lock := fst (btr_atomic (mx_lock m) 0)\<rparr>, MIdle)
      | MPanic \<Rightarrow> (m, MPanic))"

record msys =
  ms_lock :: mutex
  ms_pcs :: "nat \<Rightarrow> mpc"

inductive mutex_step :: "msys \<Rightarrow> msys \<Rightarrow> bool" where
  task: "mutex_tstep (task_env i) (ms_lock s) (ms_pcs s i) = (m, pc) \<Longrightarrow>
     mutex_step s \<lparr>ms_lock = m, ms_pcs = (ms_pcs s)(i := pc)\<rparr>"

inductive mutex_reachable :: "msys \<Rightarrow> bool" where
  init: "mutex_reachable \<lparr>ms_lock = mutex_create a f, ms_pcs = (\<lambda>_. MIdle)\<rparr>"
| step: "mutex_reachable s \<Longrightarrow> mutex_step s t \<Longrightarrow> mutex_reachable t"

inductive_cases mutex_stepE: "mutex_step s t"

definition mx_owns :: "mpc \<Rightarrow> bool" where
  "mx_owns pc \<longleftrightarrow> pc = MGot \<or> pc = MHeld \<or> pc = MUnl"

lemma mx_owns_simps [simp]:
  "mx_owns MGot" "mx_owns MHeld" "mx_owns MUnl" "\<not> mx_owns MIdle" "\<not> mx_owns MSpin" "\<not> mx_owns MPanic"
  by (simp_all add: mx_owns_def)

definition mutex_inv :: "msys \<Rightarrow> bool" where
  "mutex_inv s \<longleftrightarrow>
     mx_magic (ms_lock s) = MUTEX_MAGIC \<and>
     (mx_lock (ms_lock s) = 0 \<and> (\<forall>i. \<not> mx_owns (ms_pcs s i)) \<and> mx_pid (ms_lock s) = -1 \<or>
      mx_lock (ms_lock s) = 1 \<and>
        (\<exists>k. mx_owns (ms_pcs s k) \<and> (\<forall>i. mx_owns (ms_pcs s i) \<longrightarrow> i = k) \<and>
             mx_pid (ms_lock s) = (if ms_pcs s k = MHeld then int k else -1))) \<and>
     (\<forall>i. ms_pcs s i \<noteq> MPanic)"

lemma mutex_inv_init: "mutex_inv \<lparr>ms_lock = mutex_create a f, ms_pcs = (\<lambda>_. MIdle)\<rparr>"
  by (simp add: mutex_inv_def mutex_create_def Let_def)

text \<open>A free or owned lock, as a case split for the step proof.\<close>

lemma mutex_invE:
  assumes "mutex_inv s"
  obtains (free) "mx_magic (ms_lock s) = MUTEX_MAGIC" "mx_lock (ms_lock s) = 0" "mx_pid (ms_lock s) = -1"
      "\<And>i. \<not> mx_owns (ms_pcs s i)" "\<And>i. ms_pcs s i \<noteq> MPanic"
    | (owned) k where "mx_magic (ms_lock s) = MUTEX_MAGIC" "mx_lock (ms_lock s) = 1"
      "mx_owns (ms_pcs s k)" "\<And>i. i \<noteq> k \<Longrightarrow> \<not> mx_owns (ms_pcs s i)"
      "mx_pid (ms_lock s) = (if ms_pcs s k = MHeld then int k else -1)" "\<And>i. ms_pcs s i \<noteq> MPanic"
  using assms unfolding mutex_inv_def by blast

lemma mutex_inv_ownedI:
  assumes "mx_magic (ms_lock s) = MUTEX_MAGIC" "mx_lock (ms_lock s) = 1" "mx_owns (ms_pcs s k)"
    and "\<And>i. i \<noteq> k \<Longrightarrow> \<not> mx_owns (ms_pcs s i) \<and> ms_pcs s i \<noteq> MPanic"
    and "mx_pid (ms_lock s) = (if ms_pcs s k = MHeld then int k else -1)"
  shows "mutex_inv s"
  using assms unfolding mutex_inv_def by (metis mx_owns_simps(6))

lemma mutex_inv_freeI:
  assumes "mx_magic (ms_lock s) = MUTEX_MAGIC" "mx_lock (ms_lock s) = 0" "mx_pid (ms_lock s) = -1"
    and "\<And>i. \<not> mx_owns (ms_pcs s i)" "\<And>i. ms_pcs s i \<noteq> MPanic"
  shows "mutex_inv s"
  using assms by (simp add: mutex_inv_def)

lemma mutex_tstep_free:
  assumes "mx_magic m = MUTEX_MAGIC" "mx_lock m = 0" "mx_pid m = -1" "\<not> mx_owns pc" "pc \<noteq> MPanic"
  shows "mutex_tstep (task_env i) m pc =
     (if pc = MIdle then (m, MSpin) else (m\<lparr>mx_lock := 1\<rparr>, MGot))"
  using assms
  by (cases pc) (auto simp: mutex_tstep_def mutex_relocks_def mutex_deadlocks_def bts_atomic_0 task_env_def)

lemma mutex_tstep_other:
  assumes "mx_magic m = MUTEX_MAGIC" "mx_lock m = 1" "mx_pid m \<noteq> int i" "\<not> mx_owns pc" "pc \<noteq> MPanic"
  shows "mutex_tstep (task_env i) m pc = (m, MSpin)"
  using assms
  by (cases pc; cases m)
     (auto simp: mutex_tstep_def mutex_relocks_def mutex_deadlocks_def bts_atomic_0 task_env_def)

lemma mutex_tstep_owner:
  assumes "mx_magic m = MUTEX_MAGIC" "mx_lock m = 1" "mx_owns pc"
    and "mx_pid m = (if pc = MHeld then int i else -1)"
  shows "mutex_tstep (task_env i) m pc =
     (if pc = MGot then (m\<lparr>mx_pid := int i\<rparr>, MHeld)
      else if pc = MHeld then (m\<lparr>mx_pid := -1\<rparr>, MUnl) else (m\<lparr>mx_lock := 0\<rparr>, MIdle))"
  using assms
  by (cases pc) (auto simp: mutex_tstep_def mutex_take_def btr_atomic_0 task_env_def)

lemma mutex_step_inv:
  assumes "mutex_step s t" "mutex_inv s"
  shows "mutex_inv t"
  using assms(1)
proof (cases rule: mutex_step.cases)
  case (task i m pc)
  from assms(2) show ?thesis
  proof (cases rule: mutex_invE)
    case free
    then have eq: "(m, pc) = (if ms_pcs s i = MIdle then (ms_lock s, MSpin)
        else (ms_lock s\<lparr>mx_lock := 1\<rparr>, MGot))"
      using task(2) mutex_tstep_free [of "ms_lock s" "ms_pcs s i" i] by metis
    show ?thesis
    proof (cases "ms_pcs s i = MIdle")
      case True
      with eq free task(1) show ?thesis by (intro mutex_inv_freeI) simp_all
    next
      case False
      with eq free task(1) show ?thesis by (intro mutex_inv_ownedI [of _ i]) simp_all
    qed
  next
    case (owned k)
    show ?thesis
    proof (cases "i = k")
      case True
      with owned task(2) mutex_tstep_owner [of "ms_lock s" "ms_pcs s k" k]
      have eq: "(m, pc) = (if ms_pcs s k = MGot then (ms_lock s\<lparr>mx_pid := int k\<rparr>, MHeld)
          else if ms_pcs s k = MHeld then (ms_lock s\<lparr>mx_pid := -1\<rparr>, MUnl)
          else (ms_lock s\<lparr>mx_lock := 0\<rparr>, MIdle))"
        by simp
      consider "ms_pcs s k = MGot" | "ms_pcs s k = MHeld" | "ms_pcs s k = MUnl"
        using owned(3) by (auto simp: mx_owns_def)
      then show ?thesis
      proof cases
        case 1
        with eq owned task(1) True show ?thesis
          by (intro mutex_inv_ownedI [of _ k]) simp_all
      next
        case 2
        with eq owned task(1) True show ?thesis
          by (intro mutex_inv_ownedI [of _ k]) simp_all
      next
        case 3
        with eq owned task(1) True show ?thesis
          by (intro mutex_inv_freeI) simp_all
      qed
    next
      case False
      with owned have "\<not> mx_owns (ms_pcs s i)" by blast
      moreover have "mx_pid (ms_lock s) \<noteq> int i" using False owned(5) by simp
      ultimately have "(m, pc) = (ms_lock s, MSpin)"
        using owned task(2) mutex_tstep_other [of "ms_lock s" i "ms_pcs s i"] by metis
      with False owned task(1) show ?thesis
        by (intro mutex_inv_ownedI [of _ k]) simp_all
    qed
  qed
qed

lemma mutex_reachable_inv: "mutex_reachable s \<Longrightarrow> mutex_inv s"
  by (induction rule: mutex_reachable.induct) (auto intro: mutex_inv_init mutex_step_inv)

text \<open>
  The interleaved steps are those of \<^const>\<open>mutex_acquire\<close> and \<^const>\<open>mutex_release\<close>: a task that is not
  interrupted between its first and last step computes exactly what the routines compute.
\<close>

lemma mutex_acquire_steps:
  assumes "mutex_acquire (task_env i) m = Ret m'"
  shows "\<exists>m1. mutex_tstep (task_env i) m MIdle = (m, MSpin) \<and>
     mutex_tstep (task_env i) m MSpin = (m1, MGot) \<and>
     mutex_tstep (task_env i) m1 MGot = (m', MHeld)"
  using assms
  by (intro exI [of _ "m\<lparr>mx_lock := fst (bts_atomic (mx_lock m) 0)\<rparr>"])
     (auto simp: mutex_acquire_def mutex_tstep_def mutex_reenters_def task_env_def oassert_eq_Ret
      split: if_splits prod.splits)

lemma mutex_release_steps:
  assumes "mutex_release (task_env i) m = Ret m'"
  shows "\<exists>m1. mutex_tstep (task_env i) m MHeld = (m1, MUnl) \<and>
     mutex_tstep (task_env i) m1 MUnl = (m', MIdle)"
  using assms
  by (intro exI [of _ "m\<lparr>mx_pid := -1\<rparr>"])
     (auto simp: mutex_release_def mutex_tstep_def task_env_def oassert_eq_Ret split: if_splits)

section \<open>Properties\<close>



text \<open>C3: Relocking from an interrupt handler.  A task that holds the mutex outside interrupt context may
  take it again inside a handler: that acquisition succeeds at once, a third one is refused, and the
  matching release restores the mutex the task held before the interrupt.\<close>

theorem mutex_interrupt_relock:
  assumes "\<not> has_flag (kernel_state_flags env) KSF_SHUTDOWN" "current_task env = Some t"
    and "has_flag (tk_flags t) TF_IN_INT" "mx_magic m = MUTEX_MAGIC" "mx_lock m = 1" "mx_pid m = tk_pid t"
  shows "\<exists>m'. mutex_acquire env m = Ret m' \<and> mutex_acquire env m' = Panic \<and> mutex_release env m' = Ret m"
  using assms
  by (cases m) (auto simp: mutex_acquire_def mutex_release_def mutex_relocks_def mutex_deadlocks_def
      mutex_reenters_def)

theorem mutex_interrupt_relock_witness:
  "\<exists>m'. mutex_acquire \<lparr>kernel_state_flags = 0, current_task = Some \<lparr>tk_pid = 7, tk_flags = TF_IN_INT,
      tk_cpu_flags = 0\<rparr>\<rparr> \<lparr>mx_magic = MUTEX_MAGIC, mx_lock = 1, mx_flags = 0, mx_pid = 7\<rparr> = Ret m'"
  using mutex_interrupt_relock [of "\<lparr>kernel_state_flags = 0, current_task = Some \<lparr>tk_pid = 7,
      tk_flags = TF_IN_INT, tk_cpu_flags = 0\<rparr>\<rparr>" _ "\<lparr>mx_magic = MUTEX_MAGIC, mx_lock = 1, mx_flags = 0, mx_pid = 7\<rparr>"]
  by auto

end
