(* ===== verification/Rwlock.thy ===== *)
theory Rwlock
  imports Mutex
begin

text \<open>
  Readers/writer locks (\<^verbatim>\<open>kernel/rwlock.c\<close>).  As for the mutex, the routines come first as functions that
  return \<open>Block\<close> where the code schedules in a loop; then their atomic actions are interleaved for
  \<open>N\<close> tasks on one lock word, with escalation in both directions.
\<close>

section \<open>The routines\<close>

abbreviation RWLOCK_MAGIC :: u32 where "RWLOCK_MAGIC \<equiv> 0x1AD1E5"
abbreviation RWL_READER :: u32 where "RWL_READER \<equiv> 0x1"
abbreviation RWL_WRITER :: u32 where "RWL_WRITER \<equiv> 0x2"
abbreviation RWL_ALLOC :: u32 where "RWL_ALLOC \<equiv> 0x4"

record rwlock =
  rw_magic :: u32
  rw_flags :: u32
  rw_locks :: u64

definition rwlock_acquire :: "kenv \<Rightarrow> rwlock \<Rightarrow> u32 \<Rightarrow> rwlock outcome" where
  "rwlock_acquire env lk flags =
     oassert (rw_magic lk = RWLOCK_MAGIC)
     (if has_flag (kernel_state_flags env) KSF_SHUTDOWN then Ret lk
      else if has_flag flags RWL_WRITER \<and> rw_locks lk \<noteq> 0 then Block
      else (let (k, was_set) = bts_atomic (rw_locks lk) 0 in
        if was_set then Block
        else if has_flag flags RWL_READER then
          Ret (lk\<lparr>rw_locks := fst (btr_atomic (k + 2) 0)\<rparr>)
        else if has_flag flags RWL_WRITER \<and> k = 1 then Ret (lk\<lparr>rw_locks := k\<rparr>)
        else Block))"

definition rwlock_escalate :: "kenv \<Rightarrow> rwlock \<Rightarrow> u32 \<Rightarrow> rwlock outcome" where
  "rwlock_escalate env lk flags =
     oassert (rw_magic lk = RWLOCK_MAGIC)
     (if has_flag (kernel_state_flags env) KSF_SHUTDOWN then Ret lk
      else oassert (rw_locks lk \<noteq> 0)
      (if rw_locks lk = 1 \<and> has_flag flags RWL_READER then
         Ret (lk\<lparr>rw_locks := fst (btr_atomic (rw_locks lk + 2) 0)\<rparr>)
       else if rw_locks lk mod 2 = 0 \<and> has_flag flags RWL_WRITER then
         (if rw_locks lk \<noteq> 2 then Block
          else let (k, was_set) = bts_atomic (rw_locks lk) 0 in
            if was_set then Block
            else if k = 3 then Ret (lk\<lparr>rw_locks := k - 2\<rparr>) else Block)
       else Ret lk))"

definition rwlock_release :: "kenv \<Rightarrow> rwlock \<Rightarrow> u32 \<Rightarrow> rwlock outcome" where
  "rwlock_release env lk flags =
     oassert (rw_magic lk = RWLOCK_MAGIC)
     (if has_flag (kernel_state_flags env) KSF_SHUTDOWN then Ret lk
      else oassert (rw_locks lk \<noteq> 0)
      (if has_flag flags RWL_READER then
         oassert (rw_locks lk \<ge> 2) (Ret (lk\<lparr>rw_locks := rw_locks lk - 2\<rparr>))
       else if has_flag flags RWL_WRITER then
         oassert (rw_locks lk = 1) (Ret (lk\<lparr>rw_locks := fst (btr_atomic (rw_locks lk) 0)\<rparr>))
       else Ret lk))"

definition rwlock_create :: "bool \<Rightarrow> rwlock" where
  "rwlock_create alloc =
     (let lk = \<lparr>rw_magic = 0, rw_flags = 0, rw_locks = 0\<rparr>;
          lk = (if alloc then lk\<lparr>rw_flags := RWL_ALLOC\<rparr> else lk)
      in lk\<lparr>rw_locks := 0, rw_magic := RWLOCK_MAGIC\<rparr>)"

definition rwlock_destroy :: "kenv \<Rightarrow> rwlock \<Rightarrow> (rwlock \<times> bool) outcome" where
  "rwlock_destroy env lk =
     oassert (rw_magic lk = RWLOCK_MAGIC)
     (if has_flag (kernel_state_flags env) KSF_SHUTDOWN then Ret (lk, False)
      else Ret (lk\<lparr>rw_magic := 0\<rparr>, has_flag (rw_flags lk) RWL_ALLOC))"

subsection \<open>Uncontended use\<close>

definition rw_free :: "rwlock \<Rightarrow> bool" where
  "rw_free lk \<longleftrightarrow> rw_magic lk = RWLOCK_MAGIC \<and> rw_locks lk = 0"

lemma rwlock_create_free: "rw_free (rwlock_create a)"
  by (simp add: rwlock_create_def rw_free_def Let_def)

lemma rwlock_acquire_writer [lock_simps]:
  "env_ok env \<Longrightarrow> rw_free lk \<Longrightarrow> rwlock_acquire env lk RWL_WRITER = Ret (lk\<lparr>rw_locks := 1\<rparr>)"
  by (simp add: rwlock_acquire_def env_ok_def rw_free_def bts_atomic_0)

lemma rwlock_release_writer [lock_simps]:
  "env_ok env \<Longrightarrow> rw_free lk \<Longrightarrow> rwlock_release env (lk\<lparr>rw_locks := 1\<rparr>) RWL_WRITER = Ret lk"
  by (cases lk) (simp add: rwlock_release_def env_ok_def rw_free_def btr_atomic_0)

lemma rwlock_acquire_reader [lock_simps]:
  "env_ok env \<Longrightarrow> rw_free lk \<Longrightarrow> rwlock_acquire env lk RWL_READER = Ret (lk\<lparr>rw_locks := 2\<rparr>)"
  by (simp add: rwlock_acquire_def env_ok_def rw_free_def bts_atomic_0 btr_atomic_0)

lemma rwlock_release_reader [lock_simps]:
  "env_ok env \<Longrightarrow> rw_free lk \<Longrightarrow> rwlock_release env (lk\<lparr>rw_locks := 2\<rparr>) RWL_READER = Ret lk"
  by (cases lk) (simp add: rwlock_release_def env_ok_def rw_free_def)

interpretation wr: critical_section "\<lambda>lk. rwlock_acquire env lk RWL_WRITER" "\<lambda>lk. rwlock_release env lk RWL_WRITER"
  "\<lambda>lk. env_ok env \<and> rw_free lk" for env
  by unfold_locales (auto simp: lock_simps)

interpretation rd: critical_section "\<lambda>lk. rwlock_acquire env lk RWL_READER" "\<lambda>lk. rwlock_release env lk RWL_READER"
  "\<lambda>lk. env_ok env \<and> rw_free lk" for env
  by unfold_locales (auto simp: lock_simps)

text \<open>Several readers share the lock: the word counts them in steps of two.\<close>

lemma rwlock_acquire_shared:
  assumes "env_ok env" "rw_magic lk = RWLOCK_MAGIC" "rw_locks lk = 2 * of_nat n"
  shows "rwlock_acquire env lk RWL_READER = Ret (lk\<lparr>rw_locks := 2 * of_nat (Suc n)\<rparr>)"
  using assms by (simp add: rwlock_acquire_def env_ok_def bts_atomic_0 btr_atomic_0)

section \<open>Interleaved tasks\<close>

text \<open>
  The program counters name the place of a task inside \<^verbatim>\<open>__rwlock_acquire\<close> (reader: spin, add, clear;
  writer: wait, spin, check, undo), \<^verbatim>\<open>__rwlock_escalate\<close> (from reader: wait, spin, check, subtract, undo;
  from writer: add, clear) and \<^verbatim>\<open>rwlock_release\<close>.  \<open>EsLost\<close> is a reader whose escalation call found the
  lock word odd: the routine then returns at once without having changed anything.
\<close>

datatype rpc = RIdle | RdSpin | RdAdd | RdClr | RdHeld | RdRel
  | WrWait | WrSpin | WrChk | WrUndo | WrHeld | WrRel
  | EsWait | EsSpin | EsChk | EsSub | EsUndo | EsLost | DgAdd | DgClr | RPanic

fun rw_tstep :: "u64 \<Rightarrow> rpc \<Rightarrow> (u64 \<times> rpc) list" where
  "rw_tstep l RIdle = [(l, RdSpin), (l, WrWait)]"
| "rw_tstep l RdSpin = (let (k, was_set) = bts_atomic l 0 in [(k, if was_set then RdSpin else RdAdd)])"
| "rw_tstep l RdAdd = [(l + 2, RdClr)]"
| "rw_tstep l RdClr = [(fst (btr_atomic l 0), RdHeld)]"
| "rw_tstep l RdHeld =
     [(l, if l \<noteq> 0 \<and> l \<ge> 2 then RdRel else RPanic),
      (l, if l = 0 then RPanic else if l mod 2 = 0 then EsWait else EsLost)]"
| "rw_tstep l RdRel = [(l - 2, RIdle)]"
| "rw_tstep l WrWait = [(l, if l \<noteq> 0 then WrWait else WrSpin)]"
| "rw_tstep l WrSpin = (let (k, was_set) = bts_atomic l 0 in [(k, if was_set then WrSpin else WrChk)])"
| "rw_tstep l WrChk = [(l, if l = 1 then WrHeld else WrUndo)]"
| "rw_tstep l WrUndo = [(fst (btr_atomic l 0), WrWait)]"
| "rw_tstep l WrHeld =
     [(l, if l = 1 then WrRel else RPanic), (l, if l = 1 then DgAdd else RPanic)]"
| "rw_tstep l WrRel = [(fst (btr_atomic l 0), RIdle)]"
| "rw_tstep l EsWait = [(l, if l \<noteq> 2 then EsWait else EsSpin)]"
| "rw_tstep l EsSpin = (let (k, was_set) = bts_atomic l 0 in [(k, if was_set then EsSpin else EsChk)])"
| "rw_tstep l EsChk = [(l, if l = 3 then EsSub else EsUndo)]"
| "rw_tstep l EsSub = [(l - 2, WrHeld)]"
| "rw_tstep l EsUndo = [(fst (btr_atomic l 0), EsWait)]"
| "rw_tstep l EsLost = []"
| "rw_tstep l DgAdd = [(l + 2, DgClr)]"
| "rw_tstep l DgClr = [(fst (btr_atomic l 0), RdHeld)]"
| "rw_tstep l RPanic = []"

record rsys =
  rs_locks :: u64
  rs_pcs :: "nat \<Rightarrow> rpc"

inductive rw_step :: "nat \<Rightarrow> rsys \<Rightarrow> rsys \<Rightarrow> bool" for N where
  task: "i < N \<Longrightarrow> (l, pc) \<in> set (rw_tstep (rs_locks s) (rs_pcs s i)) \<Longrightarrow>
     rw_step N s \<lparr>rs_locks = l, rs_pcs = (rs_pcs s)(i := pc)\<rparr>"

inductive rw_reachable :: "nat \<Rightarrow> rsys \<Rightarrow> bool" for N where
  init: "rw_reachable N \<lparr>rs_locks = rw_locks (rwlock_create a), rs_pcs = (\<lambda>_. RIdle)\<rparr>"
| step: "rw_reachable N s \<Longrightarrow> rw_step N s t \<Longrightarrow> rw_reachable N t"

text \<open>What each task contributes to the lock word: two when it is counted as a reader, one when it
  owns the low bit.\<close>

fun rcnt :: "rpc \<Rightarrow> nat" where
  "rcnt RdClr = 1" | "rcnt RdHeld = 1" | "rcnt RdRel = 1" | "rcnt EsWait = 1" | "rcnt EsSpin = 1"
| "rcnt EsChk = 1" | "rcnt EsSub = 1" | "rcnt EsUndo = 1" | "rcnt EsLost = 1" | "rcnt DgClr = 1"
| "rcnt _ = 0"

fun rown :: "rpc \<Rightarrow> nat" where
  "rown RdAdd = 1" | "rown RdClr = 1" | "rown WrChk = 1" | "rown WrUndo = 1" | "rown WrHeld = 1"
| "rown WrRel = 1" | "rown EsChk = 1" | "rown EsSub = 1" | "rown EsUndo = 1" | "rown DgAdd = 1"
| "rown DgClr = 1" | "rown _ = 0"

definition rcount :: "nat \<Rightarrow> rsys \<Rightarrow> nat" where
  "rcount N s = (\<Sum>i<N. rcnt (rs_pcs s i))"

definition rowners :: "nat \<Rightarrow> rsys \<Rightarrow> nat" where
  "rowners N s = (\<Sum>i<N. rown (rs_pcs s i))"

text \<open>How many readers may be counted while a task is at a given place of a writer's path.\<close>

definition rw_excl :: "rpc \<Rightarrow> nat \<Rightarrow> bool" where
  "rw_excl pc c \<longleftrightarrow> (pc = WrHeld \<or> pc = WrRel \<or> pc = DgAdd \<longrightarrow> c = 0) \<and> (pc = EsSub \<longrightarrow> c = 1) \<and> pc \<noteq> RPanic"

definition rw_inv :: "nat \<Rightarrow> rsys \<Rightarrow> bool" where
  "rw_inv N s \<longleftrightarrow> unat (rs_locks s) = 2 * rcount N s + rowners N s \<and> rowners N s \<le> 1 \<and>
     (\<forall>i<N. rw_excl (rs_pcs s i) (rcount N s))"

subsection \<open>One step\<close>

lemma u64_arith:
  fixes l :: u64
  shows "unat l < 2 ^ 63 \<Longrightarrow> unat (l + 1) = unat l + 1"
    and "unat l < 2 ^ 63 \<Longrightarrow> unat (l + 2) = unat l + 2"
    and "1 \<le> unat l \<Longrightarrow> unat (l - 1) = unat l - 1"
    and "2 \<le> unat l \<Longrightarrow> unat (l - 2) = unat l - 2"
    and "l = 0 \<longleftrightarrow> unat l = 0" "l = 1 \<longleftrightarrow> unat l = 1" "l = 2 \<longleftrightarrow> unat l = 2" "l = 3 \<longleftrightarrow> unat l = 3"
    and "2 \<le> l \<longleftrightarrow> 2 \<le> unat l" "even l \<longleftrightarrow> even (unat l)"
  by (simp_all add: unat_word_ariths word_le_nat_alt unat_sub unat_even_iff)
     (unat_arith | simp add: word_unat_eq_iff)+

lemma rw_tstep_grows:
  "(l', pc') \<in> set (rw_tstep l pc) \<Longrightarrow> rcnt pc = 0 \<Longrightarrow> rown pc = 0 \<Longrightarrow> rcnt pc' = 0"
  by (cases pc) (auto simp: Let_def split: if_splits prod.splits)

lemma rw_tstep_effect:
  assumes "(l', pc') \<in> set (rw_tstep l pc)" "unat l = 2 * C + B" "B \<le> 1"
    and "rcnt pc \<le> C" "rown pc \<le> B" "2 * C + B < 2 ^ 63" "rw_excl pc C"
  shows "\<exists>C' B'. C' + rcnt pc = C + rcnt pc' \<and> B' + rown pc = B + rown pc' \<and>
     unat l' = 2 * C' + B' \<and> B' \<le> 1 \<and> rw_excl pc' C'"
proof -
  have odd: "odd (unat l) \<longleftrightarrow> B = 1"
    using assms(2,3) by (cases B) auto
  let ?C = "C + rcnt pc' - rcnt pc" and ?B = "B + rown pc' - rown pc"
  have "unat l' = 2 * ?C + ?B \<and> ?B \<le> 1 \<and> rw_excl pc' ?C"
    using assms odd
    by (cases pc) (auto simp: u64_arith bts_atomic_0 btr_atomic_0 rw_excl_def mod2_eq_if split: if_splits)
  with assms(4,5) show ?thesis
    by (intro exI [of _ ?C] exI [of _ ?B]) auto
qed

subsection \<open>The invariant\<close>

lemma sum_fun_upd:
  fixes f :: "'a \<Rightarrow> nat" and N :: nat
  assumes "i < N"
  shows "(\<Sum>j<N. f ((g(i := x)) j)) + f (g i) = (\<Sum>j<N. f (g j)) + f x"
proof -
  have "(\<Sum>j<N. f ((g(i := x)) j)) = f x + (\<Sum>j\<in>{..<N} - {i}. f (g j))"
    using assms by (subst sum.remove [of _ i]) (auto intro!: sum.cong)
  moreover have "(\<Sum>j<N. f (g j)) = f (g i) + (\<Sum>j\<in>{..<N} - {i}. f (g j))"
    using assms by (subst sum.remove [of _ i]) auto
  ultimately show ?thesis by simp
qed

lemma sum_ge_one:
  fixes f :: "nat \<Rightarrow> nat"
  shows "i < N \<Longrightarrow> f i \<le> (\<Sum>j<N. f j)"
  by (rule member_le_sum) auto

lemma sum_ge_two:
  fixes f :: "nat \<Rightarrow> nat"
  assumes "i < N" "j < N" "i \<noteq> j"
  shows "f i + f j \<le> (\<Sum>k<N. f k)"
proof -
  have "(\<Sum>k\<in>{i, j}. f k) \<le> (\<Sum>k<N. f k)"
    using assms by (intro sum_mono2) auto
  with assms show ?thesis by simp
qed

lemma rcnt_rown_le [simp]: "rcnt pc \<le> Suc 0" "rown pc \<le> Suc 0"
  by (cases pc; simp)+

lemma rcount_le: "rcount N s \<le> N"
proof -
  have "rcount N s \<le> (\<Sum>i<N. 1)" unfolding rcount_def by (rule sum_mono) simp
  then show ?thesis by simp
qed

text \<open>Tasks other than the one that moves keep their exclusion.\<close>

lemma rw_excl_others:
  assumes "rw_excl pcj C" "rcnt pcj + rcnt pc \<le> C" "rown pcj + rown pc \<le> 1"
    and "(l', pc') \<in> set (rw_tstep l pc)" "C' + rcnt pc = C + rcnt pc'"
  shows "rw_excl pcj C'"
  using assms rw_tstep_grows [OF assms(4)]
  by (cases pcj) (auto simp: rw_excl_def)

lemma rw_inv_init: "rw_inv N \<lparr>rs_locks = rw_locks (rwlock_create a), rs_pcs = (\<lambda>_. RIdle)\<rparr>"
  by (simp add: rw_inv_def rwlock_create_def rcount_def rowners_def rw_excl_def Let_def)

lemma rw_step_inv:
  assumes "rw_step N s t" "rw_inv N s" "N < 2 ^ 60"
  shows "rw_inv N t"
  using assms(1)
proof (cases rule: rw_step.cases)
  case (task i l pc)
  let ?C = "rcount N s" and ?B = "rowners N s"
  have le: "rcnt (rs_pcs s i) \<le> ?C" "rown (rs_pcs s i) \<le> ?B"
    using task(2) sum_ge_one [of i N "\<lambda>i. rcnt (rs_pcs s i)"] sum_ge_one [of i N "\<lambda>i. rown (rs_pcs s i)"]
    by (simp_all add: rcount_def rowners_def)
  have "2 * ?C + ?B < 2 ^ 63"
    using assms(2,3) rcount_le [of N s] by (simp add: rw_inv_def)
  then obtain C' B' where C': "C' + rcnt (rs_pcs s i) = ?C + rcnt pc"
      "B' + rown (rs_pcs s i) = ?B + rown pc" "unat l = 2 * C' + B'" "B' \<le> 1" "rw_excl pc C'"
    using rw_tstep_effect [OF task(3), of ?C ?B] le assms(2) task(2) by (auto simp: rw_inv_def)
  have sums: "rcount N t = C'" "rowners N t = B'"
    using C'(1,2) task(1,2) sum_fun_upd [of i N rcnt "rs_pcs s" pc] sum_fun_upd [of i N rown "rs_pcs s" pc]
    by (simp_all add: rcount_def rowners_def)
  have "rw_excl (rs_pcs s j) C'" if "j < N" "j \<noteq> i" for j
  proof (rule rw_excl_others [OF _ _ _ task(3) C'(1)])
    show "rw_excl (rs_pcs s j) ?C" using assms(2) that by (simp add: rw_inv_def)
    show "rcnt (rs_pcs s j) + rcnt (rs_pcs s i) \<le> ?C"
      using sum_ge_two [of j N i "\<lambda>i. rcnt (rs_pcs s i)"] that task(2) by (simp add: rcount_def)
    show "rown (rs_pcs s j) + rown (rs_pcs s i) \<le> 1"
      using sum_ge_two [of j N i "\<lambda>i. rown (rs_pcs s i)"] that task(2) assms(2)
      by (simp add: rowners_def rw_inv_def)
  qed
  with C' sums task(1) show ?thesis by (simp add: rw_inv_def)
qed

lemma rw_reachable_inv: "rw_reachable N s \<Longrightarrow> N < 2 ^ 60 \<Longrightarrow> rw_inv N s"
  by (induction rule: rw_reachable.induct) (auto intro: rw_inv_init rw_step_inv)

text \<open>A writer excludes every other holder: nobody else is counted and nobody else owns the bit.\<close>

lemma rw_inv_writer:
  assumes "rw_inv N s" "i < N" "rs_pcs s i = WrHeld" "j < N" "j \<noteq> i"
  shows "rcnt (rs_pcs s j) = 0 \<and> rown (rs_pcs s j) = 0"
proof -
  have "rcount N s = 0" using assms by (auto simp: rw_inv_def rw_excl_def)
  then have "rcnt (rs_pcs s j) = 0" using assms(4) by (simp add: rcount_def)
  moreover have "rown (rs_pcs s i) + rown (rs_pcs s j) \<le> 1"
    using assms sum_ge_two [of i N j "\<lambda>i. rown (rs_pcs s i)"] by (simp add: rw_inv_def rowners_def)
  ultimately show ?thesis using assms(3) by simp
qed

section \<open>Properties\<close>


text \<open>Concrete runs: the list names the task that moves and which of its alternatives it takes.\<close>

fun rw_run :: "rsys \<Rightarrow> (nat \<times> nat) list \<Rightarrow> rsys" where
  "rw_run s [] = s"
| "rw_run s ((i, a) # xs) =
     (let (l, pc) = rw_tstep (rs_locks s) (rs_pcs s i) ! a
      in rw_run \<lparr>rs_locks = l, rs_pcs = (rs_pcs s)(i := pc)\<rparr> xs)"

fun rw_run_ok :: "nat \<Rightarrow> rsys \<Rightarrow> (nat \<times> nat) list \<Rightarrow> bool" where
  "rw_run_ok N s [] = True"
| "rw_run_ok N s ((i, a) # xs) =
     (i < N \<and> a < length (rw_tstep (rs_locks s) (rs_pcs s i)) \<and> rw_run_ok N (rw_run s [(i, a)]) xs)"

lemma rw_run_reachable: "rw_reachable N s \<Longrightarrow> rw_run_ok N s xs \<Longrightarrow> rw_reachable N (rw_run s xs)"
proof (induction xs arbitrary: s)
  case Nil
  then show ?case by simp
next
  case (Cons x xs)
  obtain i a where x: "x = (i, a)" by (cases x)
  obtain l pc where st: "rw_tstep (rs_locks s) (rs_pcs s i) ! a = (l, pc)" by (cases "rw_tstep (rs_locks s) (rs_pcs s i) ! a")
  have "rw_step N s \<lparr>rs_locks = l, rs_pcs = (rs_pcs s)(i := pc)\<rparr>"
  proof (rule rw_step.task)
    show "i < N" using Cons.prems(2) x by simp
    show "(l, pc) \<in> set (rw_tstep (rs_locks s) (rs_pcs s i))"
      using Cons.prems(2) x st nth_mem [of a "rw_tstep (rs_locks s) (rs_pcs s i)"] by simp
  qed
  then have "rw_reachable N (rw_run s [x])"
    using Cons.prems(1) x st by (auto intro: rw_reachable.step)
  with Cons.IH Cons.prems(2) x st show ?case by simp
qed

definition rw_start :: rsys where
  "rw_start = \<lparr>rs_locks = 0, rs_pcs = (\<lambda>_. RIdle)\<rparr>"

lemma rw_start_reachable: "rw_reachable N rw_start"
  using rw_reachable.init [of N False] by (simp add: rw_start_def rwlock_create_def)


text \<open>C4: Escalation can be lost.  There is an interleaving of two tasks after which a reader's call of
  \<^verbatim>\<open>rwlock_escalate(lock, RWL_WRITER)\<close> has returned while another task holds the lock for reading: when the
  lock word is momentarily odd because another reader is entering, neither branch of
  \<^verbatim>\<open>__rwlock_escalate\<close> applies and the routine returns without waiting.\<close>

theorem rwlock_escalate_lost:
  "\<exists>s. rw_reachable 2 s \<and> rs_pcs s 0 = EsLost \<and> rs_pcs s 1 = RdHeld"
proof -
  let ?xs = "[(0,0), (0,0), (0,0), (0,0), (1,0), (1,0), (0,1), (1,0), (1,0)] :: (nat \<times> nat) list"
  have "rw_run_ok 2 rw_start ?xs"
    by (simp add: rw_start_def bts_atomic_0 btr_atomic_0)
  then have "rw_reachable 2 (rw_run rw_start ?xs)"
    by (rule rw_run_reachable [OF rw_start_reachable])
  moreover have "rs_pcs (rw_run rw_start ?xs) 0 = EsLost \<and> rs_pcs (rw_run rw_start ?xs) 1 = RdHeld"
    by (simp add: rw_start_def bts_atomic_0 btr_atomic_0)
  ultimately show ?thesis by blast
qed

end
