(* ===== verification/Queue.thy ===== *)
theory Queue
  imports Mutex
begin

text \<open>
  The pointer queue of \<^verbatim>\<open>library/klib/queue.c\<close>.  Items live in a heap of \<^verbatim>\<open>struct queue_item\<close> cells; the
  address that \<^verbatim>\<open>kmalloc\<close> returns is an argument of the operation.  The operations refine a first-in
  first-out list of entries.
\<close>

section \<open>Operations\<close>

abbreviation QUEUE_ALLOC :: u32 where "QUEUE_ALLOC \<equiv> 1"

record queue_item =
  qi_ent :: ptr
  qi_next :: ptr

type_synonym qheap = "ptr \<rightharpoonup> queue_item"

record queue =
  q_flags :: u32
  q_count :: u32
  q_lock :: mutex
  q_head :: ptr
  q_tail :: ptr

definition queue_create :: "bool \<Rightarrow> u32 \<Rightarrow> queue" where
  "queue_create alloc flags =
     \<lparr>q_flags = (if alloc then QUEUE_ALLOC OR flags else flags), q_count = 0,
      q_lock = mutex_create False 0, q_head = 0, q_tail = 0\<rparr>"

definition queue_dequeue :: "kenv \<Rightarrow> queue \<Rightarrow> qheap \<Rightarrow> (ptr \<times> queue \<times> qheap) outcome" where
  "queue_dequeue env q h =
     obind (mutex_acquire env (q_lock q)) (\<lambda>m.
     obind (if q_head q \<noteq> 0 then
              deref h (q_head q) (\<lambda>i.
                let q1 = q\<lparr>q_head := qi_next i\<rparr> in
                Ret (qi_ent i, q_head q, if q_head q1 = 0 then q1\<lparr>q_tail := 0\<rparr> else q1))
            else Ret (0, 0, q)) (\<lambda>(ret, free, q).
     let q = q\<lparr>q_count := q_count q - 1\<rparr> in
     obind (mutex_release env m) (\<lambda>m.
     Ret (ret, q\<lparr>q_lock := m\<rparr>, if free \<noteq> 0 then h(free := None) else h))))"

definition queue_enqueue :: "kenv \<Rightarrow> ptr \<Rightarrow> queue \<Rightarrow> ptr \<Rightarrow> qheap \<Rightarrow> (queue \<times> qheap) outcome" where
  "queue_enqueue env i q ent h =
     obind (mutex_acquire env (q_lock q)) (\<lambda>m.
     let h = h(i \<mapsto> \<lparr>qi_ent = ent, qi_next = 0\<rparr>) in
     obind (if q_tail q \<noteq> 0 then
              hupd h (q_tail q) (\<lambda>c. c\<lparr>qi_next := i\<rparr>) (\<lambda>h. Ret (q\<lparr>q_tail := i\<rparr>, h))
            else oassert (q_head q = 0) (Ret (q\<lparr>q_head := i, q_tail := i\<rparr>, h))) (\<lambda>(q, h).
     let q = q\<lparr>q_count := q_count q + 1\<rparr> in
     obind (mutex_release env m) (\<lambda>m. Ret (q\<lparr>q_lock := m\<rparr>, h))))"

definition queue_peek :: "kenv \<Rightarrow> queue \<Rightarrow> qheap \<Rightarrow> (ptr \<times> queue) outcome" where
  "queue_peek env q h =
     obind (mutex_acquire env (q_lock q)) (\<lambda>m.
     obind (if q_head q \<noteq> 0 then deref h (q_head q) (\<lambda>i. Ret (qi_ent i)) else Ret 0) (\<lambda>ret.
     obind (mutex_release env m) (\<lambda>m. Ret (ret, q\<lparr>q_lock := m\<rparr>))))"

definition queue_destroy :: "kenv \<Rightarrow> queue \<Rightarrow> (queue \<times> bool) outcome" where
  "queue_destroy env q =
     obind (mutex_destroy env (q_lock q)) (\<lambda>(m, _).
     Ret (q\<lparr>q_lock := m\<rparr>, has_flag (q_flags q) QUEUE_ALLOC))"

section \<open>Refinement of a list\<close>

text \<open>The abstract queue: the addresses of the items with their entries, oldest first.\<close>

definition queue_rel :: "kenv \<Rightarrow> queue \<times> qheap \<Rightarrow> (ptr \<times> ptr) list \<Rightarrow> bool" where
  "queue_rel env s xs \<longleftrightarrow> (case s of (q, h) \<Rightarrow>
     env_ok env \<and> mutex_free (q_lock q) \<and>
     chain qi_next h (q_head q) (map fst xs) \<and> dom h = fst ` set xs \<and>
     q_tail q = (if xs = [] then 0 else fst (last xs)) \<and>
     q_count q = of_nat (length xs) \<and>
     entries_at qi_ent h xs)"

lemma queue_create_rel: "env_ok env \<Longrightarrow> queue_rel env (queue_create a f, Map.empty) []"
  by (simp add: queue_rel_def queue_create_def mutex_create_free)

lemma queue_rel_distinct: "queue_rel env (q, h) xs \<Longrightarrow> distinct (map fst xs)"
  by (auto simp: queue_rel_def dest: chain_distinct)

lemma queue_enqueue_rel:
  assumes "queue_rel env (q, h) xs" "i \<noteq> 0" "i \<notin> fst ` set xs"
  shows "\<exists>s'. queue_enqueue env i q e h = Ret s' \<and> queue_rel env s' (xs @ [(i, e)])"
proof (cases xs rule: rev_cases)
  case Nil
  with assms show ?thesis
    by (auto simp: queue_rel_def queue_enqueue_def lock_simps Let_def)
next
  case (snoc ys y)
  obtain n f where y: "y = (n, f)" by (cases y)
  have dist: "distinct (map fst xs)"
    using assms(1) by (rule queue_rel_distinct)
  obtain c where c: "h n = Some c" "qi_ent c = f" "n \<noteq> 0" "n \<noteq> i" "qi_next c = 0"
    "seg qi_next h (q_head q) (map fst ys) n"
    using assms snoc y by (auto simp: queue_rel_def chain_append)
  have "queue_enqueue env i q e h = Ret (q\<lparr>q_tail := i, q_count := q_count q + 1\<rparr>,
      (h(i \<mapsto> \<lparr>qi_ent = e, qi_next = 0\<rparr>))(n \<mapsto> c\<lparr>qi_next := i\<rparr>))"
    using assms snoc y c by (auto simp: queue_rel_def queue_enqueue_def lock_simps)
  moreover have "n \<notin> fst ` set ys" "i \<notin> fst ` set ys"
    using dist snoc y assms(3) by auto
  ultimately show ?thesis
    using assms snoc y c by (auto simp: queue_rel_def heap_simps)
qed

lemma queue_dequeue_rel:
  assumes "queue_rel env (q, h) ((n, e) # xs)"
  shows "\<exists>s'. queue_dequeue env q h = Ret (e, s') \<and> queue_rel env s' xs"
proof -
  obtain c where c: "h n = Some c" "qi_ent c = e" "n \<noteq> 0" "q_head q = n" "chain qi_next h (qi_next c) (map fst xs)"
    using assms by (auto simp: queue_rel_def)
  have "n \<notin> fst ` set xs"
    using queue_rel_distinct [OF assms] by simp
  moreover have "qi_next c = 0 \<longleftrightarrow> xs = []"
    using c(5) by (cases xs) auto
  ultimately show ?thesis
    using assms c by (auto simp: queue_rel_def queue_dequeue_def lock_simps heap_simps Let_def intro: rev_image_eqI)
qed

lemma queue_dequeue_empty:
  assumes "queue_rel env (q, h) []"
  shows "queue_dequeue env q h = Ret (0, q\<lparr>q_count := -1\<rparr>, h)"
  using assms by (cases q) (auto simp: queue_rel_def queue_dequeue_def lock_simps)

lemma queue_peek_rel:
  assumes "queue_rel env (q, h) xs"
  shows "queue_peek env q h = Ret (if xs = [] then 0 else snd (hd xs), q)"
  using assms by (cases xs; cases q) (auto simp: queue_rel_def queue_peek_def lock_simps)

datatype qop = Enq ptr ptr | Deq | Peek

text \<open>One call, with the pointer it returns (null for \<^verbatim>\<open>queue_enqueue\<close>).\<close>

fun queue_step :: "kenv \<Rightarrow> qop \<Rightarrow> queue \<times> qheap \<Rightarrow> (ptr \<times> queue \<times> qheap) outcome" where
  "queue_step env (Enq i e) (q, h) = obind (queue_enqueue env i q e h) (\<lambda>s. Ret (0, s))"
| "queue_step env Deq (q, h) = queue_dequeue env q h"
| "queue_step env Peek (q, h) = obind (queue_peek env q h) (\<lambda>(e, q). Ret (e, q, h))"

text \<open>The specification: a list; an enqueue needs a fresh address, a dequeue a non-empty queue.\<close>

fun fifo_step :: "qop \<Rightarrow> (ptr \<times> ptr) list \<Rightarrow> (ptr \<times> (ptr \<times> ptr) list) option" where
  "fifo_step (Enq i e) xs = (if i = 0 \<or> i \<in> fst ` set xs then None else Some (0, xs @ [(i, e)]))"
| "fifo_step Deq [] = None"
| "fifo_step Deq (x # xs) = Some (snd x, xs)"
| "fifo_step Peek xs = Some (if xs = [] then 0 else snd (hd xs), xs)"

interpretation qsim: simulation "queue_step env" fifo_step "queue_rel env" for env
proof unfold_locales
  fix s a x r a'
  assume rel: "queue_rel env s a" and step: "fifo_step x a = Some (r, a')"
  obtain q h where s: "s = (q, h)" by (cases s)
  show "\<exists>s'. queue_step env x s = Ret (r, s') \<and> queue_rel env s' a'"
  proof (cases x)
    case (Enq i e)
    with rel step s queue_enqueue_rel [of env q h a i e] show ?thesis
      by (auto split: if_splits)
  next
    case Deq
    then obtain n where "a = (n, r) # a'" using step by (cases a) auto
    with Deq rel s queue_dequeue_rel [of env q h n r a'] show ?thesis by simp
  next
    case Peek
    with rel step s queue_peek_rel [of env q h a] show ?thesis by auto
  qed
qed

section \<open>Properties\<close>



text \<open>Dequeueing from an empty queue corrupts its count.  \<^verbatim>\<open>queue_dequeue\<close> decrements \<^verbatim>\<open>q->count\<close> whether
  or not an item was removed: on an empty queue it returns null and leaves the count at minus one.\<close>

theorem queue_dequeue_empty_count:
  assumes "env_ok env"
  shows "\<exists>q. queue_dequeue env (queue_create a f) Map.empty = Ret (0, q, Map.empty) \<and> sint (q_count q) = -1"
  using queue_dequeue_empty [OF queue_create_rel [OF assms]] by (auto simp: queue_create_def)

theorem queue_dequeue_empty_count_witness:
  "\<exists>q. queue_dequeue (task_env 1) (queue_create False 0) Map.empty = Ret (0, q, Map.empty) \<and> sint (q_count q) = -1"
  by (rule queue_dequeue_empty_count) (simp add: env_ok_def task_env_def)

end
