(* ===== verification/Llist.thy ===== *)
theory Llist
  imports Rwlock
begin

text \<open>
  The doubly linked lists of \<^verbatim>\<open>library/klib/ll.c\<close> and \<^verbatim>\<open>include/sea/ll.h\<close>, on an explicit heap of
  \<^verbatim>\<open>struct llistnode\<close> cells.  The address of the list itself is the argument \<open>la\<close>; it is what
  \<^verbatim>\<open>node->memberof\<close> records.  Traversals take fuel; running out of it is \<open>Block\<close>, and the lemmas show
  that one more unit than the list has nodes is always enough.
\<close>

section \<open>Data\<close>

abbreviation LLISTNODE_MAGIC :: u32 where "LLISTNODE_MAGIC \<equiv> 0x77755533"
abbreviation LLIST_MAGIC :: u32 where "LLIST_MAGIC \<equiv> 0x33355577"
abbreviation LL_ACTIVE :: u8 where "LL_ACTIVE \<equiv> 1"
abbreviation LL_ALLOC :: u8 where "LL_ALLOC \<equiv> 2"
abbreviation LL_LOCKLESS :: u8 where "LL_LOCKLESS \<equiv> 4"

record llistnode =
  ln_magic :: u32
  ln_next :: ptr
  ln_prev :: ptr
  ln_entry :: ptr
  ln_memberof :: ptr

type_synonym lheap = "ptr \<rightharpoonup> llistnode"

record llist =
  ll_magic :: u32
  ll_head :: ptr
  ll_rwl :: rwlock
  ll_flags :: u8
  ll_num :: u32

abbreviation ll_is_active :: "llist \<Rightarrow> bool" where
  "ll_is_active l \<equiv> has_flag (ll_flags l) LL_ACTIVE"

definition zero_node :: llistnode where
  "zero_node = \<lparr>ln_magic = 0, ln_next = 0, ln_prev = 0, ln_entry = 0, ln_memberof = 0\<rparr>"

section \<open>Operations\<close>

text \<open>The guarded lock calls that open and close every operation.\<close>

definition ll_wlock :: "kenv \<Rightarrow> llist \<Rightarrow> bool \<Rightarrow> llist outcome" where
  "ll_wlock env l locked =
     (if \<not> has_flag (ll_flags l) LL_LOCKLESS \<and> \<not> locked then
        obind (rwlock_acquire env (ll_rwl l) RWL_WRITER) (\<lambda>k. Ret (l\<lparr>ll_rwl := k\<rparr>))
      else Ret l)"

definition ll_wunlock :: "kenv \<Rightarrow> llist \<Rightarrow> bool \<Rightarrow> llist outcome" where
  "ll_wunlock env l locked =
     (if \<not> has_flag (ll_flags l) LL_LOCKLESS \<and> \<not> locked then
        obind (rwlock_release env (ll_rwl l) RWL_WRITER) (\<lambda>k. Ret (l\<lparr>ll_rwl := k\<rparr>))
      else Ret l)"

definition ll_do_insert :: "kenv \<Rightarrow> ptr \<Rightarrow> llist \<Rightarrow> ptr \<Rightarrow> ptr \<Rightarrow> lheap \<Rightarrow> (llist \<times> lheap) outcome" where
  "ll_do_insert env la l n entry h =
     obind (ll_wlock env l False) (\<lambda>l.
     oassert (ll_magic l = LLIST_MAGIC)
     (obind (if ll_head l = 0 then hupd h n (\<lambda>c. c\<lparr>ln_next := 0, ln_prev := 0\<rparr>) Ret
             else hupd h n (\<lambda>c. c\<lparr>ln_next := ll_head l, ln_prev := 0\<rparr>) (\<lambda>h.
                  hupd h (ll_head l) (\<lambda>c. c\<lparr>ln_prev := n\<rparr>) Ret)) (\<lambda>h.
      let l = l\<lparr>ll_head := n\<rparr> in
      hupd h n (\<lambda>c. c\<lparr>ln_entry := entry, ln_memberof := la, ln_magic := LLISTNODE_MAGIC\<rparr>) (\<lambda>h.
      let l = l\<lparr>ll_num := ll_num l + 1\<rparr> in
      obind (ll_wunlock env l False) (\<lambda>l. Ret (l, h))))))"

definition ll_insert :: "kenv \<Rightarrow> ptr \<Rightarrow> llist \<Rightarrow> ptr \<Rightarrow> ptr \<Rightarrow> lheap \<Rightarrow> (llist \<times> lheap) outcome" where
  "ll_insert env la l n entry h =
     oassert (la \<noteq> 0 \<and> ll_is_active l)
       (ll_do_insert env la l n entry (h(n \<mapsto> zero_node)))"

text \<open>The node's neighbours are checked and then joined.\<close>

definition ll_check_magic :: "lheap \<Rightarrow> ptr \<Rightarrow> unit outcome" where
  "ll_check_magic h p =
     (if p \<noteq> 0 then deref h p (\<lambda>c. oassert (ln_magic c = LLISTNODE_MAGIC) (Ret ())) else Ret ())"

definition ll_unlink :: "lheap \<Rightarrow> ptr \<Rightarrow> lheap outcome" where
  "ll_unlink h node =
     deref h node (\<lambda>c.
     obind (ll_check_magic h (ln_prev c)) (\<lambda>_.
     obind (ll_check_magic h (ln_next c)) (\<lambda>_.
     obind (if ln_prev c \<noteq> 0 then hupd h (ln_prev c) (\<lambda>p. p\<lparr>ln_next := ln_next c\<rparr>) Ret else Ret h) (\<lambda>h.
     if ln_next c \<noteq> 0 then hupd h (ln_next c) (\<lambda>p. p\<lparr>ln_prev := ln_prev c\<rparr>) Ret else Ret h))))"

definition ll_detach :: "ptr \<Rightarrow> llist \<Rightarrow> ptr \<Rightarrow> lheap \<Rightarrow> (llist \<times> lheap) outcome" where
  "ll_detach la l node h =
     hupd h node (\<lambda>c. c\<lparr>ln_memberof := 0\<rparr>) (\<lambda>h.
     let l = l\<lparr>ll_num := ll_num l - 1\<rparr> in
     deref h node (\<lambda>c.
     obind (if ll_head l = node then
              (if ln_next c = 0 then Ret (l\<lparr>ll_head := 0\<rparr>, h)
               else let l = l\<lparr>ll_head := ln_next c\<rparr> in
                 obind (ll_check_magic h (ln_next c)) (\<lambda>_.
                 obind (ll_unlink h node) (\<lambda>h. Ret (l, h))))
            else obind (ll_unlink h node) (\<lambda>h. Ret (l, h))) (\<lambda>(l, h).
     hupd h node (\<lambda>c. c\<lparr>ln_next := 0, ln_prev := 0\<rparr>) (\<lambda>h. Ret (l, h)))))"

definition ll_do_remove :: "kenv \<Rightarrow> ptr \<Rightarrow> llist \<Rightarrow> ptr \<Rightarrow> bool \<Rightarrow> lheap \<Rightarrow> (ptr \<times> llist \<times> lheap) outcome" where
  "ll_do_remove env la l node locked h =
     oassert (la \<noteq> 0 \<and> node \<noteq> 0 \<and> ll_is_active l)
     (obind (ll_wlock env l locked) (\<lambda>l.
      oassert (ll_magic l = LLIST_MAGIC)
      (deref h node (\<lambda>c. oassert (ln_magic c = LLISTNODE_MAGIC)
       (obind (if ln_memberof c = la then ll_detach la l node h else Ret (l, h)) (\<lambda>(l, h).
        obind (ll_wunlock env l locked) (\<lambda>l. Ret (node, l, h))))))))"

definition ll_remove :: "kenv \<Rightarrow> ptr \<Rightarrow> llist \<Rightarrow> ptr \<Rightarrow> lheap \<Rightarrow> (llist \<times> lheap) outcome" where
  "ll_remove env la l node h =
     obind (ll_do_remove env la l node False h) (\<lambda>(n, l, h). Ret (l, h(n := None)))"

text \<open>The search loop of \<^verbatim>\<open>ll_remove_entry\<close>: \<^verbatim>\<open>ll_for_each_entry_safe\<close> also stops at a null entry.\<close>

fun ll_search :: "nat \<Rightarrow> lheap \<Rightarrow> ptr \<Rightarrow> ptr \<Rightarrow> ptr outcome" where
  "ll_search 0 h cur search = Block"
| "ll_search (Suc fuel) h cur search =
     (if cur = 0 then Ret 0
      else deref h cur (\<lambda>c.
        if ln_entry c = 0 then Ret 0
        else if ln_entry c = search then Ret cur
        else ll_search fuel h (ln_next c) search))"

definition ll_remove_entry :: "nat \<Rightarrow> kenv \<Rightarrow> ptr \<Rightarrow> llist \<Rightarrow> ptr \<Rightarrow> lheap \<Rightarrow> (llist \<times> lheap) outcome" where
  "ll_remove_entry fuel env la l search h =
     obind (ll_wlock env l False) (\<lambda>l.
     oassert (ll_magic l = LLIST_MAGIC)
     (obind (ll_search fuel h (ll_head l) search) (\<lambda>cur.
      obind (if cur \<noteq> 0 then
               obind (ll_do_remove env la l cur True h) (\<lambda>(n, l, h). Ret (l, h(n := None)))
             else Ret (l, h)) (\<lambda>(l, h).
      obind (ll_wunlock env l False) (\<lambda>l. Ret (l, h))))))"

definition ll_do_create :: "bool \<Rightarrow> u8 \<Rightarrow> llist" where
  "ll_do_create alloc flags =
     (let l = \<lparr>ll_magic = 0, ll_head = 0, ll_rwl = rwlock_create False, ll_flags = 0, ll_num = 0\<rparr>;
          l = (if alloc then l\<lparr>ll_flags := ll_flags l OR LL_ALLOC\<rparr> else l)
      in l\<lparr>ll_rwl := rwlock_create False, ll_head := 0, ll_num := 0, ll_magic := LLIST_MAGIC,
           ll_flags := ll_flags l OR (LL_ACTIVE OR flags)\<rparr>)"

definition ll_destroy :: "kenv \<Rightarrow> ptr \<Rightarrow> llist \<Rightarrow> (llist \<times> bool) outcome" where
  "ll_destroy env la l =
     oassert (la \<noteq> 0 \<and> ll_head l = 0)
     (if \<not> ll_is_active l then Ret (l, False)
      else obind (ll_wlock env l False) (\<lambda>l.
        let l = l\<lparr>ll_flags := ll_flags l AND NOT LL_ACTIVE\<rparr> in
        obind (ll_wunlock env l False) (\<lambda>l.
        obind (rwlock_destroy env (ll_rwl l)) (\<lambda>(k, _).
        Ret (l\<lparr>ll_rwl := k\<rparr>, has_flag (ll_flags l) LL_ALLOC)))))"

definition ll_remove_head :: "kenv \<Rightarrow> ptr \<Rightarrow> llist \<Rightarrow> lheap \<Rightarrow> (ptr \<times> llist \<times> lheap) outcome" where
  "ll_remove_head env la l h =
     obind (ll_wlock env l False) (\<lambda>l.
     if ll_num l = 0 then obind (ll_wunlock env l False) (\<lambda>l. Ret (0, l, h))
     else oassert (ll_magic l = LLIST_MAGIC) (oassert (ll_head l \<noteq> 0)
      (deref h (ll_head l) (\<lambda>c.
       obind (if ln_entry c \<noteq> 0 then
                obind (ll_do_remove env la l (ll_head l) True h) (\<lambda>(n, l, h). Ret (l, h(n := None)))
              else Ret (l, h)) (\<lambda>(l, h).
       obind (ll_wunlock env l False) (\<lambda>l. Ret (ln_entry c, l, h)))))))"

text \<open>\<^verbatim>\<open>ll_for_each_entry\<close>: the nodes and entries a client's loop visits, up to the first null entry.\<close>

fun ll_for_each_entry :: "nat \<Rightarrow> lheap \<Rightarrow> ptr \<Rightarrow> (ptr \<times> ptr) list outcome" where
  "ll_for_each_entry 0 h cur = Block"
| "ll_for_each_entry (Suc fuel) h cur =
     (if cur = 0 then Ret []
      else deref h cur (\<lambda>c.
        if ln_entry c = 0 then Ret []
        else obind (ll_for_each_entry fuel h (ln_next c)) (\<lambda>xs. Ret ((cur, ln_entry c) # xs))))"

section \<open>The list a structure represents\<close>

text \<open>
  \<open>ll_inv la l h xs\<close>: the structure at \<open>la\<close> holds the nodes and entries \<open>xs\<close>, in order; the nodes are
  linked in both directions, exactly they are its members, and the count is their number.
\<close>

definition ll_inv :: "ptr \<Rightarrow> llist \<Rightarrow> lheap \<Rightarrow> (ptr \<times> ptr) list \<Rightarrow> bool" where
  "ll_inv la l h xs \<longleftrightarrow>
     la \<noteq> 0 \<and> ll_magic l = LLIST_MAGIC \<and> ll_is_active l \<and> ll_num l = of_nat (length xs) \<and>
     (\<exists>b. dseg ln_next ln_prev h (ll_head l) 0 (map fst xs) 0 b) \<and> entries_at ln_entry h xs \<and>
     (\<forall>n c. h n = Some c \<longrightarrow> (ln_memberof c = la \<longleftrightarrow> n \<in> fst ` set xs)) \<and>
     (\<forall>n \<in> fst ` set xs. \<forall>c. h n = Some c \<longrightarrow> ln_magic c = LLISTNODE_MAGIC)"

lemma ll_inv_distinct: "ll_inv la l h xs \<Longrightarrow> distinct (map fst xs)"
  by (auto simp: ll_inv_def dest: dseg_distinct)

lemma ll_inv_nonnull: "ll_inv la l h xs \<Longrightarrow> n \<in> fst ` set xs \<Longrightarrow> n \<noteq> 0 \<and> n \<in> dom h"
  using dseg_dom by (fastforce simp: ll_inv_def)

lemma ll_inv_head: "ll_inv la l h xs \<Longrightarrow> ll_head l = (if xs = [] then 0 else fst (hd xs))"
  by (cases xs) (auto simp: ll_inv_def)

lemma ll_inv_rwl [simp]: "ll_inv la (l\<lparr>ll_rwl := k\<rparr>) h xs = ll_inv la l h xs"
  by (simp add: ll_inv_def)

lemma ll_inv_member:
  "ll_inv la l h xs \<Longrightarrow> h m = Some c \<Longrightarrow>
     (ln_memberof c = la \<longleftrightarrow> m \<in> fst ` set xs) \<and> (m \<in> fst ` set xs \<longrightarrow> ln_magic c = LLISTNODE_MAGIC)"
  by (auto simp: ll_inv_def)

text \<open>Cells outside the list may change, as long as they do not become members.\<close>

lemma ll_inv_upd:
  assumes "ll_inv la l h xs" "n \<notin> fst ` set xs" "\<And>c. v = Some c \<Longrightarrow> ln_memberof c \<noteq> la"
  shows "ll_inv la l (h(n := v)) xs"
  using assms by (auto simp: ll_inv_def heap_simps)

lemma ll_create_inv:
  "la \<noteq> 0 \<Longrightarrow> \<forall>c \<in> ran h. ln_memberof c \<noteq> la \<Longrightarrow> ll_inv la (ll_do_create a f) h []"
  by (auto simp: ll_inv_def ll_do_create_def Let_def and_one_eq mod2_eq_if even_or_iff ran_def)

lemma ll_create_free: "rw_free (ll_rwl (ll_do_create a f))"
  by (simp add: ll_do_create_def rwlock_create_def rw_free_def Let_def)

lemma ll_insert_chain:
  assumes "ll_inv la l h xs" "n \<noteq> 0" "n \<notin> fst ` set xs" "h n = Some c0"
  shows "\<exists>h'. (if ll_head l = 0 then hupd h n (\<lambda>c. c\<lparr>ln_next := 0, ln_prev := 0\<rparr>) Ret
             else hupd h n (\<lambda>c. c\<lparr>ln_next := ll_head l, ln_prev := 0\<rparr>) (\<lambda>h.
                  hupd h (ll_head l) (\<lambda>c. c\<lparr>ln_prev := n\<rparr>) Ret)) = Ret h' \<and>
     h' n = Some (c0\<lparr>ln_next := ll_head l, ln_prev := 0\<rparr>) \<and> dom h' = dom h \<and>
     ll_inv la (l\<lparr>ll_head := n, ll_num := ll_num l + 1\<rparr>)
       (h'(n \<mapsto> c0\<lparr>ln_next := ll_head l, ln_prev := 0, ln_entry := e, ln_memberof := la, ln_magic := LLISTNODE_MAGIC\<rparr>))
       ((n, e) # xs)"
proof (cases xs)
  case Nil
  with assms show ?thesis by (auto simp: ll_inv_def)
next
  case (Cons y ys)
  obtain m f where y: "y = (m, f)" by (cases y)
  have "m \<notin> fst ` set ys" using ll_inv_distinct [OF assms(1)] Cons y by simp
  moreover obtain c where "h m = Some c" "ll_head l = m" "m \<noteq> 0"
    using assms(1) Cons y by (auto simp: ll_inv_def)
  ultimately show ?thesis
    using assms Cons y by (auto simp: ll_inv_def heap_simps)
qed

text \<open>Unlinking a node joins its neighbours; the cells change in their link fields only.\<close>

definition payload :: "llistnode \<Rightarrow> u32 \<times> ptr \<times> ptr" where
  "payload c = (ln_magic c, ln_entry c, ln_memberof c)"

definition links_only :: "lheap \<Rightarrow> lheap \<Rightarrow> bool" where
  "links_only h h' \<longleftrightarrow> (\<forall>m. map_option payload (h' m) = map_option payload (h m))"

lemma links_only_upd:
  "links_only h h' \<Longrightarrow> h' m = Some d \<Longrightarrow> payload d' = payload d \<Longrightarrow> links_only h (h'(m \<mapsto> d'))"
  by (auto simp: links_only_def) (metis option.map(2))

lemma links_only_Some:
  assumes "links_only h h'" "h' m = Some d"
  obtains c where "h m = Some c" "payload c = payload d"
  using assms unfolding links_only_def by (metis map_option_eq_Some)

lemma links_only_sym: "links_only h h' \<Longrightarrow> links_only h' h"
  by (simp add: links_only_def)

lemma links_only_dom: "links_only h h' \<Longrightarrow> dom h' = dom h"
  unfolding links_only_def dom_def by (metis (mono_tags, lifting) map_option_is_None)

lemma entries_at_links:
  assumes "links_only h h'" "entries_at ln_entry h xs"
  shows "entries_at ln_entry h' xs"
  unfolding entries_at_def
proof
  fix x
  assume "x \<in> set xs"
  then obtain c where "h (fst x) = Some c" "ln_entry c = snd x"
    using assms(2) by (auto simp: entries_at_def)
  moreover obtain d where "h' (fst x) = Some d" "payload d = payload c"
    using links_only_Some [OF links_only_sym [OF assms(1)] \<open>h (fst x) = Some c\<close>] by metis
  ultimately show "\<exists>d. h' (fst x) = Some d \<and> ln_entry d = snd x"
    by (auto simp: payload_def)
qed

definition link_prev :: "lheap \<Rightarrow> llistnode \<Rightarrow> lheap" where
  "link_prev h c = (if ln_prev c = 0 then h
     else h(ln_prev c \<mapsto> (the (h (ln_prev c)))\<lparr>ln_next := ln_next c\<rparr>))"

definition link_next :: "lheap \<Rightarrow> llistnode \<Rightarrow> lheap" where
  "link_next h c = (if ln_next c = 0 then h
     else h(ln_next c \<mapsto> (the (h (ln_next c)))\<lparr>ln_prev := ln_prev c\<rparr>))"

definition ll_neighbour :: "lheap \<Rightarrow> ptr \<Rightarrow> bool" where
  "ll_neighbour h p \<longleftrightarrow> p = 0 \<or> (\<exists>c. h p = Some c \<and> ln_magic c = LLISTNODE_MAGIC)"

lemma ll_unlink_eq:
  assumes "h n = Some c" "ll_neighbour h (ln_prev c)" "ll_neighbour h (ln_next c)"
  shows "ll_unlink h n = Ret (link_next (link_prev h c) c)"
proof -
  have "ll_check_magic h (ln_prev c) = Ret ()" "ll_check_magic h (ln_next c) = Ret ()"
    using assms(2,3) by (auto simp: ll_neighbour_def ll_check_magic_def)
  moreover have "(if ln_prev c \<noteq> 0 then hupd h (ln_prev c) (\<lambda>p. p\<lparr>ln_next := ln_next c\<rparr>) Ret else Ret h) = Ret (link_prev h c)"
    using assms(2) by (auto simp: ll_neighbour_def link_prev_def)
  moreover have "ln_next c = 0 \<or> (\<exists>d. link_prev h c (ln_next c) = Some d)"
    using assms(2,3) by (auto simp: ll_neighbour_def link_prev_def)
  ultimately show ?thesis
    using assms(1) by (auto simp: ll_unlink_def link_next_def)
qed

lemma link_links_only:
  assumes "ll_neighbour h (ln_prev c)" "ll_neighbour h (ln_next c)"
  shows "links_only h (link_next (link_prev h c) c)"
proof -
  have "links_only h (link_prev h c)"
    using assms(1) by (auto simp: link_prev_def links_only_def ll_neighbour_def payload_def)
  moreover have "ln_next c = 0 \<or> (\<exists>d. link_prev h c (ln_next c) = Some d)"
    using assms by (auto simp: ll_neighbour_def link_prev_def)
  ultimately show ?thesis
    by (auto simp: link_next_def payload_def intro!: links_only_upd)
qed

lemma dseg_link:
  assumes "dseg ln_next ln_prev h p 0 (us @ n # vs) 0 b" "h n = Some c" "distinct (us @ n # vs)"
  shows "\<exists>b'. dseg ln_next ln_prev (link_next (link_prev h c) c) (if us = [] then ln_next c else p) 0 (us @ vs) 0 b'"
proof -
  obtain r where us: "dseg ln_next ln_prev h p 0 us n r" and c: "ln_prev c = r"
    and vs: "dseg ln_next ln_prev h (ln_next c) n vs 0 b"
    using assms(1,2) by (auto simp: dseg_append)
  have pre: "dseg ln_next ln_prev (link_prev h c) (if us = [] then ln_next c else p) 0 us (ln_next c) (ln_prev c)"
  proof (cases us rule: rev_cases)
    case Nil
    with us c show ?thesis by simp
  next
    case (snoc ts u)
    then have "ln_prev c = u" using us c dseg_last by fastforce
    with snoc us assms(3) show ?thesis by (auto simp: heap_simps link_prev_def)
  qed
  have "dseg ln_next ln_prev (link_prev h c) (ln_next c) n vs 0 b"
  proof (cases "us = []")
    case True
    with us c vs show ?thesis by (simp add: link_prev_def)
  next
    case False
    then have "ln_prev c \<in> set us" using us c dseg_last by fastforce
    then have "ln_prev c \<notin> set vs" using assms(3) by auto
    with vs show ?thesis by (simp add: link_prev_def dseg_upd)
  qed
  then show ?thesis
  proof (cases vs)
    case Nil
    with vs pre show ?thesis by (auto simp: link_next_def dseg_append)
  next
    case (Cons v ws)
    with vs have v: "ln_next c = v" "v \<noteq> 0" by auto
    have "v \<notin> set us" "v \<notin> set ws" using Cons assms(3) by auto
    with pre v Cons \<open>dseg ln_next ln_prev (link_prev h c) (ln_next c) n vs 0 b\<close> show ?thesis
      by (auto simp: link_next_def heap_simps)
  qed
qed

text \<open>What a member's cell looks like, and what is left once it is detached.\<close>

lemma ll_inv_cell:
  assumes "ll_inv la l h (us @ (n, e) # vs)"
  obtains c where "h n = Some c" "ln_magic c = LLISTNODE_MAGIC" "ln_memberof c = la" "ln_entry c = e"
    "ll_neighbour h (ln_prev c)" "ll_neighbour h (ln_next c)" "ln_prev c \<noteq> n" "ln_next c \<noteq> n"
    "n \<noteq> 0" "ll_head l = n \<longleftrightarrow> us = []" "ln_next c = 0 \<longleftrightarrow> vs = []" "us = [] \<longrightarrow> ln_prev c = 0"
proof -
  let ?ns = "map fst us @ n # map fst vs"
  obtain b where d: "dseg ln_next ln_prev h (ll_head l) 0 ?ns 0 b"
    using assms by (auto simp: ll_inv_def)
  then obtain r c where c: "h n = Some c" "dseg ln_next ln_prev h (ll_head l) 0 (map fst us) n r"
      "ln_prev c = r" "dseg ln_next ln_prev h (ln_next c) n (map fst vs) 0 b" "n \<noteq> 0"
    by (auto simp: dseg_append)
  have dist: "distinct ?ns" using ll_inv_distinct [OF assms] by simp
  have r: "ln_prev c = last (0 # map fst us)" using dseg_last [OF c(2)] c(3) by simp
  have mem: "ln_magic d = LLISTNODE_MAGIC" "ln_memberof d = la" if "m \<in> set ?ns" "h m = Some d" for m d
    using assms that by (auto simp: ll_inv_def)
  have nb: "ll_neighbour h m" if "m \<in> insert 0 (set ?ns)" for m
  proof (cases "m = 0")
    case False
    with that have "m \<in> set ?ns" by simp
    with dseg_dom [OF d] obtain d where "h m = Some d" by blast
    with mem \<open>m \<in> set ?ns\<close> show ?thesis by (auto simp: ll_neighbour_def)
  qed (simp add: ll_neighbour_def)
  have rin: "ln_prev c \<in> insert 0 (fst ` set us)"
    using r last_in_set [of "map fst us"] by (cases "us = []") auto
  have vin: "ln_next c \<in> insert 0 (fst ` set vs)" "ln_next c = 0 \<longleftrightarrow> vs = []"
    using c(4) by (cases vs; simp)+
  have hd: "ll_head l = n \<longleftrightarrow> us = []"
    using c(2) dist by (cases us) auto
  show ?thesis
  proof (rule that [OF c(1)])
    show "ln_magic c = LLISTNODE_MAGIC" "ln_memberof c = la" using mem [OF _ c(1)] by simp_all
    show "ln_entry c = e" using assms c(1) by (simp add: ll_inv_def)
    show "ll_neighbour h (ln_prev c)" using nb rin by auto
    show "ll_neighbour h (ln_next c)" using nb vin by auto
    show "ln_prev c \<noteq> n" using rin dist c(5) by auto
    show "ln_next c \<noteq> n" using vin dist c(5) by auto
    show "us = [] \<longrightarrow> ln_prev c = 0" using r by simp
  qed (use c(5) hd vin in simp_all)
qed

lemma ll_detach_inv:
  assumes "ll_inv la l h (us @ (n, e) # vs)"
  shows "\<exists>l' h' c. ll_detach la l n h = Ret (l', h') \<and> ll_inv la l' h' (us @ vs) \<and>
     ll_rwl l' = ll_rwl l \<and> ll_flags l' = ll_flags l \<and> h' n = Some c \<and> ln_memberof c = 0 \<and> dom h' = dom h"
proof -
  obtain c where c: "h n = Some c" "ln_magic c = LLISTNODE_MAGIC" "ln_memberof c = la" "ln_entry c = e"
    "ll_neighbour h (ln_prev c)" "ll_neighbour h (ln_next c)" "ln_prev c \<noteq> n" "ln_next c \<noteq> n"
    "n \<noteq> 0" "ll_head l = n \<longleftrightarrow> us = []" "ln_next c = 0 \<longleftrightarrow> vs = []" "us = [] \<longrightarrow> ln_prev c = 0"
    using ll_inv_cell [OF assms] .
  let ?ns = "map fst us @ n # map fst vs"
  have dist: "distinct ?ns" using ll_inv_distinct [OF assms] by simp
  define c1 where "c1 = c\<lparr>ln_memberof := 0\<rparr>"
  have c1: "ln_next c1 = ln_next c" "ln_prev c1 = ln_prev c" by (simp_all add: c1_def)
  define h1 where "h1 = h(n \<mapsto> c1)"
  have h1n: "h1 n = Some c1" by (simp add: h1_def)
  define h2 where "h2 = link_next (link_prev h1 c1) c1"
  have nb: "ll_neighbour h1 (ln_prev c1)" "ll_neighbour h1 (ln_next c1)"
    using c by (auto simp: h1_def c1_def ll_neighbour_def)
  obtain b where "dseg ln_next ln_prev h1 (ll_head l) 0 ?ns 0 b"
  proof -
    obtain b where "dseg ln_next ln_prev h (ll_head l) 0 ?ns 0 b"
      using assms by (auto simp: ll_inv_def)
    then have "dseg ln_next ln_prev h1 (ll_head l) 0 ?ns 0 b"
      by (rule dseg_cong [rotated]) (simp add: h1_def c1_def c(1))
    then show ?thesis by (rule that)
  qed
  then obtain b' where d2: "dseg ln_next ln_prev h2 (if us = [] then ln_next c else ll_head l) 0 (map fst (us @ vs)) 0 b'"
    using dseg_link [of h1 "ll_head l" "map fst us" n "map fst vs" b c1] dist h1n
    unfolding h2_def c1(1) by auto
  have lo: "links_only h1 h2" unfolding h2_def using nb by (rule link_links_only)
  have h2n: "h2 n = Some c1" using c(7,8) by (simp add: h2_def h1_def c1_def link_next_def link_prev_def)
  define l' where "l' = l\<lparr>ll_num := ll_num l - 1, ll_head := (if us = [] then ln_next c else ll_head l)\<rparr>"
  define h' where "h' = h2(n \<mapsto> c1\<lparr>ln_next := 0, ln_prev := 0\<rparr>)"
  have unl: "ll_unlink h1 n = Ret h2"
    using ll_unlink_eq [of h1 n c1] nb by (simp add: h1_def h2_def)
  have chk: "ll_check_magic h1 (ln_next c) = Ret ()"
    using nb(2) c1 by (auto simp: ll_neighbour_def ll_check_magic_def)
  have same: "h2 = h1" if "us = []" "vs = []"
    using that c(11,12) c1 by (simp add: h2_def link_next_def link_prev_def)
  have "ll_detach la l n h = Ret (l', h')"
    unfolding ll_detach_def hupd_Some [of h n, OF c(1)] Let_def
    unfolding c1_def [symmetric] h1_def [symmetric]
    using h1n h2n unl chk same c(10,11) c1
    by (cases "us = []"; cases "vs = []") (simp_all add: l'_def h'_def)
  moreover have "ll_inv la l' h' (us @ vs)"
  proof -
    have notin: "n \<notin> fst ` set (us @ vs)" using dist by auto
    have "entries_at ln_entry h (us @ vs)" using assms by (simp add: ll_inv_def)
    then have "entries_at ln_entry h1 (us @ vs)"
      unfolding h1_def by (subst entries_at_upd [OF notin])
    then have ent: "entries_at ln_entry h' (us @ vs)"
      unfolding h'_def by (subst entries_at_upd [OF notin]) (rule entries_at_links [OF lo])
    have mem: "(ln_memberof d = la \<longleftrightarrow> m \<in> fst ` set (us @ vs)) \<and>
        (m \<in> fst ` set (us @ vs) \<longrightarrow> ln_magic d = LLISTNODE_MAGIC)" if "h' m = Some d" for m d
    proof (cases "m = n")
      case True
      with that notin c1_def assms show ?thesis by (auto simp: h'_def ll_inv_def)
    next
      case False
      with that have "h2 m = Some d" by (simp add: h'_def)
      with lo obtain d1 where d1: "h1 m = Some d1" "payload d1 = payload d" by (rule links_only_Some)
      then have "h m = Some d1" using False by (simp add: h1_def)
      then have "(ln_memberof d1 = la \<longleftrightarrow> m \<in> fst ` set (us @ vs)) \<and>
          (m \<in> fst ` set (us @ vs) \<longrightarrow> ln_magic d1 = LLISTNODE_MAGIC)"
        using ll_inv_member [OF assms] False by simp
      with d1(2) show ?thesis by (simp add: payload_def)
    qed
    have "dseg ln_next ln_prev h' (ll_head l') 0 (map fst (us @ vs)) 0 b'"
      unfolding h'_def by (subst dseg_upd) (use d2 notin in \<open>simp_all add: l'_def image_Un\<close>)
    with ent mem assms show ?thesis by (auto simp: ll_inv_def l'_def)
  qed
  moreover have "dom h' = dom h"
    using links_only_dom [OF lo] c(1) by (auto simp: h'_def h1_def)
  ultimately show ?thesis
    by (simp add: l'_def h'_def c1_def)
qed

subsection \<open>The operations on the represented list\<close>

definition ll_rel :: "kenv \<Rightarrow> ptr \<Rightarrow> llist \<times> lheap \<Rightarrow> (ptr \<times> ptr) list \<Rightarrow> bool" where
  "ll_rel env la s xs \<longleftrightarrow> env_ok env \<and> rw_free (ll_rwl (fst s)) \<and> ll_inv la (fst s) (snd s) xs"

definition ll_lock_held :: "llist \<Rightarrow> bool \<Rightarrow> llist" where
  "ll_lock_held l locked =
     (if \<not> has_flag (ll_flags l) LL_LOCKLESS \<and> \<not> locked then l\<lparr>ll_rwl := (ll_rwl l)\<lparr>rw_locks := 1\<rparr>\<rparr> else l)"

lemma ll_wlock_free [lock_simps]:
  "env_ok env \<Longrightarrow> rw_free (ll_rwl l) \<Longrightarrow> ll_wlock env l locked = Ret (ll_lock_held l locked)"
  by (simp add: ll_wlock_def ll_lock_held_def lock_simps)

lemma ll_wunlock_held [lock_simps]:
  assumes "env_ok env" "rw_free k" "ll_rwl l' = ll_rwl (ll_lock_held (l\<lparr>ll_rwl := k\<rparr>) locked)" "ll_flags l' = ll_flags l"
  shows "ll_wunlock env l' locked = Ret (l'\<lparr>ll_rwl := k\<rparr>)"
  using assms by (cases l') (auto simp: ll_wunlock_def ll_lock_held_def lock_simps)

lemma ll_lock_held_inv [simp]: "ll_inv la (ll_lock_held l locked) h xs = ll_inv la l h xs"
  by (simp add: ll_lock_held_def)

lemma ll_lock_held_fields [simp]:
  "ll_magic (ll_lock_held l k) = ll_magic l" "ll_head (ll_lock_held l k) = ll_head l"
  "ll_flags (ll_lock_held l k) = ll_flags l" "ll_num (ll_lock_held l k) = ll_num l"
  "ll_lock_held l True = l"
  by (simp_all add: ll_lock_held_def)

lemma ll_do_insert_rel:
  assumes "ll_rel env la (l, h) xs" "n \<noteq> 0" "n \<notin> fst ` set xs" "h n = Some c0"
  shows "\<exists>s'. ll_do_insert env la l n e h = Ret s' \<and> ll_rel env la s' ((n, e) # xs) \<and>
     dom (snd s') = dom h \<and> ll_head (fst s') = n"
proof -
  let ?l = "ll_lock_held l False"
  have ok: "env_ok env" "rw_free (ll_rwl l)" and inv: "ll_inv la ?l h xs"
    using assms(1) by (simp_all add: ll_rel_def)
  obtain h' where h': "(if ll_head ?l = 0 then hupd h n (\<lambda>c. c\<lparr>ln_next := 0, ln_prev := 0\<rparr>) Ret
             else hupd h n (\<lambda>c. c\<lparr>ln_next := ll_head ?l, ln_prev := 0\<rparr>) (\<lambda>h.
                  hupd h (ll_head ?l) (\<lambda>c. c\<lparr>ln_prev := n\<rparr>) Ret)) = Ret h'"
    "h' n = Some (c0\<lparr>ln_next := ll_head ?l, ln_prev := 0\<rparr>)" "dom h' = dom h"
    "ll_inv la (?l\<lparr>ll_head := n, ll_num := ll_num ?l + 1\<rparr>)
       (h'(n \<mapsto> c0\<lparr>ln_next := ll_head ?l, ln_prev := 0, ln_entry := e, ln_memberof := la, ln_magic := LLISTNODE_MAGIC\<rparr>))
       ((n, e) # xs)"
    using ll_insert_chain [OF inv assms(2-4)] by blast
  have "ll_magic ?l = LLIST_MAGIC" using inv by (simp add: ll_inv_def)
  then have "ll_do_insert env la l n e h =
      Ret (?l\<lparr>ll_head := n, ll_num := ll_num ?l + 1, ll_rwl := ll_rwl l\<rparr>,
        h'(n \<mapsto> c0\<lparr>ln_next := ll_head ?l, ln_prev := 0, ln_entry := e, ln_memberof := la, ln_magic := LLISTNODE_MAGIC\<rparr>))"
    unfolding ll_do_insert_def using ok h'(1,2) ll_wunlock_held [OF ok, where l = l]
    by (simp add: ll_wlock_free)
  with h'(2-4) ok show ?thesis by (auto simp: ll_rel_def ll_inv_def)
qed

lemma ll_insert_rel:
  assumes "ll_rel env la (l, h) xs" "n \<noteq> 0" "n \<notin> fst ` set xs"
  shows "\<exists>s'. ll_insert env la l n e h = Ret s' \<and> ll_rel env la s' ((n, e) # xs)"
proof -
  have "ll_rel env la (l, h(n \<mapsto> zero_node)) xs"
    using assms ll_inv_upd [of la l h xs n "Some zero_node"]
    by (auto simp: ll_rel_def zero_node_def ll_inv_def)
  with assms show ?thesis
    using ll_do_insert_rel [of env la l "h(n \<mapsto> zero_node)" xs n zero_node e]
    by (auto simp: ll_insert_def ll_rel_def ll_inv_def)
qed

lemma ll_do_remove_inv:
  assumes "ll_inv la l h (us @ (n, e) # vs)" "locked \<or> env_ok env \<and> rw_free (ll_rwl l)"
  shows "\<exists>l' h'. ll_do_remove env la l n locked h = Ret (n, l', h') \<and> ll_inv la l' (h'(n := None)) (us @ vs) \<and>
     ll_rwl l' = ll_rwl l \<and> ll_flags l' = ll_flags l \<and> ll_inv la l' h' (us @ vs) \<and> dom h' = dom h"
proof -
  let ?l = "ll_lock_held l locked"
  have inv: "ll_inv la ?l h (us @ (n, e) # vs)" using assms(1) by simp
  obtain l' h' where d: "ll_detach la ?l n h = Ret (l', h')" "ll_inv la l' h' (us @ vs)" "ll_rwl l' = ll_rwl ?l" "ll_flags l' = ll_flags ?l" "dom h' = dom h"
    using ll_detach_inv [OF inv] by blast
  obtain c where c: "h n = Some c" "n \<noteq> 0" "ln_memberof c = la" "ln_magic c = LLISTNODE_MAGIC"
    using ll_inv_nonnull [OF inv, of n] ll_inv_member [OF inv, of n] by auto
  have f: "la \<noteq> 0" "ll_is_active l" "ll_magic l = LLIST_MAGIC"
    using inv by (simp_all add: ll_inv_def)
  have lk: "ll_wlock env l locked = Ret ?l" "ll_wunlock env l' locked = Ret (l'\<lparr>ll_rwl := ll_rwl l\<rparr>)"
  proof -
    show "ll_wlock env l locked = Ret ?l"
      using assms(2) by (cases locked) (simp add: ll_wlock_def, simp add: ll_wlock_free)
    show "ll_wunlock env l' locked = Ret (l'\<lparr>ll_rwl := ll_rwl l\<rparr>)"
    proof (cases locked)
      case True
      then have "ll_rwl l' = ll_rwl l" using d(3) by simp
      then show ?thesis using True by (cases l') (simp add: ll_wunlock_def)
    next
      case False
      with assms(2) d(3,4) show ?thesis by (intro ll_wunlock_held) simp_all
    qed
  qed
  have "ll_do_remove env la l n locked h = Ret (n, l'\<lparr>ll_rwl := ll_rwl l\<rparr>, h')"
    using c f d(1) lk by (simp add: ll_do_remove_def)
  moreover have "ll_inv la l' (h'(n := None)) (us @ vs)"
    by (rule ll_inv_upd [OF d(2)]) (use ll_inv_distinct [OF inv] in auto)
  ultimately show ?thesis using d by simp
qed

lemma ll_remove_rel:
  assumes "ll_rel env la (l, h) (us @ (n, e) # vs)"
  shows "\<exists>s'. ll_remove env la l n h = Ret s' \<and> ll_rel env la s' (us @ vs)"
  using assms ll_do_remove_inv [of la l h us n e vs False env]
  by (auto simp: ll_remove_def ll_rel_def)

text \<open>The search finds the first node with the entry, and one unit of fuel more than nodes is enough.\<close>

definition first_with :: "ptr \<Rightarrow> (ptr \<times> ptr) list \<Rightarrow> ptr" where
  "first_with e xs = (case filter (\<lambda>x. snd x = e) xs of [] \<Rightarrow> 0 | x # _ \<Rightarrow> fst x)"

lemma ll_search_first:
  "dseg ln_next ln_prev h p a (map fst xs) 0 b \<Longrightarrow> entries_at ln_entry h xs \<Longrightarrow> 0 \<notin> snd ` set xs \<Longrightarrow>
     length xs < fuel \<Longrightarrow> ll_search fuel h p e = Ret (first_with e xs)"
proof (induction xs arbitrary: fuel p a)
  case Nil
  then show ?case by (cases fuel) (auto simp: first_with_def)
next
  case (Cons x xs)
  then obtain f where "fuel = Suc f" by (cases fuel) auto
  with Cons show ?case by (auto simp: first_with_def)
qed

lemma ll_for_each_entry_visits:
  "dseg ln_next ln_prev h p a (map fst xs) 0 b \<Longrightarrow> entries_at ln_entry h xs \<Longrightarrow> 0 \<notin> snd ` set xs \<Longrightarrow>
     length xs < fuel \<Longrightarrow> ll_for_each_entry fuel h p = Ret xs"
proof (induction xs arbitrary: fuel p a)
  case Nil
  then show ?case by (cases fuel) auto
next
  case (Cons x xs)
  then obtain f where "fuel = Suc f" by (cases fuel) auto
  with Cons show ?case by (cases x) auto
qed

fun remove_first :: "ptr \<Rightarrow> (ptr \<times> ptr) list \<Rightarrow> (ptr \<times> ptr) list" where
  "remove_first e [] = []"
| "remove_first e (x # xs) = (if snd x = e then xs else x # remove_first e xs)"

lemma first_with_split:
  "0 \<notin> fst ` set xs \<Longrightarrow> first_with e xs = 0 \<and> remove_first e xs = xs \<or>
     (\<exists>us vs. xs = us @ (first_with e xs, e) # vs \<and> remove_first e xs = us @ vs)"
proof (induction xs)
  case Nil
  then show ?case by (simp add: first_with_def)
next
  case (Cons x xs)
  show ?case
  proof (cases "snd x = e")
    case True
    then show ?thesis by (intro disjI2 exI [of _ "[]"] exI [of _ xs]) (cases x; simp add: first_with_def)
  next
    case False
    then have f: "first_with e (x # xs) = first_with e xs" by (simp add: first_with_def)
    from Cons have "first_with e xs = 0 \<and> remove_first e xs = xs \<or>
        (\<exists>us vs. xs = us @ (first_with e xs, e) # vs \<and> remove_first e xs = us @ vs)" by simp
    then show ?thesis
    proof (elim disjE exE conjE)
      fix us vs
      assume "xs = us @ (first_with e xs, e) # vs" "remove_first e xs = us @ vs"
      then show ?thesis unfolding f using False
        by (intro disjI2 exI [of _ "x # us"] exI [of _ vs]) simp
    qed (use False f in simp)
  qed
qed

lemma ll_remove_entry_rel:
  assumes "ll_rel env la (l, h) xs" "0 \<notin> snd ` set xs" "length xs < fuel"
  shows "\<exists>s'. ll_remove_entry fuel env la l e h = Ret s' \<and> ll_rel env la s' (remove_first e xs)"
proof -
  let ?l = "ll_lock_held l False" and ?n = "first_with e xs"
  have ok: "env_ok env" "rw_free (ll_rwl l)" and inv: "ll_inv la ?l h xs"
    using assms(1) by (simp_all add: ll_rel_def)
  have mag: "ll_magic ?l = LLIST_MAGIC" and srch: "ll_search fuel h (ll_head ?l) e = Ret ?n"
    using inv ll_search_first assms(2,3) by (auto simp: ll_inv_def)
  have nz: "0 \<notin> fst ` set xs" using ll_inv_nonnull [OF inv] by blast
  consider "?n = 0" "remove_first e xs = xs"
    | us vs where "xs = us @ (?n, e) # vs" "remove_first e xs = us @ vs"
    using first_with_split [OF nz, of e] by (elim disjE exE conjE)
  then show ?thesis
  proof cases
    case 1
    then have "ll_remove_entry fuel env la l e h = Ret (?l\<lparr>ll_rwl := ll_rwl l\<rparr>, h)"
      using mag srch ok ll_wunlock_held [OF ok, where l = l and l' = ?l and locked = False]
      by (simp add: ll_remove_entry_def ll_wlock_free)
    with inv ok 1 show ?thesis by (simp add: ll_rel_def)
  next
    case 2
    then have "?n \<noteq> 0" using nz by (metis fst_conv image_eqI in_set_conv_decomp)
    obtain l' h' where d: "ll_do_remove env la ?l ?n True h = Ret (?n, l', h')" "ll_inv la l' (h'(?n := None)) (us @ vs)"
        "ll_rwl l' = ll_rwl ?l" "ll_flags l' = ll_flags ?l"
      using ll_do_remove_inv [of la ?l h us ?n e vs True env] inv 2(1) by auto
    have "ll_remove_entry fuel env la l e h = Ret (l'\<lparr>ll_rwl := ll_rwl l\<rparr>, h'(?n := None))"
      using mag srch ok d \<open>?n \<noteq> 0\<close> ll_wunlock_held [OF ok, where l = l and l' = l' and locked = False]
      by (simp add: ll_remove_entry_def ll_wlock_free)
    with d(2) ok 2(2) show ?thesis by (simp add: ll_rel_def)
  qed
qed

lemma ll_remove_head_rel:
  assumes "ll_rel env la (l, h) ((n, e) # xs)" "e \<noteq> 0" "Suc (length xs) < 2 ^ 32"
  shows "\<exists>s'. ll_remove_head env la l h = Ret (e, s') \<and> ll_rel env la s' xs"
proof -
  let ?l = "ll_lock_held l False"
  have ok: "env_ok env" "rw_free (ll_rwl l)" and inv: "ll_inv la ?l h ((n, e) # xs)"
    using assms(1) by (simp_all add: ll_rel_def)
  have "ll_num ?l = of_nat (Suc (length xs))" and mag: "ll_magic ?l = LLIST_MAGIC"
    using inv by (simp_all add: ll_inv_def)
  moreover have "(of_nat (Suc (length xs)) :: u32) \<noteq> 0"
    using assms(3) by (subst word_of_nat_eq_0_iff) (auto simp: nat_dvd_not_less simp flip: of_nat_Suc)
  ultimately have num: "ll_num l \<noteq> 0" by simp
  obtain c where c: "h n = Some c" "ln_entry c = e" "n \<noteq> 0" "ll_head ?l = n"
    using inv by (auto simp: ll_inv_def)
  obtain l' h' where d: "ll_do_remove env la ?l n True h = Ret (n, l', h')" "ll_inv la l' (h'(n := None)) xs"
      "ll_rwl l' = ll_rwl ?l" "ll_flags l' = ll_flags ?l"
    using ll_do_remove_inv [of la ?l h "[]" n e xs True env] inv by auto
  have "ll_remove_head env la l h = Ret (e, l'\<lparr>ll_rwl := ll_rwl l\<rparr>, h'(n := None))"
    using mag num ok c d assms(2) ll_wunlock_held [OF ok, where l = l and l' = l' and locked = False]
    by (simp add: ll_remove_head_def ll_wlock_free)
  with d(2) ok show ?thesis by (simp add: ll_rel_def)
qed

lemma ll_remove_head_nil:
  assumes "ll_rel env la (l, h) []"
  shows "\<exists>s'. ll_remove_head env la l h = Ret (0, s') \<and> ll_rel env la s' []"
proof -
  let ?l = "ll_lock_held l False"
  have ok: "env_ok env" "rw_free (ll_rwl l)" "ll_num l = 0" and inv: "ll_inv la ?l h []"
    using assms by (simp_all add: ll_rel_def ll_inv_def)
  then have "ll_remove_head env la l h = Ret (0, ?l\<lparr>ll_rwl := ll_rwl l\<rparr>, h)"
    using ll_wunlock_held [OF ok(1,2), where l = l and l' = ?l and locked = False]
    by (simp add: ll_remove_head_def ll_wlock_free)
  with inv ok show ?thesis by (simp add: ll_rel_def)
qed

section \<open>Refinement of a list of entries\<close>

datatype llop = LInsert ptr ptr | LRemove ptr | LRemoveEntry ptr | LRemoveHead | LForEach

fun ll_step :: "nat \<Rightarrow> kenv \<Rightarrow> ptr \<Rightarrow> llop \<Rightarrow> llist \<times> lheap \<Rightarrow> (ptr list \<times> llist \<times> lheap) outcome" where
  "ll_step fuel env la (LInsert n e) (l, h) = obind (ll_insert env la l n e h) (\<lambda>s. Ret ([n], s))"
| "ll_step fuel env la (LRemove n) (l, h) = obind (ll_remove env la l n h) (\<lambda>s. Ret ([], s))"
| "ll_step fuel env la (LRemoveEntry e) (l, h) = obind (ll_remove_entry fuel env la l e h) (\<lambda>s. Ret ([], s))"
| "ll_step fuel env la LRemoveHead (l, h) = obind (ll_remove_head env la l h) (\<lambda>(e, s). Ret ([e], s))"
| "ll_step fuel env la LForEach (l, h) = obind (ll_for_each_entry fuel h (ll_head l)) (\<lambda>xs. Ret (map snd xs, l, h))"

text \<open>
  The specification works on the list of nodes and their entries.  An insertion needs a fresh
  address and an entry that is not null, a removal a node of the list; loops need the fuel to
  reach the end, and the count must not have wrapped.
\<close>

fun alist_step :: "nat \<Rightarrow> llop \<Rightarrow> (ptr \<times> ptr) list \<Rightarrow> (ptr list \<times> (ptr \<times> ptr) list) option" where
  "alist_step fuel (LInsert n e) xs =
     (if n = 0 \<or> e = 0 \<or> n \<in> fst ` set xs then None else Some ([n], (n, e) # xs))"
| "alist_step fuel (LRemove n) xs =
     (if n \<in> fst ` set xs then Some ([], filter (\<lambda>x. fst x \<noteq> n) xs) else None)"
| "alist_step fuel (LRemoveEntry e) xs =
     (if length xs < fuel then Some ([], remove_first e xs) else None)"
| "alist_step fuel LRemoveHead [] = Some ([0], [])"
| "alist_step fuel LRemoveHead (x # xs) = (if Suc (length xs) < 2 ^ 32 then Some ([snd x], xs) else None)"
| "alist_step fuel LForEach xs = (if length xs < fuel then Some (map snd xs, xs) else None)"

definition ll_full_rel :: "kenv \<Rightarrow> ptr \<Rightarrow> llist \<times> lheap \<Rightarrow> (ptr \<times> ptr) list \<Rightarrow> bool" where
  "ll_full_rel env la s xs \<longleftrightarrow> ll_rel env la s xs \<and> 0 \<notin> snd ` set xs"

lemma set_remove_first: "set (remove_first e xs) \<subseteq> set xs"
  by (induction xs) auto

interpretation llsim: simulation "ll_step fuel env la" "alist_step fuel" "ll_full_rel env la" for fuel env la
proof unfold_locales
  fix s a x r a'
  assume rel: "ll_full_rel env la s a" and step: "alist_step fuel x a = Some (r, a')"
  obtain l h where s: "s = (l, h)" by (cases s)
  have lr: "ll_rel env la (l, h) a" and nz: "0 \<notin> snd ` set a"
    using rel s by (simp_all add: ll_full_rel_def)
  show "\<exists>s'. ll_step fuel env la x s = Ret (r, s') \<and> ll_full_rel env la s' a'"
  proof (cases x)
    case (LInsert n e)
    with step have "n \<noteq> 0" "e \<noteq> 0" "n \<notin> fst ` set a" "r = [n]" "a' = (n, e) # a" by (auto split: if_splits)
    with LInsert ll_insert_rel [OF lr, of n e] nz s show ?thesis by (auto simp: ll_full_rel_def)
  next
    case (LRemove n)
    with step have "n \<in> fst ` set a" and a': "a' = filter (\<lambda>x. fst x \<noteq> n) a" "r = []" by (auto split: if_splits)
    then obtain us e vs where a: "a = us @ (n, e) # vs" by (auto dest!: split_list)
    have "distinct (map fst a)" using lr ll_inv_distinct [of la l h a] by (simp add: ll_rel_def)
    then have "distinct (map fst (us @ (n, e) # vs))" using a by blast
    then have "\<forall>x \<in> set (us @ vs). fst x \<noteq> n" by auto
    then have "a' = us @ vs" using a a' filter_True [of "us @ vs" "\<lambda>x. fst x \<noteq> n"] by simp
    with LRemove ll_remove_rel [OF lr [unfolded a]] nz s a a' show ?thesis by (auto simp: ll_full_rel_def)
  next
    case (LRemoveEntry e)
    have "0 \<notin> snd ` set (remove_first e a)" using set_remove_first [of e a] nz by blast
    with LRemoveEntry step ll_remove_entry_rel [OF lr nz, of fuel e] s
    show ?thesis by (auto simp: ll_full_rel_def split: if_splits)
  next
    case LRemoveHead
    show ?thesis
    proof (cases a)
      case Nil
      with LRemoveHead step s lr ll_remove_head_nil [of env la l h] show ?thesis by (auto simp: ll_full_rel_def)
    next
      case (Cons y ys)
      with LRemoveHead step have "Suc (length ys) < 2 ^ 32" "r = [snd y]" "a' = ys" by (auto split: if_splits)
      with LRemoveHead Cons s lr nz ll_remove_head_rel [of env la l h "fst y" "snd y" ys]
      show ?thesis by (auto simp: ll_full_rel_def)
    qed
  next
    case LForEach
    have "ll_for_each_entry fuel h (ll_head l) = Ret a" if "length a < fuel"
      using ll_for_each_entry_visits that lr nz by (auto simp: ll_rel_def ll_inv_def)
    with LForEach step s rel show ?thesis by (auto split: if_splits)
  qed
qed

text \<open>C6: A list of \<^verbatim>\<open>ll.c\<close> behaves as a list of entries with insertion at the head.  From a freshly created
  list, any sequence of insertions, removals of a node, removals of the first node with an entry,
  removals of the head and traversals returns without a failed assertion, gives the results of the
  abstract list, and leaves a doubly linked chain of exactly the abstract nodes whose count is the
  length of the list.\<close>

theorem llist_refines_list:
  assumes "env_ok env" "la \<noteq> 0" "run_abs (alist_step fuel) ops [] = Some (rs, xs)"
  shows "\<exists>s. run_ops (ll_step fuel env la) ops (ll_do_create a f, Map.empty) = Ret (rs, s) \<and> ll_full_rel env la s xs"
proof -
  have "ll_full_rel env la (ll_do_create a f, Map.empty) []"
    using assms(1) ll_create_inv [OF assms(2), of Map.empty] by (simp add: ll_full_rel_def ll_rel_def ll_create_free)
  from llsim.run_simulates [OF this assms(3)] show ?thesis .
qed

theorem llist_refines_list_witness:
  "\<exists>s. run_ops (ll_step 4 (task_env 1) 64)
        [LInsert 8 101, LInsert 16 102, LInsert 24 103, LRemoveEntry 102, LForEach, LRemoveHead, LRemove 8, LRemoveHead]
        (ll_do_create False 0, Map.empty) = Ret ([[8], [16], [24], [], [103, 101], [103], [], [0]], s) \<and>
      ll_full_rel (task_env 1) 64 s []"
  by (rule llist_refines_list) (simp_all add: env_ok_def task_env_def)

end
