(* ===== verification/Interrupt.thy ===== *)
theory Interrupt
  imports Mutex
begin

text \<open>
  Interrupt dispatch, \<^verbatim>\<open>kernel/cpu/interrupt.c\<close>: the interrupt flag of the current cpu, the handler
  tables, and the three entry points that run first and second stage handlers.  The handlers are
  function pointers; what calling one does is a parameter (\<open>kcalls\<close>) acting on the whole state, as are
  the routines of other files that the entry points call.  Theorems about the entry points assume
  of the handlers what the source requires of them: that they leave the dispatcher's state alone.
\<close>

section \<open>The interrupt flag of the current cpu\<close>

abbreviation CPU_RUNNING :: u32 where "CPU_RUNNING \<equiv> 0x2"
abbreviation TF_INSIG :: u32 where "TF_INSIG \<equiv> 0x800"
abbreviation TF_JUMPIN :: u32 where "TF_JUMPIN \<equiv> 0x2000"
abbreviation MAX_HANDLERS :: nat where "MAX_HANDLERS \<equiv> 256"
abbreviation MAX_INTERRUPTS :: nat where "MAX_INTERRUPTS \<equiv> 256"

text \<open>\<open>cx_if\<close> is the hardware flag that \<^verbatim>\<open>arch_interrupt_enable\<close> and \<^verbatim>\<open>arch_interrupt_disable\<close> set.\<close>

record cpu_ctx =
  cx_env :: kenv
  cx_if :: bool

definition cpu_flags_upd :: "(u32 \<Rightarrow> u32) \<Rightarrow> 'z cpu_ctx_scheme \<Rightarrow> 'z cpu_ctx_scheme" where
  "cpu_flags_upd f s = s\<lparr>cx_env := (cx_env s)\<lparr>current_task :=
     map_option (\<lambda>t. t\<lparr>tk_cpu_flags := f (tk_cpu_flags t)\<rparr>) (current_task (cx_env s))\<rparr>\<rparr>"

definition task_flags_upd :: "(u32 \<Rightarrow> u32) \<Rightarrow> 'z cpu_ctx_scheme \<Rightarrow> 'z cpu_ctx_scheme" where
  "task_flags_upd f s = s\<lparr>cx_env := (cx_env s)\<lparr>current_task :=
     map_option (\<lambda>t. t\<lparr>tk_flags := f (tk_flags t)\<rparr>) (current_task (cx_env s))\<rparr>\<rparr>"

definition cpu_interrupt_get_flag :: "'z cpu_ctx_scheme \<Rightarrow> u32" where
  "cpu_interrupt_get_flag s =
     (case current_task (cx_env s) of None \<Rightarrow> 0 | Some t \<Rightarrow> tk_cpu_flags t AND CPU_INTER)"

definition cpu_interrupt_set :: "u32 \<Rightarrow> 'z cpu_ctx_scheme \<Rightarrow> u32 \<times> 'z cpu_ctx_scheme" where
  "cpu_interrupt_set new s =
     (let s = s\<lparr>cx_if := False\<rparr>; old = cpu_interrupt_get_flag s in
      if new = 0 then (old, cpu_flags_upd (\<lambda>f. f AND NOT CPU_INTER) (s\<lparr>cx_if := False\<rparr>))
      else if (case current_task (cx_env s) of None \<Rightarrow> True | Some t \<Rightarrow> has_flag (tk_cpu_flags t) CPU_RUNNING)
        then (old, cpu_flags_upd (\<lambda>f. f OR CPU_INTER) (s\<lparr>cx_if := True\<rparr>))
      else (old, s))"

definition cpu_interrupt_set_flag :: "u32 \<Rightarrow> 'z cpu_ctx_scheme \<Rightarrow> 'z cpu_ctx_scheme" where
  "cpu_interrupt_set_flag flag s =
     (if flag \<noteq> 0 then cpu_flags_upd (\<lambda>f. f OR CPU_INTER) s
      else cpu_flags_upd (\<lambda>f. f AND NOT CPU_INTER) s)"

section \<open>Handlers\<close>

type_synonym regfile = "u64 list"

record 'w irqs = cpu_ctx +
  ih_s1 :: "nat \<Rightarrow> nat \<Rightarrow> ptr"
  ih_s2 :: "nat \<Rightarrow> nat \<Rightarrow> ptr"
  stage2_count :: "nat \<Rightarrow> u32"
  int_count :: "nat \<Rightarrow> u64"
  isr_lock :: mutex
  s2_lock :: mutex
  maybe_handle_stage_2 :: bool
  t_is_kernel :: bool
  t_system :: u64
  t_sigd :: u32
  t_regs :: ptr
  t_sysregs :: ptr
  t_reg_b :: regfile
  t_sig_mask :: u64
  t_old_mask :: u64
  t_cursig :: u32
  frames :: "ptr \<Rightarrow> regfile"
  is_world :: 'w

record 'w kcalls =
  s1_call :: "ptr \<Rightarrow> ptr \<Rightarrow> 'w irqs \<Rightarrow> 'w irqs outcome"
  s2_call :: "ptr \<Rightarrow> nat \<Rightarrow> 'w irqs \<Rightarrow> 'w irqs outcome"
  k_syscall_handler :: "ptr \<Rightarrow> 'w irqs \<Rightarrow> 'w irqs outcome"
  k_kill_process :: "'w irqs \<Rightarrow> 'w irqs outcome"
  k_reschedule :: "'w irqs \<Rightarrow> 'w irqs outcome"

definition free_slot :: "'w irqs \<Rightarrow> nat \<Rightarrow> nat option" where
  "free_slot s num = find (\<lambda>i. ih_s1 s num i = 0 \<and> ih_s2 s num i = 0) [0..<MAX_HANDLERS]"

definition interrupt_register_handler :: "nat \<Rightarrow> ptr \<Rightarrow> ptr \<Rightarrow> 'w irqs \<Rightarrow> (nat \<times> 'w irqs) outcome" where
  "interrupt_register_handler num stage1 stage2 s =
     obind (mutex_acquire (cx_env s) (isr_lock s)) (\<lambda>m.
     let (i, s) = (case free_slot s num of
          None \<Rightarrow> (MAX_HANDLERS, s)
        | Some i \<Rightarrow> (i, s\<lparr>ih_s1 := (ih_s1 s)(num := (ih_s1 s num)(i := stage1)),
                          ih_s2 := (ih_s2 s)(num := (ih_s2 s num)(i := stage2))\<rparr>)) in
     obind (mutex_release (cx_env s) m) (\<lambda>m.
     if i = MAX_HANDLERS then Panic else Ret (i, s\<lparr>isr_lock := m\<rparr>)))"

definition interrupt_unregister_handler :: "nat \<Rightarrow> nat \<Rightarrow> 'w irqs \<Rightarrow> 'w irqs outcome" where
  "interrupt_unregister_handler n i s =
     obind (mutex_acquire (cx_env s) (isr_lock s)) (\<lambda>m.
     if i \<ge> MAX_HANDLERS then Fault
     else if ih_s1 s n i = 0 \<and> ih_s2 s n i = 0 then Panic
     else obind (mutex_release (cx_env s) m) (\<lambda>m.
       Ret (s\<lparr>isr_lock := m, ih_s1 := (ih_s1 s)(n := (ih_s1 s n)(i := 0)),
              ih_s2 := (ih_s2 s)(n := (ih_s2 s n)(i := 0))\<rparr>)))"

section \<open>Entry points\<close>

definition stage2_handlers :: "'w kcalls \<Rightarrow> nat \<Rightarrow> 'w irqs \<Rightarrow> 'w irqs outcome" where
  "stage2_handlers k i = ofold (\<lambda>j s. if ih_s2 s i j \<noteq> 0 then s2_call k (ih_s2 s i j) i s else Ret s)
     [0..<MAX_HANDLERS]"

definition stage2_pass :: "'w kcalls \<Rightarrow> 'w irqs \<Rightarrow> 'w irqs outcome" where
  "stage2_pass k = ofold (\<lambda>i s. if stage2_count s i \<noteq> 0 then
       stage2_handlers k i (s\<lparr>stage2_count := (stage2_count s)(i := stage2_count s i - 1)\<rparr>)
     else Ret s) [0..<MAX_INTERRUPTS]"

definition stage2_run :: "'w kcalls \<Rightarrow> 'w irqs \<Rightarrow> 'w irqs outcome" where
  "stage2_run k s =
     (let s = s\<lparr>maybe_handle_stage_2 := False\<rparr> in
      obind (mutex_acquire (cx_env s) (s2_lock s)) (\<lambda>m.
      obind (stage2_pass k (s\<lparr>s2_lock := m\<rparr>)) (\<lambda>s.
      obind (mutex_release (cx_env s) (s2_lock s)) (\<lambda>m.
      Ret (s\<lparr>s2_lock := m\<rparr>)))))"

definition count_int :: "nat \<Rightarrow> 'w irqs \<Rightarrow> 'w irqs" where
  "count_int n s = s\<lparr>int_count := (int_count s)(n := int_count s n + 1)\<rparr>"

text \<open>
  The first stage loops; the flags say whether a second stage is needed, and (for exceptions)
  whether there was a handler at all.
\<close>

definition stage1_irq :: "'w kcalls \<Rightarrow> ptr \<Rightarrow> nat \<Rightarrow> 'w irqs \<Rightarrow> (bool \<times> 'w irqs) outcome" where
  "stage1_irq k regs n s =
     ofold (\<lambda>i (need, s).
       obind (if ih_s1 s n i \<noteq> 0 then s1_call k (ih_s1 s n i) regs s else Ret s) (\<lambda>s.
       Ret (need \<or> ih_s2 s n i \<noteq> 0, s))) [0..<MAX_HANDLERS] (False, s)"

definition stage1_isr :: "'w kcalls \<Rightarrow> ptr \<Rightarrow> nat \<Rightarrow> 'w irqs \<Rightarrow> ((bool \<times> bool) \<times> 'w irqs) outcome" where
  "stage1_isr k regs n s =
     ofold (\<lambda>i ((called, need), s).
       if ih_s1 s n i \<noteq> 0 \<or> ih_s2 s n i \<noteq> 0 then
         obind (if ih_s1 s n i \<noteq> 0 then s1_call k (ih_s1 s n i) regs s else Ret s) (\<lambda>s.
         Ret ((True, need \<or> ih_s2 s n i \<noteq> 0), s))
       else Ret ((called, need), s)) [0..<MAX_HANDLERS] ((False, False), s)"

definition post_stage2 :: "bool \<Rightarrow> nat \<Rightarrow> 'w irqs \<Rightarrow> 'w irqs" where
  "post_stage2 need n s =
     (if need then s\<lparr>stage2_count := (stage2_count s)(n := stage2_count s n + 1), maybe_handle_stage_2 := True\<rparr>
      else s)"

definition cpu_interrupt_irq_entry :: "'w kcalls \<Rightarrow> ptr \<Rightarrow> nat \<Rightarrow> 'w irqs \<Rightarrow> 'w irqs outcome" where
  "cpu_interrupt_irq_entry k regs n s =
     (let (prev, s) = cpu_interrupt_set 0 s; s = count_int n s;
          clear_regs = (current_task (cx_env s) \<noteq> None \<and> t_regs s = 0);
          s = (if clear_regs then s\<lparr>t_regs := regs\<rparr> else s) in
      case current_task (cx_env s) of None \<Rightarrow> Fault
      | Some t \<Rightarrow>
        let already = has_flag (tk_flags t) TF_IN_INT; s = task_flags_upd (\<lambda>f. f OR TF_IN_INT) s in
        obind (stage1_irq k regs n s) (\<lambda>(need, s).
        let s = post_stage2 need n s in
        oassert (cpu_interrupt_get_flag s = 0)
        (obind (if \<not> already \<and> (maybe_handle_stage_2 s \<or> need) then
                  obind (stage2_run k s) (\<lambda>s. oassert (cpu_interrupt_get_flag s = 0) (Ret s))
                else Ret s) (\<lambda>s.
         let (_, s) = cpu_interrupt_set 0 s;
             s = (if current_task (cx_env s) \<noteq> None \<and> clear_regs then s\<lparr>t_regs := 0\<rparr> else s);
             s = cpu_interrupt_set_flag prev s in
         Ret (if \<not> already then task_flags_upd (\<lambda>f. f AND NOT TF_IN_INT) s else s)))))"

abbreviation SIGABRT :: u32 where "SIGABRT \<equiv> 10"
abbreviation SIGTRAP :: u32 where "SIGTRAP \<equiv> 11"
abbreviation SIGILL :: u32 where "SIGILL \<equiv> 19"

text \<open>An exception nobody handles: fatal in the kernel, a signal (or death) for a user task.\<close>

definition faulted :: "'w kcalls \<Rightarrow> nat \<Rightarrow> bool \<Rightarrow> 'w irqs \<Rightarrow> 'w irqs outcome" where
  "faulted k n userspace s =
     (if t_is_kernel s \<or> current_task (cx_env s) = None \<or> t_system s \<noteq> 0 \<or> \<not> userspace then Panic
      else obind (if n \<in> {0, 5, 6, 13} then Ret (s\<lparr>t_sigd := SIGILL\<rparr>)
                  else if n \<in> {1, 3, 4} then Ret (s\<lparr>t_sigd := SIGTRAP\<rparr>)
                  else if n \<in> {8, 18} then Ret (s\<lparr>t_sigd := SIGABRT\<rparr>)
                  else k_kill_process k s) (k_reschedule k))"

definition cpu_interrupt_isr_entry :: "'w kcalls \<Rightarrow> ptr \<Rightarrow> nat \<Rightarrow> 'w irqs \<Rightarrow> 'w irqs outcome" where
  "cpu_interrupt_isr_entry k regs n s =
     (let (prev, s) = cpu_interrupt_set 0 s; s = count_int n s in
      case current_task (cx_env s) of None \<Rightarrow> Fault
      | Some t \<Rightarrow>
        let already = has_flag (tk_flags t) TF_IN_INT; s = task_flags_upd (\<lambda>f. f OR TF_IN_INT) s in
        obind (stage1_isr k regs n s) (\<lambda>((called, need), s).
        let s = post_stage2 need n s; (_, s) = cpu_interrupt_set 0 s in
        obind (if \<not> called then faulted k n (\<not> already) s else Ret s) (\<lambda>s.
        let s = cpu_interrupt_set_flag prev s in
        Ret (if \<not> already then task_flags_upd (\<lambda>f. f AND NOT TF_IN_INT) s else s))))"

definition cpu_interrupt_syscall_entry :: "'w kcalls \<Rightarrow> ptr \<Rightarrow> int \<Rightarrow> 'w irqs \<Rightarrow> 'w irqs outcome" where
  "cpu_interrupt_syscall_entry k regs num s =
     (let (_, s) = cpu_interrupt_set 0 s; s = count_int 128 s in
      case current_task (cx_env s) of None \<Rightarrow> Fault
      | Some t \<Rightarrow>
        if has_flag (tk_flags t) TF_IN_INT then Panic
        else let s = task_flags_upd (\<lambda>f. f OR TF_IN_INT) s in
        obind (if num = 128 then
                 Ret (task_flags_upd (\<lambda>f. f AND NOT TF_JUMPIN) (task_flags_upd (\<lambda>f. f AND NOT TF_INSIG)
                   (s\<lparr>frames := (frames s)(regs := t_reg_b s), t_sig_mask := t_old_mask s, t_cursig := 0\<rparr>)))
               else oassert (t_sysregs s = 0 \<and> t_regs s = 0)
                 (obind (k_syscall_handler k regs (s\<lparr>t_regs := regs, t_sysregs := regs\<rparr>)) (\<lambda>s.
                  oassert (cpu_interrupt_get_flag s = 0)
                  (obind (if maybe_handle_stage_2 s then stage2_run k s else Ret s) (\<lambda>s.
                   oassert (cpu_interrupt_get_flag s = 0) (Ret s)))))) (\<lambda>s.
        let (_, s) = cpu_interrupt_set 0 s;
            s = cpu_interrupt_set_flag 1 (s\<lparr>t_sysregs := 0, t_regs := 0\<rparr>) in
        Ret (task_flags_upd (\<lambda>f. f AND NOT TF_IN_INT) s)))"

definition KT_try_handle_stage2_interrupts :: "'w kcalls \<Rightarrow> 'w irqs \<Rightarrow> 'w irqs outcome" where
  "KT_try_handle_stage2_interrupts k s =
     (if mutex_is_locked (cx_env s) (s2_lock s) = 0 then
        let (old, s) = cpu_interrupt_set 0 s in
        obind (stage2_run k s) (\<lambda>s. Ret (snd (cpu_interrupt_set old s)))
      else Ret s)"

definition interrupt_init :: "'w irqs \<Rightarrow> 'w irqs" where
  "interrupt_init s = s\<lparr>stage2_count := \<lambda>_. 0, ih_s1 := \<lambda>_ _. 0, ih_s2 := \<lambda>_ _. 0,
     maybe_handle_stage_2 := False, isr_lock := mutex_create False 0, s2_lock := mutex_create False 0\<rparr>"

section \<open>Correctness of the entry points\<close>

text \<open>
  Handlers that leave the dispatcher alone: calling one changes only \<open>is_world\<close>, the state the
  dispatcher does not look at.
\<close>

definition quiet :: "'w kcalls \<Rightarrow> (ptr \<Rightarrow> ptr \<Rightarrow> 'w \<Rightarrow> 'w) \<Rightarrow> (ptr \<Rightarrow> nat \<Rightarrow> 'w \<Rightarrow> 'w) \<Rightarrow> bool" where
  "quiet k f1 f2 \<longleftrightarrow>
     (\<forall>p r s. s1_call k p r s = Ret (s\<lparr>is_world := f1 p r (is_world s)\<rparr>)) \<and>
     (\<forall>p i s. s2_call k p i s = Ret (s\<lparr>is_world := f2 p i (is_world s)\<rparr>))"

text \<open>What the handlers in a table row do, in slot order, and what a pass over all pending second stages does.\<close>

definition row_effect :: "(ptr \<Rightarrow> 'w \<Rightarrow> 'w) \<Rightarrow> (nat \<Rightarrow> ptr) \<Rightarrow> 'w \<Rightarrow> 'w" where
  "row_effect f row = fold (\<lambda>j w. if row j \<noteq> 0 then f (row j) w else w) [0..<MAX_HANDLERS]"

definition pass_effect :: "(ptr \<Rightarrow> nat \<Rightarrow> 'w \<Rightarrow> 'w) \<Rightarrow> (nat \<Rightarrow> nat \<Rightarrow> ptr) \<Rightarrow> (nat \<Rightarrow> u32) \<Rightarrow> 'w \<Rightarrow> 'w" where
  "pass_effect f2 tbl cnt =
     fold (\<lambda>i w. if cnt i \<noteq> 0 then row_effect (\<lambda>p. f2 p i) (tbl i) w else w) [0..<MAX_INTERRUPTS]"

definition pass_counts :: "(nat \<Rightarrow> u32) \<Rightarrow> nat \<Rightarrow> u32" where
  "pass_counts cnt i = (if i < MAX_INTERRUPTS \<and> cnt i \<noteq> 0 then cnt i - 1 else cnt i)"

definition has_stage2 :: "'w irqs \<Rightarrow> nat \<Rightarrow> bool" where
  "has_stage2 s n = list_ex (\<lambda>i. ih_s2 s n i \<noteq> 0) [0..<MAX_HANDLERS]"

lemma stage2_handlers_quiet:
  assumes "quiet k f1 f2"
  shows "stage2_handlers k i s = Ret (s\<lparr>is_world := row_effect (\<lambda>p. f2 p i) (ih_s2 s i) (is_world s)\<rparr>)"
proof -
  have "ofold (\<lambda>j s. if ih_s2 s i j \<noteq> 0 then s2_call k (ih_s2 s i j) i s else Ret s) xs s =
      Ret (s\<lparr>is_world := fold (\<lambda>j w. if ih_s2 s i j \<noteq> 0 then f2 (ih_s2 s i j) i w else w) xs (is_world s)\<rparr>)" for xs
    using assms by (induction xs arbitrary: s) (auto simp: quiet_def cong: if_cong)
  then show ?thesis by (simp only: stage2_handlers_def row_effect_def)
qed

lemma stage2_pass_quiet:
  assumes "quiet k f1 f2"
  shows "stage2_pass k s = Ret (s\<lparr>stage2_count := pass_counts (stage2_count s),
     is_world := pass_effect f2 (ih_s2 s) (stage2_count s) (is_world s)\<rparr>)"
proof -
  let ?F = "\<lambda>i s. if stage2_count s i \<noteq> 0 then
       stage2_handlers k i (s\<lparr>stage2_count := (stage2_count s)(i := stage2_count s i - 1)\<rparr>) else Ret s"
  let ?E = "\<lambda>s i w. if stage2_count s i \<noteq> 0 then row_effect (\<lambda>p. f2 p i) (ih_s2 s i) w else w"
  have "distinct xs \<Longrightarrow> ofold ?F xs s = Ret (s\<lparr>stage2_count := \<lambda>i. if i \<in> set xs \<and> stage2_count s i \<noteq> 0
          then stage2_count s i - 1 else stage2_count s i, is_world := fold (?E s) xs (is_world s)\<rparr>)" for xs
  proof (induction xs arbitrary: s)
    case (Cons x xs)
    show ?case
    proof (cases "stage2_count s x = 0")
      case True
      with Cons show ?thesis by (auto intro!: arg_cong [where f = "\<lambda>c. s\<lparr>stage2_count := c, is_world := _\<rparr>"])
    next
      case False
      let ?s = "s\<lparr>stage2_count := (stage2_count s)(x := stage2_count s x - 1),
         is_world := row_effect (\<lambda>p. f2 p x) (ih_s2 s x) (is_world s)\<rparr>"
      have "?F x s = Ret ?s" using False stage2_handlers_quiet [OF assms] by simp
      moreover have "fold (?E ?s) xs w = fold (?E s) xs w" for w
        using Cons.prems by (intro fold_cong) auto
      ultimately show ?thesis using Cons False by (auto intro!: irqs.fold_congs)
    qed
  qed simp
  from this [of "[0..<MAX_INTERRUPTS]"] show ?thesis
    by (simp add: stage2_pass_def pass_effect_def pass_counts_def [abs_def] cong: conj_cong)
qed

lemma stage2_run_quiet:
  assumes "quiet k f1 f2" "env_ok (cx_env s)" "mutex_free (s2_lock s)"
  shows "stage2_run k s = Ret (s\<lparr>maybe_handle_stage_2 := False, stage2_count := pass_counts (stage2_count s),
     is_world := pass_effect f2 (ih_s2 s) (stage2_count s) (is_world s)\<rparr>)"
  using assms(2,3) by (simp add: stage2_run_def stage2_pass_quiet [OF assms(1)] Let_def lock_simps)

lemma stage1_irq_quiet:
  assumes "quiet k f1 f2"
  shows "stage1_irq k r n s = Ret (has_stage2 s n, s\<lparr>is_world := row_effect (\<lambda>p. f1 p r) (ih_s1 s n) (is_world s)\<rparr>)"
proof -
  let ?F = "\<lambda>i (need, s). obind (if ih_s1 s n i \<noteq> 0 then s1_call k (ih_s1 s n i) r s else Ret s) (\<lambda>s.
       Ret (need \<or> ih_s2 s n i \<noteq> 0, s))"
  have "ofold ?F xs (b, s) = Ret (b \<or> list_ex (\<lambda>i. ih_s2 s n i \<noteq> 0) xs,
      s\<lparr>is_world := fold (\<lambda>i w. if ih_s1 s n i \<noteq> 0 then f1 (ih_s1 s n i) r w else w) xs (is_world s)\<rparr>)" for xs b
    using assms by (induction xs arbitrary: s b) (auto simp: quiet_def cong: if_cong)
  from this [of "[0..<MAX_HANDLERS]" False] show ?thesis
    by (simp only: stage1_irq_def row_effect_def has_stage2_def simp_thms)
qed

text \<open>The context inside an interrupt: the task is marked, the cpu flag is down.\<close>

definition int_env :: "kenv \<Rightarrow> kenv" where
  "int_env env = env\<lparr>current_task := map_option (\<lambda>t. t\<lparr>tk_cpu_flags := tk_cpu_flags t AND NOT CPU_INTER,
     tk_flags := tk_flags t OR TF_IN_INT\<rparr>) (current_task env)\<rparr>"

definition nested :: "'w irqs \<Rightarrow> bool" where
  "nested s = (case current_task (cx_env s) of None \<Rightarrow> False | Some t \<Rightarrow> has_flag (tk_flags t) TF_IN_INT)"

lemma env_ok_int_env [simp]: "env_ok (int_env env) = env_ok env"
  by (cases "current_task env") (auto simp: env_ok_def int_env_def)

lemma irq_enter:
  assumes "current_task (cx_env s) = Some t"
  shows "cpu_interrupt_set 0 s = (tk_cpu_flags t AND CPU_INTER,
      s\<lparr>cx_if := False, cx_env := (cx_env s)\<lparr>current_task := Some (t\<lparr>tk_cpu_flags := tk_cpu_flags t AND NOT CPU_INTER\<rparr>)\<rparr>\<rparr>)"
  using assms by (simp add: cpu_interrupt_set_def cpu_interrupt_get_flag_def cpu_flags_upd_def Let_def)

lemma irq_leave:
  assumes "current_task (cx_env s0) = Some t" "cx_env s = int_env (cx_env s0)"
  shows "(let s' = cpu_interrupt_set_flag (tk_cpu_flags t AND CPU_INTER) (snd (cpu_interrupt_set 0 s)) in
     if \<not> has_flag (tk_flags t) TF_IN_INT then task_flags_upd (\<lambda>f. f AND NOT TF_IN_INT) s' else s') =
     s\<lparr>cx_if := False, cx_env := cx_env s0\<rparr>"
proof -
  let ?c = "tk_cpu_flags t" and ?f = "tk_flags t"
  have c: "(if ?c AND CPU_INTER \<noteq> 0 then ?c AND NOT CPU_INTER AND NOT CPU_INTER OR CPU_INTER
      else ?c AND NOT CPU_INTER AND NOT CPU_INTER AND NOT CPU_INTER) = ?c"
    using flag_clear_set [of ?c 6] flag_clear_off [of ?c 6] by (auto simp: and.assoc)
  have f: "(if ?f AND TF_IN_INT = 0 then (?f OR TF_IN_INT) AND NOT TF_IN_INT else ?f OR TF_IN_INT) = ?f"
    using flag_set_clear [of ?f 18] flag_set_on [of ?f 18] by auto
  show ?thesis
    using assms c f
    by (cases "cx_env s0"; cases t)
      (simp add: cpu_interrupt_set_flag_def irq_enter int_env_def cpu_flags_upd_def task_flags_upd_def Let_def split: if_splits)
qed

text \<open>
  The specification of an interrupt: the first stage handlers of the line run in slot order; a
  second stage is posted if the line has one; and unless another interrupt was interrupted, one
  pass over the pending second stages runs.  Nothing else of the state changes.
\<close>

definition irq_spec :: "(ptr \<Rightarrow> ptr \<Rightarrow> 'w \<Rightarrow> 'w) \<Rightarrow> (ptr \<Rightarrow> nat \<Rightarrow> 'w \<Rightarrow> 'w) \<Rightarrow> ptr \<Rightarrow> nat \<Rightarrow> 'w irqs \<Rightarrow> 'w irqs" where
  "irq_spec f1 f2 r n s =
     (let w = row_effect (\<lambda>p. f1 p r) (ih_s1 s n) (is_world s);
          pending = (maybe_handle_stage_2 s \<or> has_stage2 s n);
          cnt = (if has_stage2 s n then (stage2_count s)(n := stage2_count s n + 1) else stage2_count s);
          s = s\<lparr>cx_if := False, int_count := (int_count s)(n := int_count s n + 1)\<rparr> in
      if nested s \<or> \<not> pending then s\<lparr>is_world := w, stage2_count := cnt, maybe_handle_stage_2 := pending\<rparr>
      else s\<lparr>is_world := pass_effect f2 (ih_s2 s) cnt w, stage2_count := pass_counts cnt,
             maybe_handle_stage_2 := False\<rparr>)"

lemma int_env_get_flag: "cx_env s = int_env env \<Longrightarrow> cpu_interrupt_get_flag s = 0"
  using flag_cleared [of _ 6] by (cases "current_task env") (auto simp: cpu_interrupt_get_flag_def int_env_def)

text \<open>C7: An interrupt request does what the specification of its dispatch says.  With handlers that
  leave the dispatcher's state alone, \<^verbatim>\<open>cpu_interrupt_irq_entry\<close> returns without a failed assertion; it has
  run every first stage handler of the line once, in slot order, and then, unless it interrupted
  another handler, all handlers of each line with a pending second stage, whose counts went down by
  one; the interrupted task's flags, its saved registers and the cpu's interrupt flag are exactly as
  before.\<close>

theorem irq_entry_correct:
  assumes "quiet k f1 f2" "env_ok (cx_env s)" "current_task (cx_env s) \<noteq> None" "mutex_free (s2_lock s)"
  shows "cpu_interrupt_irq_entry k r n s = Ret (irq_spec f1 f2 r n s)"
proof -
  obtain t where t: "current_task (cx_env s) = Some t" using assms(3) by auto
  let ?e = "int_env (cx_env s)"
  define clear where "clear = (t_regs s = 0)"
  define s1 where "s1 = s\<lparr>cx_if := False, cx_env := ?e, int_count := (int_count s)(n := int_count s n + 1),
     t_regs := (if clear then r else t_regs s)\<rparr>"
  define s2 where "s2 = post_stage2 (has_stage2 s n) n (s1\<lparr>is_world := row_effect (\<lambda>p. f1 p r) (ih_s1 s n) (is_world s)\<rparr>)"
  define s3 where "s3 = (if \<not> nested s \<and> (maybe_handle_stage_2 s2 \<or> has_stage2 s n) then
      s2\<lparr>maybe_handle_stage_2 := False, stage2_count := pass_counts (stage2_count s2),
         is_world := pass_effect f2 (ih_s2 s2) (stage2_count s2) (is_world s2)\<rparr> else s2)"
  have e: "cx_env s2 = ?e" "cx_env s3 = ?e" "s2_lock s2 = s2_lock s" "t_regs s3 = t_regs s1"
    by (auto simp: s3_def s2_def s1_def post_stage2_def)
  have p: "task_flags_upd (\<lambda>f. f OR TF_IN_INT) (if t_regs s = 0
      then s\<lparr>cx_if := False, cx_env := (cx_env s)\<lparr>current_task := Some (t\<lparr>tk_cpu_flags := tk_cpu_flags t AND NOT CPU_INTER\<rparr>)\<rparr>,
             int_count := (int_count s)(n := int_count s n + 1), t_regs := r\<rparr>
      else s\<lparr>cx_if := False, cx_env := (cx_env s)\<lparr>current_task := Some (t\<lparr>tk_cpu_flags := tk_cpu_flags t AND NOT CPU_INTER\<rparr>)\<rparr>,
             int_count := (int_count s)(n := int_count s n + 1)\<rparr>) = s1"
    using t by (auto simp: task_flags_upd_def s1_def int_env_def clear_def)
  have st1: "stage1_irq k r n s1 = Ret (has_stage2 s n, s1\<lparr>is_world := row_effect (\<lambda>p. f1 p r) (ih_s1 s n) (is_world s)\<rparr>)"
    by (simp add: stage1_irq_quiet [OF assms(1)] s1_def has_stage2_def)
  have st2: "stage2_run k s2 = Ret (s2\<lparr>maybe_handle_stage_2 := False, stage2_count := pass_counts (stage2_count s2),
         is_world := pass_effect f2 (ih_s2 s2) (stage2_count s2) (is_world s2)\<rparr>)"
    using assms(2,4) e by (intro stage2_run_quiet [OF assms(1)]) simp_all
  have "cpu_interrupt_irq_entry k r n s = obind (stage1_irq k r n s1) (\<lambda>(need, s').
        let s' = post_stage2 need n s' in
        oassert (cpu_interrupt_get_flag s' = 0)
        (obind (if \<not> nested s \<and> (maybe_handle_stage_2 s' \<or> need) then
                  obind (stage2_run k s') (\<lambda>s. oassert (cpu_interrupt_get_flag s = 0) (Ret s))
                else Ret s') (\<lambda>s'.
         let (_, s') = cpu_interrupt_set 0 s';
             s' = (if current_task (cx_env s') \<noteq> None \<and> clear then s'\<lparr>t_regs := 0\<rparr> else s');
             s' = cpu_interrupt_set_flag (tk_cpu_flags t AND CPU_INTER) s' in
         Ret (if \<not> nested s then task_flags_upd (\<lambda>f. f AND NOT TF_IN_INT) s' else s'))))"
    unfolding cpu_interrupt_irq_entry_def irq_enter [OF t] count_int_def using p t
    by (cases "t_regs s = 0") (simp_all add: Let_def clear_def nested_def)
  also have "\<dots> = (let s' = snd (cpu_interrupt_set 0 s3); s' = (if clear then s'\<lparr>t_regs := 0\<rparr> else s');
             s' = cpu_interrupt_set_flag (tk_cpu_flags t AND CPU_INTER) s' in
         Ret (if \<not> nested s then task_flags_upd (\<lambda>f. f AND NOT TF_IN_INT) s' else s'))"
  proof -
    have g: "cpu_interrupt_get_flag s2 = 0" using e(1) by (rule int_env_get_flag)
    have c: "\<exists>t'. current_task (cx_env (snd (cpu_interrupt_set 0 s3))) = Some t'"
      using e(2) t by (simp add: irq_enter int_env_def)
    have "(if \<not> nested s \<and> (maybe_handle_stage_2 s2 \<or> has_stage2 s n) then
            obind (stage2_run k s2) (\<lambda>s. oassert (cpu_interrupt_get_flag s = 0) (Ret s)) else Ret s2) = Ret s3"
      using e(2) by (auto simp: st2 s3_def int_env_get_flag)
    with g c show ?thesis
      unfolding st1 obind.simps prod.case s2_def [symmetric] Let_def by (auto simp: split_beta)
  qed
  also have "\<dots> = Ret (irq_spec f1 f2 r n s)"
  proof -
    define s4 where "s4 = s3\<lparr>t_regs := (if clear then 0 else t_regs s3)\<rparr>"
    have "(if clear then (snd (cpu_interrupt_set 0 s3))\<lparr>t_regs := 0\<rparr> else snd (cpu_interrupt_set 0 s3)) = snd (cpu_interrupt_set 0 s4)"
      by (simp add: s4_def cpu_interrupt_set_def cpu_flags_upd_def Let_def)
    moreover have "s4\<lparr>cx_if := False, cx_env := cx_env s\<rparr> = irq_spec f1 f2 r n s"
      by (auto simp: s4_def s3_def s2_def s1_def clear_def irq_spec_def post_stage2_def Let_def nested_def)
    moreover have "cx_env s4 = ?e" using e(2) by (simp add: s4_def)
    ultimately show ?thesis
      using irq_leave [OF t, of s4] by (cases "nested s") (simp_all add: Let_def nested_def t)
  qed
  finally show ?thesis .
qed

definition log_calls :: "(ptr \<times> nat) list kcalls" where
  "log_calls = \<lparr>s1_call = (\<lambda>p r s. Ret (s\<lparr>is_world := is_world s @ [(p, 0)]\<rparr>)),
     s2_call = (\<lambda>p i s. Ret (s\<lparr>is_world := is_world s @ [(p, i)]\<rparr>)),
     k_syscall_handler = (\<lambda>r s. Ret s), k_kill_process = Ret, k_reschedule = Ret\<rparr>"

definition idle_irqs :: "(ptr \<times> nat) list irqs" where
  "idle_irqs = \<lparr>cx_env = task_env 1, cx_if = True, ih_s1 = (\<lambda>_ _. 0)(32 := (\<lambda>_. 0)(0 := 100, 1 := 200)),
     ih_s2 = (\<lambda>_ _. 0)(32 := (\<lambda>_. 0)(1 := 300)), stage2_count = \<lambda>_. 0, int_count = \<lambda>_. 0,
     isr_lock = mutex_create False 0, s2_lock = mutex_create False 0, maybe_handle_stage_2 = False,
     t_is_kernel = False, t_system = 0, t_sigd = 0, t_regs = 0, t_sysregs = 0, t_reg_b = [], t_sig_mask = 0,
     t_old_mask = 0, t_cursig = 0, frames = \<lambda>_. [], is_world = []\<rparr>"

lemma idle_irqs_ok:
  "env_ok (cx_env idle_irqs)" "current_task (cx_env idle_irqs) \<noteq> None" "mutex_free (s2_lock idle_irqs)"
  "mutex_free (isr_lock idle_irqs)"
  by (simp_all add: idle_irqs_def env_ok_def task_env_def mutex_create_free)

theorem irq_entry_correct_witness:
  "cpu_interrupt_irq_entry log_calls 5000 32 idle_irqs =
     Ret (irq_spec (\<lambda>p r w. w @ [(p, 0)]) (\<lambda>p i w. w @ [(p, i)]) 5000 32 idle_irqs)"
  by (rule irq_entry_correct) (simp_all add: quiet_def log_calls_def idle_irqs_ok)

section \<open>The handler table\<close>

lemma free_slot_Some:
  "free_slot s n = Some i \<Longrightarrow> i < MAX_HANDLERS \<and> ih_s1 s n i = 0 \<and> ih_s2 s n i = 0 \<and>
     (\<forall>j < i. ih_s1 s n j \<noteq> 0 \<or> ih_s2 s n j \<noteq> 0)"
  by (auto simp: free_slot_def find_Some_iff)

text \<open>C19: Registering an interrupt handler takes the first free slot of the line and unregistering that
  slot undoes it.  \<^verbatim>\<open>interrupt_register_handler\<close> returns a slot that was free, below which every slot was
  taken; every other slot of every line is untouched; and \<^verbatim>\<open>interrupt_unregister_handler\<close> of the
  returned slot gives back the state before the registration.\<close>

theorem register_unregister:
  assumes "env_ok (cx_env s)" "mutex_free (isr_lock s)" "free_slot s n \<noteq> None" "h1 \<noteq> 0 \<or> h2 \<noteq> 0"
  shows "\<exists>i s'. interrupt_register_handler n h1 h2 s = Ret (i, s') \<and> i < MAX_HANDLERS \<and>
     ih_s1 s n i = 0 \<and> ih_s2 s n i = 0 \<and> (\<forall>j < i. ih_s1 s n j \<noteq> 0 \<or> ih_s2 s n j \<noteq> 0) \<and>
     ih_s1 s' n i = h1 \<and> ih_s2 s' n i = h2 \<and>
     (\<forall>m j. (m, j) \<noteq> (n, i) \<longrightarrow> ih_s1 s' m j = ih_s1 s m j \<and> ih_s2 s' m j = ih_s2 s m j) \<and>
     interrupt_unregister_handler n i s' = Ret s"
proof -
  obtain i where i: "free_slot s n = Some i" using assms(3) by auto
  note f = free_slot_Some [OF i]
  let ?s = "s\<lparr>ih_s1 := (ih_s1 s)(n := (ih_s1 s n)(i := h1)), ih_s2 := (ih_s2 s)(n := (ih_s2 s n)(i := h2))\<rparr>"
  have "interrupt_register_handler n h1 h2 s = Ret (i, ?s)"
    using assms(1,2) i f by (simp add: interrupt_register_handler_def lock_simps)
  moreover have "(ih_s1 s n)(i := 0) = ih_s1 s n" "(ih_s2 s n)(i := 0) = ih_s2 s n" using f by auto
  then have "interrupt_unregister_handler n i ?s = Ret s"
    using assms f by (auto simp: interrupt_unregister_handler_def lock_simps)
  ultimately show ?thesis using f by auto
qed

theorem register_unregister_witness:
  "\<exists>i s'. interrupt_register_handler 32 7 0 idle_irqs = Ret (i, s') \<and> i < MAX_HANDLERS \<and>
     ih_s1 idle_irqs 32 i = 0 \<and> ih_s2 idle_irqs 32 i = 0 \<and>
     (\<forall>j < i. ih_s1 idle_irqs 32 j \<noteq> 0 \<or> ih_s2 idle_irqs 32 j \<noteq> 0) \<and>
     ih_s1 s' 32 i = 7 \<and> ih_s2 s' 32 i = 0 \<and>
     (\<forall>m j. (m, j) \<noteq> (32, i) \<longrightarrow> ih_s1 s' m j = ih_s1 idle_irqs m j \<and> ih_s2 s' m j = ih_s2 idle_irqs m j) \<and>
     interrupt_unregister_handler 32 i s' = Ret idle_irqs"
proof (rule register_unregister)
  have "2 \<in> set [0..<MAX_HANDLERS]" by simp
  moreover have "ih_s1 idle_irqs 32 2 = 0 \<and> ih_s2 idle_irqs 32 2 = 0" by (simp add: idle_irqs_def)
  ultimately show "free_slot idle_irqs 32 \<noteq> None" unfolding free_slot_def find_None_iff by blast
qed (simp_all add: idle_irqs_ok)

end
