(* ===== verification/Tqueue.thy ===== *)
theory Tqueue
  imports Llist Interrupt "HOL-Library.Multiset"
begin

text \<open>
  Task queues, \<^verbatim>\<open>kernel/tqueue.c\<close>: a lockless list of tasks with a cursor that \<^verbatim>\<open>tqueue_next\<close> advances,
  accessed with interrupts disabled and a mutex held.  The list nodes are embedded in the tasks,
  so they are cells of the heap before the insertion and after the removal.
\<close>

section \<open>Operations\<close>

abbreviation TQ_MAGIC :: u32 where "TQ_MAGIC \<equiv> 0xCAFED00D"
abbreviation TQ_ALLOC :: u32 where "TQ_ALLOC \<equiv> 1"

record tqueue =
  tq_magic :: u32
  tq_flags :: u32
  tq_lock :: mutex
  tq_num :: u32
  tq_current :: ptr
  tq_tql :: llist

definition zero_tqueue :: tqueue where
  "zero_tqueue = \<lparr>tq_magic = 0, tq_flags = 0, tq_lock = mutex_create False 0, tq_num = 0, tq_current = 0,
     tq_tql = ll_do_create False 0\<rparr>"

text \<open>With a null argument the queue is allocated; otherwise the caller's structure is initialised in place.\<close>

definition tqueue_create :: "tqueue option \<Rightarrow> u32 \<Rightarrow> tqueue" where
  "tqueue_create tq flags =
     (let tq = (case tq of None \<Rightarrow> zero_tqueue\<lparr>tq_flags := TQ_ALLOC OR flags\<rparr>
                | Some tq \<Rightarrow> tq\<lparr>tq_flags := flags\<rparr>)
      in tq\<lparr>tq_lock := mutex_create False MT_NOSCHED, tq_tql := ll_do_create False LL_LOCKLESS,
            tq_num := 0, tq_magic := TQ_MAGIC\<rparr>)"

definition tqueue_destroy :: "kenv \<Rightarrow> ptr \<Rightarrow> tqueue \<Rightarrow> (tqueue \<times> bool) outcome" where
  "tqueue_destroy env la tq =
     obind (mutex_destroy env (tq_lock tq)) (\<lambda>(m, _).
     obind (ll_destroy env la (tq_tql tq)) (\<lambda>(l, _).
     Ret (tq\<lparr>tq_lock := m, tq_tql := l\<rparr>, has_flag (tq_flags tq) TQ_ALLOC)))"

type_synonym tqstate = "tqueue \<times> lheap \<times> cpu_ctx"

definition tqueue_insert :: "ptr \<Rightarrow> ptr \<Rightarrow> ptr \<Rightarrow> tqstate \<Rightarrow> (ptr \<times> tqstate) outcome" where
  "tqueue_insert la item node = (\<lambda>(tq, h, cx).
     let (old, cx) = cpu_interrupt_set 0 cx in
     obind (mutex_acquire (cx_env cx) (tq_lock tq)) (\<lambda>m.
     oassert (tq_magic tq = TQ_MAGIC)
     (obind (ll_do_insert (cx_env cx) la (tq_tql tq) node item h) (\<lambda>(l, h).
      let tq = tq\<lparr>tq_tql := l\<rparr>;
          tq = (if tq_current tq = 0 then tq\<lparr>tq_current := ll_head (tq_tql tq)\<rparr> else tq);
          tq = tq\<lparr>tq_num := tq_num tq + 1\<rparr> in
      obind (mutex_release (cx_env cx) m) (\<lambda>m.
      Ret (node, tq\<lparr>tq_lock := m\<rparr>, h, snd (cpu_interrupt_set old cx)))))))"

definition tqueue_remove_nolock :: "kenv \<Rightarrow> ptr \<Rightarrow> ptr \<Rightarrow> tqueue \<Rightarrow> lheap \<Rightarrow> (tqueue \<times> lheap) outcome" where
  "tqueue_remove_nolock env la i tq h =
     oassert (tq_magic tq = TQ_MAGIC)
     (let tq = (if tq_current tq = i then tq\<lparr>tq_current := 0\<rparr> else tq) in
      obind (ll_do_remove env la (tq_tql tq) i False h) (\<lambda>(_, l, h).
      Ret (tq\<lparr>tq_tql := l, tq_num := tq_num tq - 1\<rparr>, h)))"

definition tqueue_remove :: "ptr \<Rightarrow> ptr \<Rightarrow> tqstate \<Rightarrow> tqstate outcome" where
  "tqueue_remove la node = (\<lambda>(tq, h, cx).
     let (old, cx) = cpu_interrupt_set 0 cx in
     obind (mutex_acquire (cx_env cx) (tq_lock tq)) (\<lambda>m.
     oassert (tq_magic tq = TQ_MAGIC)
     (let tq = (if tq_current tq = node then tq\<lparr>tq_current := 0\<rparr> else tq) in
      obind (ll_do_remove (cx_env cx) la (tq_tql tq) node False h) (\<lambda>(_, l, h).
      let tq = tq\<lparr>tq_tql := l, tq_num := tq_num tq - 1\<rparr> in
      obind (mutex_release (cx_env cx) m) (\<lambda>m.
      Ret (tq\<lparr>tq_lock := m\<rparr>, h, snd (cpu_interrupt_set old cx)))))))"

definition tqueue_next :: "tqstate \<Rightarrow> (ptr \<times> tqstate) outcome" where
  "tqueue_next = (\<lambda>(tq, h, cx).
     let (old, cx) = cpu_interrupt_set 0 cx in
     obind (mutex_acquire (cx_env cx) (tq_lock tq)) (\<lambda>m.
     oassert (tq_magic tq = TQ_MAGIC) (oassert (tq_num tq > 0)
     (obind (if tq_current tq \<noteq> 0 then
               deref h (tq_current tq) (\<lambda>c. Ret (tq\<lparr>tq_current := ln_next c\<rparr>))
             else Ret tq) (\<lambda>tq.
      let tq = (if tq_current tq = 0 then tq\<lparr>tq_current := ll_head (tq_tql tq)\<rparr> else tq) in
      oassert (tq_current tq \<noteq> 0)
      (deref h (tq_current tq) (\<lambda>c.
       oassert (ln_entry c \<noteq> 0)
       (obind (mutex_release (cx_env cx) m) (\<lambda>m.
        Ret (ln_entry c, tq\<lparr>tq_lock := m\<rparr>, h, snd (cpu_interrupt_set old cx)))))))))))"

section \<open>The queue as a list with a cursor\<close>

text \<open>An ordinary context for these routines: a running cpu whose flag agrees with the hardware.\<close>

definition ctx_ok :: "cpu_ctx \<Rightarrow> bool" where
  "ctx_ok cx \<longleftrightarrow> env_ok (cx_env cx) \<and> (\<exists>t. current_task (cx_env cx) = Some t \<and>
     has_flag (tk_cpu_flags t) CPU_RUNNING \<and> cx_if cx = has_flag (tk_cpu_flags t) CPU_INTER)"

lemma interrupt_save_restore:
  assumes "ctx_ok cx"
  obtains old cx' where "cpu_interrupt_set 0 cx = (old, cx')" "env_ok (cx_env cx')" "snd (cpu_interrupt_set old cx') = cx"
proof -
  obtain t where t: "current_task (cx_env cx) = Some t" "has_flag (tk_cpu_flags t) CPU_RUNNING"
      "cx_if cx = has_flag (tk_cpu_flags t) CPU_INTER" and ok: "env_ok (cx_env cx)"
    using assms by (auto simp: ctx_ok_def)
  let ?c = "tk_cpu_flags t"
  let ?cx = "cx\<lparr>cx_if := False, cx_env := (cx_env cx)\<lparr>current_task := Some (t\<lparr>tk_cpu_flags := ?c AND NOT CPU_INTER\<rparr>)\<rparr>\<rparr>"
  have run: "has_flag (?c AND NOT CPU_INTER) CPU_RUNNING"
  proof -
    have "bit ?c 1" using t(2) and_exp_eq_0_iff_not_bit [of ?c 1] by simp
    then have "bit (?c AND NOT (2 ^ 6)) 1" by (simp add: bit_simps)
    then show ?thesis using and_exp_eq_0_iff_not_bit [of "?c AND NOT (2 ^ 6)" 1] by simp
  qed
  have "snd (cpu_interrupt_set (?c AND CPU_INTER) ?cx) = cx"
  proof (cases "has_flag ?c CPU_INTER")
    case True
    then have "(?c AND NOT CPU_INTER) OR CPU_INTER = ?c" using flag_clear_set [of ?c 6] by simp
    with True t run show ?thesis
      by (cases cx; cases "cx_env cx"; cases t) (simp add: cpu_interrupt_set_def cpu_flags_upd_def Let_def)
  next
    case False
    then have "?c AND NOT CPU_INTER = ?c" using flag_clear_off [of ?c 6] by simp
    with False t show ?thesis
      by (cases cx; cases "cx_env cx"; cases t) (simp add: cpu_interrupt_set_def cpu_flags_upd_def Let_def)
  qed
  moreover have "env_ok (cx_env ?cx)" using ok t(1) by (simp add: env_ok_def)
  ultimately show ?thesis using that irq_enter [OF t(1)] by blast
qed

fun next_in :: "ptr \<Rightarrow> (ptr \<times> ptr) list \<Rightarrow> ptr" where
  "next_in c [] = 0"
| "next_in c (x # xs) = (if fst x = c then (case xs of [] \<Rightarrow> 0 | y # _ \<Rightarrow> fst y) else next_in c xs)"

text \<open>The cursor after \<^verbatim>\<open>tqueue_next\<close>: the successor, or the head at the end of the list.\<close>

definition advance :: "(ptr \<times> ptr) list \<Rightarrow> ptr \<Rightarrow> ptr" where
  "advance xs cur = (let n = (if cur \<noteq> 0 then next_in cur xs else 0) in if n = 0 then fst (hd xs) else n)"

datatype tqop = TInsert ptr ptr | TRemove ptr | TNext

fun tq_step :: "ptr \<Rightarrow> tqop \<Rightarrow> tqstate \<Rightarrow> (ptr \<times> tqstate) outcome" where
  "tq_step la (TInsert n e) s = tqueue_insert la e n s"
| "tq_step la (TRemove n) s = obind (tqueue_remove la n s) (\<lambda>s. Ret (0, s))"
| "tq_step la TNext s = tqueue_next s"

text \<open>The specification: a list of nodes with their tasks, and the cursor; \<open>pool\<close> are the nodes that exist.\<close>

fun ring_step :: "ptr list \<Rightarrow> tqop \<Rightarrow> (ptr \<times> ptr) list \<times> ptr \<Rightarrow> (ptr \<times> (ptr \<times> ptr) list \<times> ptr) option" where
  "ring_step pool (TInsert n e) (xs, cur) =
     (if n = 0 \<or> e = 0 \<or> n \<notin> set pool \<or> n \<in> fst ` set xs \<or> Suc (length xs) \<ge> 2 ^ 32 then None
      else Some (n, (n, e) # xs, if cur = 0 then n else cur))"
| "ring_step pool (TRemove n) (xs, cur) =
     (if n \<in> fst ` set xs then Some (0, filter (\<lambda>x. fst x \<noteq> n) xs, if cur = n then 0 else cur) else None)"
| "ring_step pool TNext (xs, cur) =
     (if xs = [] then None
      else let c = advance xs cur in Some (the (map_of xs c), xs, c))"

definition tq_rel :: "ptr \<Rightarrow> ptr list \<Rightarrow> cpu_ctx \<Rightarrow> tqstate \<Rightarrow> (ptr \<times> ptr) list \<times> ptr \<Rightarrow> bool" where
  "tq_rel la pool cx0 s a \<longleftrightarrow> (case s of (tq, h, cx) \<Rightarrow> case a of (xs, cur) \<Rightarrow>
     cx = cx0 \<and> ctx_ok cx \<and> mutex_free (tq_lock tq) \<and> tq_magic tq = TQ_MAGIC \<and>
     tq_num tq = of_nat (length xs) \<and> length xs < 2 ^ 32 \<and> tq_current tq = cur \<and>
     cur \<in> insert 0 (fst ` set xs) \<and> 0 \<notin> snd ` set xs \<and> set pool \<subseteq> dom h \<and>
     rw_free (ll_rwl (tq_tql tq)) \<and> ll_inv la (tq_tql tq) h xs)"

subsection \<open>The operations\<close>

lemma next_in_cell:
  "dseg ln_next ln_prev h p a (map fst xs) 0 b \<Longrightarrow> c \<in> fst ` set xs \<Longrightarrow> distinct (map fst xs) \<Longrightarrow>
     \<exists>d. h c = Some d \<and> ln_next d = next_in c xs"
proof (induction xs arbitrary: p a)
  case (Cons x xs)
  show ?case
  proof (cases "fst x = c")
    case True
    with Cons.prems show ?thesis by (cases xs) auto
  next
    case False
    then have "c \<in> fst ` set xs" using Cons.prems(2) by auto
    with Cons.IH Cons.prems False show ?thesis by auto
  qed
qed simp

lemma entry_cell:
  assumes "entries_at ln_entry h xs" "c \<in> fst ` set xs" "distinct (map fst xs)"
  shows "\<exists>d. h c = Some d \<and> ln_entry d = the (map_of xs c) \<and> the (map_of xs c) \<in> snd ` set xs"
proof -
  obtain e where e: "(c, e) \<in> set xs" using assms(2) by auto
  then have "map_of xs c = Some e" using assms(3) by simp
  moreover obtain d where "h c = Some d" "ln_entry d = e"
    using assms(1) e unfolding entries_at_def by fastforce
  moreover have "e \<in> snd ` set xs" using e by (rule rev_image_eqI) simp
  ultimately show ?thesis by simp
qed

lemma advance_in:
  assumes "xs \<noteq> []"
  shows "advance xs cur \<in> fst ` set xs"
proof -
  have "next_in c ys = 0 \<or> next_in c ys \<in> fst ` set ys" for c ys
  proof (induction ys)
    case (Cons y ys)
    show ?case
    proof (cases "fst y = c")
      case True
      then show ?thesis by (cases ys) simp_all
    next
      case False
      then have "next_in c (y # ys) = next_in c ys" by simp
      with Cons show ?thesis by (metis image_insert insertCI list.simps(15))
    qed
  qed simp
  then have "next_in cur xs = 0 \<or> next_in cur xs \<in> fst ` set xs" by blast
  moreover have "fst (hd xs) \<in> fst ` set xs" using assms by simp
  ultimately show ?thesis unfolding advance_def Let_def by presburger
qed

lemma tq_rel_distinct: "tq_rel la pool cx s (xs, cur) \<Longrightarrow> distinct (map fst xs)"
  by (cases s) (auto simp: tq_rel_def intro: ll_inv_distinct)

lemma tq_rel_nonnull: "tq_rel la pool cx s (xs, cur) \<Longrightarrow> 0 \<notin> fst ` set xs"
  using ll_inv_nonnull [of la _ _ xs 0] by (cases s) (auto simp: tq_rel_def)

lemma tqueue_next_rel:
  assumes "tq_rel la pool cx0 s (xs, cur)" "xs \<noteq> []"
  shows "\<exists>s'. tqueue_next s = Ret (the (map_of xs (advance xs cur)), s') \<and> tq_rel la pool cx0 s' (xs, advance xs cur)"
proof -
  obtain tq h cx where s: "s = (tq, h, cx)" by (cases s)
  have r: "cx = cx0" "ctx_ok cx" "mutex_free (tq_lock tq)" "tq_magic tq = TQ_MAGIC" "tq_num tq = of_nat (length xs)"
    "length xs < 2 ^ 32" "tq_current tq = cur" "cur \<in> insert 0 (fst ` set xs)" "0 \<notin> snd ` set xs"
    and inv: "ll_inv la (tq_tql tq) h xs"
    using assms(1) by (auto simp: s tq_rel_def)
  obtain old cx' where cx': "cpu_interrupt_set 0 cx = (old, cx')" "env_ok (cx_env cx')" "snd (cpu_interrupt_set old cx') = cx"
    using interrupt_save_restore [OF r(2)] by blast
  let ?c = "advance xs cur"
  note dist = ll_inv_distinct [OF inv]
  obtain b where seg: "dseg ln_next ln_prev h (ll_head (tq_tql tq)) 0 (map fst xs) 0 b" and ent: "entries_at ln_entry h xs"
    using inv by (auto simp: ll_inv_def)
  have c0: "?c \<noteq> 0" using ll_inv_nonnull [OF inv advance_in [OF assms(2)]] by blast
  obtain d where d: "h ?c = Some d" "ln_entry d = the (map_of xs ?c)" "the (map_of xs ?c) \<in> snd ` set xs"
    using entry_cell [OF ent advance_in [OF assms(2)] dist] by blast
  then have d0: "ln_entry d \<noteq> 0" using r(9) by metis
  have pos: "tq_num tq > 0"
    using r(5,6) assms(2) by (simp add: word_neq_0_conv [symmetric] word_of_nat_eq_0_iff nat_dvd_not_less)
  have hd: "ll_head (tq_tql tq) = fst (hd xs)" using ll_inv_head [OF inv] assms(2) by simp
  have cur: "(if tq_current tq \<noteq> 0 then deref h (tq_current tq) (\<lambda>c. Ret (tq\<lparr>tq_current := ln_next c\<rparr>)) else Ret tq) =
      Ret (tq\<lparr>tq_current := (if cur \<noteq> 0 then next_in cur xs else 0)\<rparr>)"
  proof (cases "cur = 0")
    case False
    then obtain d where "h cur = Some d" "ln_next d = next_in cur xs"
      using r(8) next_in_cell [OF seg _ dist, of cur] by blast
    with False r(7) show ?thesis by simp
  qed (use r(7) in simp)
  have adv: "?c = (if cur \<noteq> 0 \<and> next_in cur xs \<noteq> 0 then next_in cur xs else ll_head (tq_tql tq))"
    by (simp add: advance_def hd Let_def)
  have "tqueue_next s = Ret (the (map_of xs ?c), tq\<lparr>tq_current := ?c\<rparr>, h, cx)"
    using r(3,4) pos cx' cur c0 d(1,2) d0 adv
    by (cases "cur = 0"; cases "next_in cur xs = 0") (simp_all add: tqueue_next_def s lock_simps)
  then show ?thesis using assms advance_in [OF assms(2), of cur] by (auto simp: tq_rel_def s)
qed

lemma tqueue_insert_rel:
  assumes "tq_rel la pool cx0 s (xs, cur)" "n \<noteq> 0" "e \<noteq> 0" "n \<in> set pool" "n \<notin> fst ` set xs" "Suc (length xs) < 2 ^ 32"
  shows "\<exists>s'. tqueue_insert la e n s = Ret (n, s') \<and> tq_rel la pool cx0 s' ((n, e) # xs, if cur = 0 then n else cur)"
proof -
  obtain tq h cx where s: "s = (tq, h, cx)" by (cases s)
  have r: "ctx_ok cx" "mutex_free (tq_lock tq)" "tq_magic tq = TQ_MAGIC" "rw_free (ll_rwl (tq_tql tq))"
    "ll_inv la (tq_tql tq) h xs" and p: "set pool \<subseteq> dom h"
    using assms(1) by (auto simp: s tq_rel_def)
  obtain old cx' where cx': "cpu_interrupt_set 0 cx = (old, cx')" "env_ok (cx_env cx')" "snd (cpu_interrupt_set old cx') = cx"
    using interrupt_save_restore [OF r(1)] by blast
  obtain c0 where "h n = Some c0" using p assms(4) by blast
  then obtain l' h' where ins: "ll_do_insert (cx_env cx') la (tq_tql tq) n e h = Ret (l', h')"
      "ll_rel (cx_env cx') la (l', h') ((n, e) # xs)" "dom h' = dom h" "ll_head l' = n"
    using ll_do_insert_rel [of "cx_env cx'" la "tq_tql tq" h xs n c0 e] cx'(2) r(4,5) assms(2,5) by (auto simp: ll_rel_def)
  have "tqueue_insert la e n s = Ret (n, tq\<lparr>tq_tql := l', tq_current := (if tq_current tq = 0 then n else tq_current tq),
      tq_num := tq_num tq + 1\<rparr>, h', cx)"
    using r(2,3) cx' ins by (simp add: tqueue_insert_def s lock_simps Let_def)
  then show ?thesis using assms ins(2,3) by (clarsimp simp: tq_rel_def s ll_rel_def)
qed

lemma tqueue_remove_rel:
  assumes "tq_rel la pool cx0 s (us @ (n, e) # vs, cur)"
  shows "\<exists>s'. tqueue_remove la n s = Ret s' \<and> tq_rel la pool cx0 s' (us @ vs, if cur = n then 0 else cur)"
proof -
  obtain tq h cx where s: "s = (tq, h, cx)" by (cases s)
  have r: "ctx_ok cx" "mutex_free (tq_lock tq)" "tq_magic tq = TQ_MAGIC" "rw_free (ll_rwl (tq_tql tq))"
    "ll_inv la (tq_tql tq) h (us @ (n, e) # vs)" and cur: "tq_current tq = cur"
    using assms by (auto simp: s tq_rel_def)
  obtain old cx' where cx': "cpu_interrupt_set 0 cx = (old, cx')" "env_ok (cx_env cx')" "snd (cpu_interrupt_set old cx') = cx"
    using interrupt_save_restore [OF r(1)] by blast
  obtain l' h' where rem: "ll_do_remove (cx_env cx') la (tq_tql tq) n False h = Ret (n, l', h')"
      "ll_inv la l' h' (us @ vs)" "ll_rwl l' = ll_rwl (tq_tql tq)" "dom h' = dom h"
    using ll_do_remove_inv [OF r(5), of False "cx_env cx'"] cx'(2) r(4) by blast
  have "tqueue_remove la n s = Ret (tq\<lparr>tq_current := (if cur = n then 0 else cur), tq_tql := l', tq_num := tq_num tq - 1\<rparr>, h', cx)"
    using r(2,3) cx' rem(1) cur by (cases "cur = n") (simp_all add: tqueue_remove_def s lock_simps)
  moreover have "(if cur = n then 0 else cur) \<in> insert 0 (fst ` set (us @ vs))" "0 \<notin> snd ` set (us @ vs)"
    "set pool \<subseteq> dom h" "length us + length vs < 2 ^ 32" "tq_num tq - 1 = of_nat (length (us @ vs))"
    using assms by (auto simp: tq_rel_def s)
  ultimately show ?thesis using assms rem(2-4) by (clarsimp simp: tq_rel_def s)
qed

lemma tqueue_create_rel:
  assumes "ctx_ok cx" "set pool \<subseteq> dom h" "la \<noteq> 0" "\<forall>c \<in> ran h. ln_memberof c \<noteq> la"
  shows "tq_rel la pool cx (tqueue_create None f, h, cx) ([], 0)"
  using assms(1,2) ll_create_inv [OF assms(3,4), of False LL_LOCKLESS]
  by (simp add: tq_rel_def tqueue_create_def zero_tqueue_def Let_def mutex_create_free ll_create_free)

interpretation tqsim: simulation "tq_step la" "ring_step pool" "tq_rel la pool cx" for la pool cx
proof unfold_locales
  fix s a x r a'
  assume rel: "tq_rel la pool cx s a" and step: "ring_step pool x a = Some (r, a')"
  obtain xs cur where a: "a = (xs, cur)" by (cases a)
  show "\<exists>s'. tq_step la x s = Ret (r, s') \<and> tq_rel la pool cx s' a'"
  proof (cases x)
    case (TInsert n e)
    with step tqueue_insert_rel [OF rel [unfolded a], of n e] show ?thesis
      by (auto simp: a split: if_splits)
  next
    case (TRemove n)
    then obtain us e vs where xs: "xs = us @ (n, e) # vs"
      using step a by (auto split: if_splits dest!: split_list)
    have "distinct (map fst xs)" using rel a by (auto intro: tq_rel_distinct)
    then have "\<forall>x \<in> set (us @ vs). fst x \<noteq> n" using xs by auto
    then have "filter (\<lambda>x. fst x \<noteq> n) xs = us @ vs" using xs filter_True [of "us @ vs" "\<lambda>x. fst x \<noteq> n"] by simp
    with TRemove step tqueue_remove_rel [of la pool cx s us n e vs cur] rel show ?thesis
      by (auto simp: a xs)
  next
    case TNext
    with step tqueue_next_rel [OF rel [unfolded a]] show ?thesis
      by (auto simp: a Let_def split: if_splits)
  qed
qed


definition run_ctx :: cpu_ctx where
  "run_ctx = \<lparr>cx_env = \<lparr>kernel_state_flags = KSF_SMP_ENABLE, current_task =
     Some \<lparr>tk_pid = 1, tk_flags = 0, tk_cpu_flags = CPU_INTER OR CPU_RUNNING\<rparr>\<rparr>, cx_if = True\<rparr>"

lemma run_ctx_ok: "ctx_ok run_ctx"
  by (simp add: ctx_ok_def run_ctx_def env_ok_def)

definition three_nodes :: lheap where
  "three_nodes = [8 \<mapsto> zero_node, 16 \<mapsto> zero_node, 24 \<mapsto> zero_node]"

lemma three_nodes_ok: "set [8, 16, 24] \<subseteq> dom three_nodes" "\<forall>c \<in> ran three_nodes. ln_memberof c \<noteq> 64"
  by (auto simp: three_nodes_def ran_def zero_node_def split: if_splits)


section \<open>Round robin\<close>

lemma next_in_nth:
  "distinct (map fst xs) \<Longrightarrow> i < length xs \<Longrightarrow>
     next_in (fst (xs ! i)) xs = (if Suc i < length xs then fst (xs ! Suc i) else 0)"
proof (induction xs arbitrary: i)
  case (Cons x xs)
  show ?case
  proof (cases i)
    case 0
    then show ?thesis by (cases xs) auto
  next
    case (Suc j)
    then have "fst (xs ! j) \<in> fst ` set xs" using Cons.prems(2) by simp
    moreover have "fst x \<notin> fst ` set xs" using Cons.prems(1) by simp
    ultimately have "fst x \<noteq> fst (xs ! j)" by metis
    with Cons Suc show ?thesis by simp
  qed
qed simp

lemma advance_nth:
  assumes "distinct (map fst xs)" "i < length xs" "0 \<notin> fst ` set xs"
  shows "advance xs (fst (xs ! i)) = fst (xs ! (Suc i mod length xs))"
proof -
  have nz: "fst (xs ! k) \<noteq> 0" if "k < length xs" for k
    using assms(3) that by (metis image_eqI nth_mem)
  show ?thesis
  proof (cases "Suc i < length xs")
    case True
    then show ?thesis using nz [of i] nz [of "Suc i"] next_in_nth [OF assms(1,2)] assms(2)
      by (simp add: advance_def)
  next
    case False
    then have "Suc i = length xs" "xs \<noteq> []" using assms(2) by auto
    then show ?thesis using nz [of i] next_in_nth [OF assms(1,2)] assms(2)
      by (simp add: advance_def hd_conv_nth)
  qed
qed

lemma ring_turns:
  assumes "distinct (map fst xs)" "0 \<notin> fst ` set xs" "i < length xs"
  shows "run_abs (ring_step pool) (replicate k TNext) (xs, fst (xs ! i)) =
     Some (map (\<lambda>j. snd (xs ! ((Suc i + j) mod length xs))) [0..<k], xs, fst (xs ! ((i + k) mod length xs)))"
  using assms(3)
proof (induction k arbitrary: i)
  case (Suc k)
  let ?i = "Suc i mod length xs"
  have i: "?i < length xs" using Suc.prems by (intro mod_less_divisor) linarith
  have "map_of xs (fst (xs ! ?i)) = Some (snd (xs ! ?i))"
    using assms(1) i by simp
  moreover have "(Suc ?i + j) mod length xs = Suc (Suc (i + j)) mod length xs" for j
    using mod_add_left_eq [of "Suc i" "length xs" "Suc j"] by simp
  moreover have "(?i + k) mod length xs = Suc (i + k) mod length xs" by (simp add: mod_add_left_eq)
  moreover have "xs \<noteq> []" using i by auto
  ultimately show ?case
    using Suc.IH [OF i] advance_nth [OF assms(1) Suc.prems assms(2)]
    by (simp add: Let_def map_upt_Suc del: upt_Suc)
qed simp

lemma mset_rotate: "mset (rotate k xs) = mset xs"
  by (metis rotate_drop_take mset_append add.commute append_take_drop_id)

text \<open>C9: The scheduler's cursor is fair.  With \<open>n\<close> tasks in the queue and the cursor on one of them, \<open>n\<close>
  calls of \<^verbatim>\<open>tqueue_next\<close> return every task exactly once, in queue order starting after the cursor,
  and leave the cursor where it was.\<close>

theorem tqueue_next_round_robin:
  assumes "tq_rel la pool cx s (xs, fst (xs ! i))" "i < length xs"
  shows "\<exists>s'. run_ops (tq_step la) (replicate (length xs) TNext) s = Ret (map snd (rotate (Suc i) xs), s') \<and>
     mset (map snd (rotate (Suc i) xs)) = mset (map snd xs) \<and> tq_rel la pool cx s' (xs, fst (xs ! i))"
proof -
  have d: "distinct (map fst xs)" using assms(1) by (rule tq_rel_distinct)
  have nz: "0 \<notin> fst ` set xs"
    using assms(1) by (rule tq_rel_nonnull)
  have "map (\<lambda>j. snd (xs ! ((Suc i + j) mod length xs))) [0..<length xs] = map snd (rotate (Suc i) xs)"
    by (rule nth_equalityI) (simp_all add: nth_rotate del: rotate_Suc)
  with ring_turns [OF d nz assms(2), of pool "length xs"] assms(2)
  have "run_abs (ring_step pool) (replicate (length xs) TNext) (xs, fst (xs ! i)) =
      Some (map snd (rotate (Suc i) xs), xs, fst (xs ! i))" by simp
  from tqsim.run_simulates [OF assms(1) this] show ?thesis by (simp add: mset_rotate del: rotate_Suc)
qed

theorem tqueue_next_round_robin_witness:
  "\<exists>s. tq_rel 64 [8, 16, 24] run_ctx s ([(24, 103), (16, 102), (8, 101)], 24) \<and>
     (\<exists>s'. run_ops (tq_step 64) [TNext, TNext, TNext] s = Ret ([102, 101, 103], s'))"
proof -
  let ?xs = "[(24, 103), (16, 102), (8, 101)] :: (ptr \<times> ptr) list"
  let ?ops = "[TInsert 8 101, TInsert 16 102, TInsert 24 103, TNext]"
  have "tq_rel 64 [8, 16, 24] run_ctx (tqueue_create None 0, three_nodes, run_ctx) ([], 0)"
    by (rule tqueue_create_rel [OF run_ctx_ok three_nodes_ok(1) _ three_nodes_ok(2)]) simp
  moreover have "run_abs (ring_step [8, 16, 24]) ?ops ([], 0) = Some ([8, 16, 24, 103], ?xs, fst (?xs ! 0))"
    by (simp add: advance_def)
  ultimately obtain s where s: "tq_rel 64 [8, 16, 24] run_ctx s (?xs, fst (?xs ! 0))"
    using tqsim.run_simulates by blast
  obtain s' where "run_ops (tq_step 64) (replicate (length ?xs) TNext) s = Ret (map snd (rotate (Suc 0) ?xs), s')"
    using tqueue_next_round_robin [OF s] by auto
  then have "run_ops (tq_step 64) [TNext, TNext, TNext] s = Ret ([102, 101, 103], s')"
    by (simp add: numeral_3_eq_3 del: run_ops.simps tq_step.simps)
  with s show ?thesis by fastforce
qed

end
