(* ===== verification/Bytes.thy ===== *)
theory Bytes
  imports Prelude
begin

unbundle bit_operations_syntax

text \<open>
  Byte-addressed memory and the 64-bit loads and stores that the optimised routines of
  \<^verbatim>\<open>library/string\<close> do, with the word tricks they share: \<^verbatim>\<open>DETECTNULL\<close> and \<^verbatim>\<open>DETECTCHAR\<close>.  A load is little
  endian, as on x86.
\<close>

section \<open>Loads and stores\<close>

type_synonym mem = "nat \<Rightarrow> u8"

fun le_val :: "u8 list \<Rightarrow> int" where
  "le_val [] = 0"
| "le_val (b # bs) = uint b + 256 * le_val bs"

definition mem_bytes :: "mem \<Rightarrow> nat \<Rightarrow> nat \<Rightarrow> u8 list" where
  "mem_bytes m a n = map (\<lambda>i. m (a + i)) [0..<n]"

definition load64 :: "mem \<Rightarrow> nat \<Rightarrow> u64" where
  "load64 m a = word_of_int (le_val (mem_bytes m a 8))"

definition byte_of :: "u64 \<Rightarrow> nat \<Rightarrow> u8" where
  "byte_of w i = ucast (drop_bit (8 * i) w)"

definition store64 :: "mem \<Rightarrow> nat \<Rightarrow> u64 \<Rightarrow> mem" where
  "store64 m a w = (\<lambda>x. if a \<le> x \<and> x < a + 8 then byte_of w (x - a) else m x)"

definition UNALIGNED :: "nat \<Rightarrow> bool" where
  "UNALIGNED a \<longleftrightarrow> a mod 8 \<noteq> 0"

definition DETECTNULL :: "u64 \<Rightarrow> u64" where
  "DETECTNULL x = (x - 0x0101010101010101) AND NOT x AND 0x8080808080808080"

definition DETECTCHAR :: "u64 \<Rightarrow> u64 \<Rightarrow> u64" where
  "DETECTCHAR x m = DETECTNULL (x XOR m)"

text \<open>The mask that \<^verbatim>\<open>strchr\<close> computes: \<^verbatim>\<open>for (j = 8; j < 64; j <<= 1) mask = (mask << j) | mask\<close>.\<close>

definition byte_mask :: "u8 \<Rightarrow> u64" where
  "byte_mask c = (let k = ucast c; k = push_bit 8 k OR k; k = push_bit 16 k OR k in push_bit 32 k OR k)"

section \<open>Bits of a load\<close>

lemma bit_add_256: "0 \<le> x \<Longrightarrow> x < 2 ^ n \<Longrightarrow> bit (x + 2 ^ n * y) k \<longleftrightarrow> (if k < n then bit x k else bit y (k - n))"
  for x y :: int
proof -
  assume x: "0 \<le> x" "x < 2 ^ n"
  then have "x + 2 ^ n * y = concat_bit n x y"
    by (simp add: concat_bit_eq take_bit_int_eq_self push_bit_eq_mult mult.commute)
  then show ?thesis by (auto simp: bit_concat_bit_iff)
qed

lemma le_val_bounds: "0 \<le> le_val bs \<and> le_val bs < 2 ^ (8 * length bs)"
proof (induction bs)
  case (Cons b bs)
  have "uint b < 256" using uint_lt2p [of b] by simp
  with Cons have "le_val (b # bs) < 256 * 2 ^ (8 * length bs)" by simp
  with Cons show ?case by (simp add: power_add)
qed simp

lemma bit_le_val: "bit (le_val bs) k \<longleftrightarrow> k < 8 * length bs \<and> bit (bs ! (k div 8)) (k mod 8)"
proof (induction bs arbitrary: k)
  case (Cons b bs)
  have "uint b < 2 ^ 8" using uint_lt2p [of b] by simp
  then have "bit (le_val (b # bs)) k \<longleftrightarrow> (if k < 8 then bit (uint b) k else bit (le_val bs) (k - 8))"
    using bit_add_256 [of "uint b" 8 "le_val bs" k] by simp
  also have "\<dots> \<longleftrightarrow> k < 8 * length (b # bs) \<and> bit ((b # bs) ! (k div 8)) (k mod 8)"
    using Cons.IH [of "k - 8"] by (auto simp: bit_uint_iff le_div_geq le_mod_geq not_less)
  finally show ?case .
qed simp

lemma le_val_append: "le_val (us @ vs) = le_val us + 2 ^ (8 * length us) * le_val vs"
  by (induction us) (simp_all add: power_add algebra_simps)

lemma bit_load64: "bit (load64 m a) k \<longleftrightarrow> k < 64 \<and> bit (m (a + k div 8)) (k mod 8)"
  by (auto simp: load64_def bit_word_of_int_iff bit_le_val mem_bytes_def)

lemma bit_byte_of: "bit (byte_of w i) j \<longleftrightarrow> j < 8 \<and> bit w (8 * i + j)"
  by (auto simp: byte_of_def bit_simps)

lemma byte_of_load64 [simp]: "i < 8 \<Longrightarrow> byte_of (load64 m a) i = m (a + i)"
  by (rule bit_eqI) (auto simp: bit_byte_of bit_load64)

lemma store64_load64: "store64 m a (load64 m' b) = (\<lambda>x. if a \<le> x \<and> x < a + 8 then m' (b + (x - a)) else m x)"
  by (rule ext) (auto simp: store64_def)

definition bytes_of :: "u64 \<Rightarrow> u8 list" where
  "bytes_of w = map (byte_of w) [0..<8]"

lemma word_of_bytes: "w = word_of_int (le_val (bytes_of w))"
proof (rule bit_eqI)
  fix k
  assume "possible_bit TYPE(u64) k"
  then show "bit w k = bit (word_of_int (le_val (bytes_of w)) :: u64) k"
    by (auto simp: bit_word_of_int_iff bit_le_val bytes_of_def bit_byte_of)
qed

lemma u64_eq_bytes: "v = w \<longleftrightarrow> (\<forall>i < 8. byte_of v i = byte_of w i)"
proof
  assume *: "\<forall>i < 8. byte_of v i = byte_of w i"
  then have "bytes_of v = bytes_of w" by (auto simp: bytes_of_def)
  then show "v = w" using word_of_bytes [of v] word_of_bytes [of w] by simp
qed simp

lemma load64_eq_iff: "load64 m a = load64 m' b \<longleftrightarrow> (\<forall>i < 8. m (a + i) = m' (b + i))"
  by (subst u64_eq_bytes) simp

section \<open>Detecting a null byte\<close>

lemma bit_u8_7: "bit (b :: u8) 7 \<longleftrightarrow> 128 \<le> uint b"
proof -
  have b: "0 \<le> uint b" "uint b < 256" using uint_lt2p [of b] by simp_all
  then have "uint b div 128 = (if 128 \<le> uint b then 1 else 0)"
    by (auto simp: div_pos_geq)
  moreover have "bit b 7 = odd (uint b div 2 ^ 7)"
    using bit_iff_odd [of "uint b" 7] by (simp add: bit_uint_iff)
  ultimately show ?thesis by simp
qed

lemma uint_pred: "b \<noteq> 0 \<Longrightarrow> uint (b - 1) = uint b - 1" for b :: u8
proof -
  assume "b \<noteq> 0"
  then have "uint b \<noteq> 0" by (simp add: unsigned_eq_0_iff)
  then have "1 \<le> uint b" using uint_ge_0 [of b] by linarith
  then have "1 \<le> b" by (simp add: word_le_def)
  then show ?thesis by (simp add: uint_minus_simple_alt)
qed

lemma no_borrow: "0 \<notin> set bs \<Longrightarrow> le_val bs - le_val (replicate (length bs) 1) = le_val (map (\<lambda>b. b - 1) bs)"
proof (induction bs)
  case (Cons b bs)
  then have "uint (b - 1) = uint b - 1" by (intro uint_pred) simp
  with Cons show ?case by simp
qed simp

lemma replicate_8: "replicate 8 x = [x, x, x, x, x, x, x, x]"
  by (simp add: numeral_eq_Suc)

lemma ones_val: "(0x0101010101010101 :: u64) = word_of_int (le_val (replicate 8 1))"
  by (simp add: replicate_8)

lemma bit_high: "bit (0x8080808080808080 :: u64) k \<longleftrightarrow> k < 64 \<and> k mod 8 = 7"
proof -
  have w: "(0x8080808080808080 :: u64) = word_of_int (le_val (replicate 8 0x80))"
    by (simp add: replicate_8)
  have b: "bit (0x80 :: u8) j \<longleftrightarrow> j = 7" for j
    using bit_exp_iff [of 7 j, where 'a = u8] by auto
  have "k < 64 \<Longrightarrow> k div 8 < 8" by simp
  then show ?thesis unfolding w bit_word_of_int_iff bit_le_val
    using b [of "k mod 8"] by (cases "k < 64") simp_all
qed

lemma word_minus_ones: "w - 0x0101010101010101 = word_of_int (le_val (bytes_of w) - le_val (replicate 8 1))"
proof -
  have "w - 0x0101010101010101 = word_of_int (le_val (bytes_of w)) - word_of_int (le_val (replicate 8 1))"
    by (rule arg_cong2 [where f = "(-)"], rule word_of_bytes, rule ones_val)
  then show ?thesis by (simp only: wi_hom_sub)
qed

lemma detect_none:
  assumes "\<forall>i < 8. byte_of w i \<noteq> 0"
  shows "DETECTNULL w = 0"
proof -
  let ?bs = "bytes_of w"
  have l: "length ?bs = 8" and nz: "0 \<notin> set ?bs" and n: "\<And>i. i < 8 \<Longrightarrow> ?bs ! i = byte_of w i"
    using assms by (auto simp: bytes_of_def)
  have sub: "w - 0x0101010101010101 = word_of_int (le_val (map (\<lambda>b. b - 1) ?bs))"
    using word_minus_ones [of w] no_borrow [OF nz] by (simp only: l)
  have "\<not> bit (DETECTNULL w) k" for k
  proof
    assume "bit (DETECTNULL w) k"
    then have *: "bit (w - 0x0101010101010101) k" "\<not> bit w k" "k < 64" "k mod 8 = 7"
      unfolding DETECTNULL_def bit_and_iff bit_not_iff bit_high by auto
    let ?b = "byte_of w (k div 8)"
    have k8: "k div 8 < 8" "8 * (k div 8) + 7 = k" using *(3,4) by simp_all presburger
    have "bit (?b - 1) 7"
      using *(1) *(4) k8 n [OF k8(1)] by (simp add: sub bit_word_of_int_iff bit_le_val l)
    moreover have "\<not> bit ?b 7" using *(2) k8 by (simp add: bit_byte_of)
    moreover have "?b \<noteq> 0" using assms k8(1) by blast
    ultimately show False
    proof -
      have "uint (?b - 1) = uint ?b - 1" using \<open>?b \<noteq> 0\<close> by (rule uint_pred)
      then show False using \<open>bit (?b - 1) 7\<close> \<open>\<not> bit ?b 7\<close> by (simp add: bit_u8_7)
    qed
  qed
  then show ?thesis by (intro bit_eqI) simp
qed

lemma detect_some:
  assumes "i < 8" "byte_of w i = 0"
  shows "DETECTNULL w \<noteq> 0"
proof -
  obtain us vs where bs: "bytes_of w = us @ 0 # vs" and nz: "0 \<notin> set us"
  proof -
    have "0 \<in> set (bytes_of w)" using assms by (force simp: bytes_of_def)
    then show thesis using that by (metis split_list_first)
  qed
  let ?l = "length us" and ?z = "le_val vs - le_val (replicate (length vs) 1)"
  have len: "length (bytes_of w) = 8" by (simp add: bytes_of_def)
  then have l: "?l < 8" "8 = ?l + Suc (length vs)" using bs by simp_all
  have "le_val (replicate 8 1) = le_val (replicate ?l 1) + 2 ^ (8 * ?l) * (1 + 256 * le_val (replicate (length vs) 1))"
    by (subst l(2)) (simp only: replicate_add le_val_append replicate_Suc le_val.simps length_replicate uint_1)
  then have "le_val (bytes_of w) - le_val (replicate 8 1) =
      (le_val us - le_val (replicate ?l 1)) + 2 ^ (8 * ?l) * (256 * ?z - 1)"
    by (simp add: bs le_val_append algebra_simps)
  also have "\<dots> = le_val (map (\<lambda>b. b - 1) us) + 2 ^ (8 * ?l) * (255 + 2 ^ 8 * (?z - 1))"
    by (simp add: no_borrow [OF nz])
  finally have "bit (le_val (bytes_of w) - le_val (replicate 8 1)) (8 * ?l + 7)"
    using le_val_bounds [of "map (\<lambda>b. b - 1) us"] bit_add_256 [of 255 8 "?z - 1" 7]
    by (simp add: bit_add_256)
  then have "bit (w - 0x0101010101010101) (8 * ?l + 7)"
    unfolding word_minus_ones bit_word_of_int_iff using l(1) by simp
  moreover have "\<not> bit w (8 * ?l + 7)"
  proof -
    have "byte_of w ?l = 0" using bs l(1) by (metis (no_types, lifting) add.left_neutral bytes_of_def diff_zero length_upt nth_append_length nth_map nth_upt)
    then show ?thesis using bit_byte_of [of w ?l 7] by simp
  qed
  ultimately have "bit (DETECTNULL w) (8 * ?l + 7)"
    unfolding DETECTNULL_def bit_and_iff bit_not_iff bit_high using l(1) by simp
  then show ?thesis by auto
qed

lemma detectnull_iff: "DETECTNULL w \<noteq> 0 \<longleftrightarrow> (\<exists>i < 8. byte_of w i = 0)"
  using detect_none detect_some by blast

lemma detectnull_load: "DETECTNULL (load64 m a) \<noteq> 0 \<longleftrightarrow> (\<exists>i < 8. m (a + i) = 0)"
  by (auto simp: detectnull_iff)

lemma mask_double:
  assumes "\<And>k. bit x k \<longleftrightarrow> k < 8 * n \<and> bit c (k mod 8)" "16 * n \<le> 64"
  shows "bit (push_bit (8 * n) x OR x :: u64) k \<longleftrightarrow> k < 16 * n \<and> bit (c :: u8) (k mod 8)"
proof -
  have iff: "bit (push_bit (8 * n) x OR x) k \<longleftrightarrow> 8 * n \<le> k \<and> k < 64 \<and> bit x (k - 8 * n) \<or> bit x k"
    by (simp add: bit_or_iff bit_push_bit_iff)
  show ?thesis
  proof (cases "8 * n \<le> k")
    case True
    then obtain d where "k = 8 * n + d" using le_Suc_ex by blast
    then show ?thesis unfolding iff assms(1) using assms(2) by auto
  next
    case False
    then show ?thesis unfolding iff assms(1) by auto
  qed
qed

lemma bit_byte_mask: "bit (byte_mask c) k \<longleftrightarrow> k < 64 \<and> bit c (k mod 8)"
proof -
  have 0: "bit (ucast c :: u64) k \<longleftrightarrow> k < 8 * 1 \<and> bit c (k mod 8)" for k
  proof (cases "k < 8")
    case False
    then have "\<not> bit c k" using bit_imp_le_length [of c k] by auto
    with False show ?thesis by (simp add: bit_ucast_iff)
  qed (simp add: bit_ucast_iff)
  note 1 = mask_double [where n = 1, OF 0, simplified]
  note 2 = mask_double [where n = 2, simplified, OF 1]
  note 3 = mask_double [where n = 4, simplified, OF 2]
  show ?thesis using 3 [of k] by (simp add: byte_mask_def Let_def)
qed

lemma byte_of_mask: "i < 8 \<Longrightarrow> byte_of (byte_mask c) i = c"
  by (rule bit_eqI) (auto simp: bit_byte_of bit_byte_mask)

lemma byte_of_xor: "byte_of (v XOR w) i = byte_of v i XOR byte_of w i"
  by (rule bit_eqI) (auto simp: bit_byte_of bit_xor_iff)

lemma xor_zero: "v XOR w = 0 \<longleftrightarrow> v = w" for v w :: u8
proof
  assume "v XOR w = 0"
  moreover have "v = (v XOR w) XOR w" by (simp add: xor.assoc)
  ultimately show "v = w" by simp
qed simp

lemma detectchar_load: "DETECTCHAR (load64 m a) (byte_mask c) \<noteq> 0 \<longleftrightarrow> (\<exists>i < 8. m (a + i) = c)"
  by (auto simp: DETECTCHAR_def detectnull_iff byte_of_xor byte_of_mask xor_zero)

text \<open>C11: The word test of the string routines is exact: \<^verbatim>\<open>DETECTNULL\<close> of a 64-bit word is nonzero precisely
  when one of its eight bytes is zero, and \<^verbatim>\<open>DETECTCHAR\<close> with the mask built from a character precisely
  when one of its bytes is that character.\<close>

theorem detect_exact:
  "(DETECTNULL (load64 m a) \<noteq> 0 \<longleftrightarrow> (\<exists>i < 8. m (a + i) = 0)) \<and>
   (DETECTCHAR (load64 m a) (byte_mask c) \<noteq> 0 \<longleftrightarrow> (\<exists>i < 8. m (a + i) = c))"
  by (simp add: detectnull_load detectchar_load)

end
