(* ===== verification/Strings.thy ===== *)
theory Strings
  imports Bytes "HOL-Library.Monad_Syntax"
begin

text \<open>
  The string and memory routines of \<^verbatim>\<open>library/string\<close> and \<^verbatim>\<open>library/klibc\<close>, on a flat byte memory.  The
  optimised routines work a 64-bit word at a time.  A loop that runs until it meets a byte in
  memory may not end, so it is a \<open>partial_function\<close> into \<open>option\<close>: \<open>None\<close> is not returning.  The theorems
  show that each routine returns and computes what its byte-at-a-time reference does.
\<close>

section \<open>Searching\<close>

text \<open>\<^verbatim>\<open>while (!stop(*p)) p++\<close> on bytes and on aligned words.\<close>

partial_function (option) byte_scan :: "(u8 \<Rightarrow> bool) \<Rightarrow> mem \<Rightarrow> nat \<Rightarrow> nat option" where
  "byte_scan stop m a = (if stop (m a) then Some a else byte_scan stop m (a + 1))"

partial_function (option) word_scan :: "(u64 \<Rightarrow> bool) \<Rightarrow> mem \<Rightarrow> nat \<Rightarrow> nat option" where
  "word_scan stop m a = (if stop (load64 m a) then Some a else word_scan stop m (a + 8))"

text \<open>The loop that aligns the pointer: \<open>Inl\<close> is the early exit, \<open>Inr\<close> the aligned address.\<close>

function align_scan :: "(u8 \<Rightarrow> bool) \<Rightarrow> mem \<Rightarrow> nat \<Rightarrow> nat + nat" where
  "align_scan stop m a =
     (if UNALIGNED a then (if stop (m a) then Inl a else align_scan stop m (a + 1)) else Inr a)"
  by auto

lemma align_decreases: "UNALIGNED a \<Longrightarrow> (8 - (a + 1) mod 8) mod 8 < (8 - a mod 8) mod 8" for a :: nat
  by (auto simp: UNALIGNED_def mod_Suc)

termination align_scan
  by (relation "measure (\<lambda>(stop, m, a). (8 - a mod 8) mod 8)") (use align_decreases in auto)

definition strlen :: "mem \<Rightarrow> nat \<Rightarrow> nat option" where
  "strlen m str =
     (case align_scan (\<lambda>b. b = 0) m str of
        Inl a \<Rightarrow> Some (a - str)
      | Inr a \<Rightarrow> do {
          a \<leftarrow> word_scan (\<lambda>w. DETECTNULL w \<noteq> 0) m a;
          a \<leftarrow> byte_scan (\<lambda>b. b = 0) m a;
          Some (a - str) })"

definition strchr :: "mem \<Rightarrow> nat \<Rightarrow> u8 \<Rightarrow> ptr option" where
  "strchr m s c =
     (if c = 0 then
        (case align_scan (\<lambda>b. b = 0) m s of
           Inl a \<Rightarrow> Some a
         | Inr a \<Rightarrow> do {
             a \<leftarrow> word_scan (\<lambda>w. DETECTNULL w \<noteq> 0) m a;
             byte_scan (\<lambda>b. b = 0) m a })
      else
        (case align_scan (\<lambda>b. b = 0 \<or> b = c) m s of
           Inl a \<Rightarrow> Some (if m a = 0 then 0 else a)
         | Inr a \<Rightarrow> do {
             a \<leftarrow> word_scan (\<lambda>w. DETECTNULL w \<noteq> 0 \<or> DETECTCHAR w (byte_mask c) \<noteq> 0) m a;
             a \<leftarrow> byte_scan (\<lambda>b. b = 0 \<or> b = c) m a;
             Some (if m a = c then a else 0) }))"

partial_function (option) strrchr_loop :: "mem \<Rightarrow> nat \<Rightarrow> u8 \<Rightarrow> ptr \<Rightarrow> ptr option" where
  "strrchr_loop m s c found =
     do { s \<leftarrow> strchr m s c; if s = 0 then Some found else strrchr_loop m (s + 1) c s }"

definition strrchr :: "mem \<Rightarrow> nat \<Rightarrow> u8 \<Rightarrow> ptr option" where
  "strrchr m s c = (if c \<noteq> 0 then strrchr_loop m s c 0 else strchr m s c)"

fun strnlen :: "mem \<Rightarrow> nat \<Rightarrow> nat \<Rightarrow> nat" where
  "strnlen m a 0 = 0"
| "strnlen m a (Suc n) = (if m a = 0 then 0 else Suc (strnlen m (a + 1) n))"

text \<open>
  \<^verbatim>\<open>memchr\<close>: the alignment loop counts the length down as well; its early exits are the not-found and
  found results.
\<close>

fun memchr_bytes :: "mem \<Rightarrow> nat \<Rightarrow> u8 \<Rightarrow> nat \<Rightarrow> ptr" where
  "memchr_bytes m a d 0 = 0"
| "memchr_bytes m a d (Suc n) = (if m a = d then a else memchr_bytes m (a + 1) d n)"

fun memchr_align :: "mem \<Rightarrow> nat \<Rightarrow> u8 \<Rightarrow> nat \<Rightarrow> ptr + nat \<times> nat" where
  "memchr_align m a d n =
     (if UNALIGNED a then
        (case n of 0 \<Rightarrow> Inl 0
         | Suc n' \<Rightarrow> if m a = d then Inl a else memchr_align m (a + 1) d n')
      else Inr (a, n))"

fun memchr_words :: "mem \<Rightarrow> nat \<Rightarrow> u64 \<Rightarrow> nat \<Rightarrow> nat \<times> nat" where
  "memchr_words m a k n =
     (if 8 \<le> n then
        (if DETECTCHAR (load64 m a) k \<noteq> 0 then (a, n) else memchr_words m (a + 8) k (n - 8))
      else (a, n))"

definition memchr :: "mem \<Rightarrow> nat \<Rightarrow> u8 \<Rightarrow> nat \<Rightarrow> ptr" where
  "memchr m src d n =
     (case memchr_align m src d n of
        Inl r \<Rightarrow> r
      | Inr (a, n) \<Rightarrow>
          let (a, n) = (if 8 \<le> n then memchr_words m a (byte_mask d) n else (a, n)) in memchr_bytes m a d n)"

section \<open>Comparing\<close>

fun memcmp :: "mem \<Rightarrow> nat \<Rightarrow> nat \<Rightarrow> nat \<Rightarrow> int" where
  "memcmp m a b 0 = 0"
| "memcmp m a b (Suc n) = (if m a \<noteq> m b then uint (m a) - uint (m b) else memcmp m (a + 1) (b + 1) n)"

partial_function (option) strcmp_words :: "mem \<Rightarrow> nat \<Rightarrow> nat \<Rightarrow> (nat \<times> nat) option option" where
  "strcmp_words m a b =
     (if load64 m a = load64 m b then
        (if DETECTNULL (load64 m a) \<noteq> 0 then Some None else strcmp_words m (a + 8) (b + 8))
      else Some (Some (a, b)))"

partial_function (option) strcmp_bytes :: "mem \<Rightarrow> nat \<Rightarrow> nat \<Rightarrow> int option" where
  "strcmp_bytes m a b =
     (if m a \<noteq> 0 \<and> m a = m b then strcmp_bytes m (a + 1) (b + 1) else Some (uint (m a) - uint (m b)))"

definition strcmp :: "mem \<Rightarrow> nat \<Rightarrow> nat \<Rightarrow> int option" where
  "strcmp m a b =
     (if \<not> UNALIGNED a \<and> \<not> UNALIGNED b then
        do { r \<leftarrow> strcmp_words m a b;
             case r of None \<Rightarrow> Some 0 | Some (a, b) \<Rightarrow> strcmp_bytes m a b }
      else strcmp_bytes m a b)"

fun strncmp_words :: "mem \<Rightarrow> nat \<Rightarrow> nat \<Rightarrow> nat \<Rightarrow> (nat \<times> nat \<times> nat) option" where
  "strncmp_words m a b n =
     (if 8 \<le> n \<and> load64 m a = load64 m b then
        (if n - 8 = 0 \<or> DETECTNULL (load64 m a) \<noteq> 0 then None
         else strncmp_words m (a + 8) (b + 8) (n - 8))
      else Some (a, b, n))"

fun strncmp_bytes :: "mem \<Rightarrow> nat \<Rightarrow> nat \<Rightarrow> nat \<Rightarrow> int" where
  "strncmp_bytes m a b n =
     (case n of 0 \<Rightarrow> uint (m a) - uint (m b)
      | Suc n' \<Rightarrow>
          if m a = m b then (if n' = 0 \<or> m a = 0 then 0 else strncmp_bytes m (a + 1) (b + 1) n')
          else uint (m a) - uint (m b))"

definition strncmp :: "mem \<Rightarrow> nat \<Rightarrow> nat \<Rightarrow> nat \<Rightarrow> int" where
  "strncmp m a b n =
     (if n = 0 then 0
      else if \<not> UNALIGNED a \<and> \<not> UNALIGNED b then
        (case strncmp_words m a b n of None \<Rightarrow> 0 | Some (a, b, n) \<Rightarrow> strncmp_bytes m a b n)
      else strncmp_bytes m a b n)"

section \<open>Copying\<close>

fun memset :: "mem \<Rightarrow> nat \<Rightarrow> u8 \<Rightarrow> nat \<Rightarrow> mem" where
  "memset m a c 0 = m"
| "memset m a c (Suc n) = memset (m(a := c)) (a + 1) c n"

fun copy_back :: "mem \<Rightarrow> nat \<Rightarrow> nat \<Rightarrow> nat \<Rightarrow> mem" where
  "copy_back m d s 0 = m"
| "copy_back m d s (Suc n) = copy_back (m(d + n := m (s + n))) d s n"

fun copy_bytes :: "mem \<Rightarrow> nat \<Rightarrow> nat \<Rightarrow> nat \<Rightarrow> mem" where
  "copy_bytes m d s 0 = m"
| "copy_bytes m d s (Suc n) = copy_bytes (m(d := m s)) (d + 1) (s + 1) n"

fun copy_words :: "mem \<Rightarrow> nat \<Rightarrow> nat \<Rightarrow> nat \<Rightarrow> mem \<times> nat \<times> nat \<times> nat" where
  "copy_words m d s n =
     (if 8 \<le> n then copy_words (store64 m d (load64 m s)) (d + 8) (s + 8) (n - 8) else (m, d, s, n))"

definition copy_word :: "nat \<Rightarrow> nat \<Rightarrow> nat \<Rightarrow> mem \<Rightarrow> mem" where
  "copy_word d s k m = store64 m (d + k) (load64 m (s + k))"

fun copy_blocks :: "mem \<Rightarrow> nat \<Rightarrow> nat \<Rightarrow> nat \<Rightarrow> mem \<times> nat \<times> nat \<times> nat" where
  "copy_blocks m d s n =
     (if 32 \<le> n then
        copy_blocks (copy_word d s 24 (copy_word d s 16 (copy_word d s 8 (copy_word d s 0 m))))
          (d + 32) (s + 32) (n - 32)
      else (m, d, s, n))"

definition memmove :: "mem \<Rightarrow> nat \<Rightarrow> nat \<Rightarrow> nat \<Rightarrow> mem" where
  "memmove m dst src n =
     (if src < dst \<and> dst < src + n then copy_back m dst src n
      else
        let (m, d, s, n) =
          (if 32 \<le> n \<and> \<not> UNALIGNED src \<and> \<not> UNALIGNED dst then
             (let (m, d, s, n) = copy_blocks m dst src n in copy_words m d s n)
           else (m, dst, src, n))
        in copy_bytes m d s n)"

partial_function (option) strcpy_words :: "mem \<Rightarrow> nat \<Rightarrow> nat \<Rightarrow> (mem \<times> nat \<times> nat) option" where
  "strcpy_words m d s =
     (if DETECTNULL (load64 m s) = 0 then strcpy_words (store64 m d (load64 m s)) (d + 8) (s + 8)
      else Some (m, d, s))"

partial_function (option) strcpy_bytes :: "mem \<Rightarrow> nat \<Rightarrow> nat \<Rightarrow> mem option" where
  "strcpy_bytes m d s = (if m s \<noteq> 0 then strcpy_bytes (m(d := m s)) (d + 1) (s + 1) else Some (m(d := m s)))"

definition strcpy :: "mem \<Rightarrow> nat \<Rightarrow> nat \<Rightarrow> mem option" where
  "strcpy m d s =
     do { (m, d, s) \<leftarrow> (if \<not> UNALIGNED s \<and> \<not> UNALIGNED d then strcpy_words m d s else Some (m, d, s));
          strcpy_bytes m d s }"

text \<open>The scan to the end of the first string that \<^verbatim>\<open>strcat\<close> and \<^verbatim>\<open>strncat\<close> begin with.\<close>

definition string_end :: "mem \<Rightarrow> nat \<Rightarrow> nat option" where
  "string_end m a =
     do { a \<leftarrow> (if \<not> UNALIGNED a then word_scan (\<lambda>w. DETECTNULL w \<noteq> 0) m a else Some a);
          byte_scan (\<lambda>b. b = 0) m a }"

definition strcat :: "mem \<Rightarrow> nat \<Rightarrow> nat \<Rightarrow> mem option" where
  "strcat m s1 s2 = do { e \<leftarrow> string_end m s1; strcpy m e s2 }"

fun strncat_loop :: "mem \<Rightarrow> nat \<Rightarrow> nat \<Rightarrow> nat \<Rightarrow> mem" where
  "strncat_loop m d s 0 = m"
| "strncat_loop m d s (Suc n) =
     (let c = m s; m = m(d := c) in
      if c \<noteq> 0 then strncat_loop (if n = 0 then m(d + 1 := 0) else m) (d + 1) (s + 1) n else m)"

definition strncat :: "mem \<Rightarrow> nat \<Rightarrow> nat \<Rightarrow> nat \<Rightarrow> mem option" where
  "strncat m s1 s2 n = do { e \<leftarrow> string_end m s1; Some (strncat_loop m e s2 n) }"

fun strncpy_words :: "mem \<Rightarrow> nat \<Rightarrow> nat \<Rightarrow> nat \<Rightarrow> mem \<times> nat \<times> nat \<times> nat" where
  "strncpy_words m d s n =
     (if 8 \<le> n \<and> DETECTNULL (load64 m s) = 0 then
        strncpy_words (store64 m d (load64 m s)) (d + 8) (s + 8) (n - 8)
      else (m, d, s, n))"

fun strncpy_bytes :: "mem \<Rightarrow> nat \<Rightarrow> nat \<Rightarrow> nat \<Rightarrow> mem" where
  "strncpy_bytes m d s 0 = m"
| "strncpy_bytes m d s (Suc n) =
     (let c = m s; m = m(d := c) in
      if c = 0 then memset m (d + 1) 0 n else strncpy_bytes m (d + 1) (s + 1) n)"

definition strncpy :: "mem \<Rightarrow> nat \<Rightarrow> nat \<Rightarrow> nat \<Rightarrow> mem" where
  "strncpy m d s n =
     (let (m, d, s, n) = (if \<not> UNALIGNED s \<and> \<not> UNALIGNED d \<and> 8 \<le> n then strncpy_words m d s n else (m, d, s, n))
      in strncpy_bytes m d s n)"

section \<open>Searching is exact\<close>

declare align_scan.simps [simp del] memchr_align.simps [simp del] memchr_words.simps [simp del]
declare strncmp_words.simps [simp del] strncmp_bytes.simps [simp del] copy_words.simps [simp del]
declare copy_blocks.simps [simp del] strncpy_words.simps [simp del]

text \<open>\<open>first_at P m a n\<close>: the first byte from \<open>a\<close> on that satisfies \<open>P\<close> is at \<open>a + n\<close>.\<close>

definition first_at :: "(u8 \<Rightarrow> bool) \<Rightarrow> mem \<Rightarrow> nat \<Rightarrow> nat \<Rightarrow> bool" where
  "first_at P m a n \<longleftrightarrow> P (m (a + n)) \<and> (\<forall>i < n. \<not> P (m (a + i)))"

lemma first_at_0: "first_at P m a 0 \<longleftrightarrow> P (m a)"
  by (simp add: first_at_def)

lemma first_at_Suc: "first_at P m a (Suc n) \<longleftrightarrow> \<not> P (m a) \<and> first_at P m (a + 1) n"
  by (auto simp: first_at_def less_Suc_eq_0_disj)

lemma first_at_add: "first_at P m a (k + n) \<longleftrightarrow> (\<forall>i < k. \<not> P (m (a + i))) \<and> first_at P m (a + k) n"
  by (induction k arbitrary: a) (auto simp: first_at_Suc less_Suc_eq_0_disj)

lemma byte_scan_first: "first_at P m a n \<Longrightarrow> byte_scan P m a = Some (a + n)"
  by (induction n arbitrary: a) (subst byte_scan.simps; simp add: first_at_0 first_at_Suc)+

definition word_test :: "(u64 \<Rightarrow> bool) \<Rightarrow> (u8 \<Rightarrow> bool) \<Rightarrow> bool" where
  "word_test stop P \<longleftrightarrow> (\<forall>m a. stop (load64 m a) = (\<exists>i < 8. P (m (a + i))))"

lemma word_test_null: "word_test (\<lambda>w. DETECTNULL w \<noteq> 0) (\<lambda>b. b = 0)"
  by (simp add: word_test_def detectnull_load)

lemma word_test_char: "word_test (\<lambda>w. DETECTNULL w \<noteq> 0 \<or> DETECTCHAR w (byte_mask c) \<noteq> 0) (\<lambda>b. b = 0 \<or> b = c)"
  unfolding word_test_def detectnull_load detectchar_load by blast

lemma word_then_byte:
  assumes "word_test stop P"
  shows "first_at P m a n \<Longrightarrow> Option.bind (word_scan stop m a) (byte_scan P m) = Some (a + n)"
proof (induction n arbitrary: a rule: less_induct)
  case (less n)
  have stop: "stop (load64 m a) \<longleftrightarrow> (\<exists>i < 8. P (m (a + i)))" using assms by (simp add: word_test_def)
  show ?case
  proof (cases "n < 8")
    case True
    then have "stop (load64 m a)" using less.prems stop by (auto simp: first_at_def)
    then show ?thesis using byte_scan_first [OF less.prems] by (subst word_scan.simps) simp
  next
    case False
    then obtain k where n: "n = 8 + k" using le_Suc_ex not_less by blast
    then have "\<not> stop (load64 m a)" "first_at P m (a + 8) k"
      using less.prems stop by (auto simp: first_at_add)
    with less.IH [of k "a + 8"] n show ?thesis by (subst word_scan.simps) simp
  qed
qed

lemma align_scan_first:
  "first_at P m a n \<Longrightarrow> align_scan P m a = Inl (a + n) \<or>
     (\<exists>k \<le> n. align_scan P m a = Inr (a + k) \<and> first_at P m (a + k) (n - k))"
proof (induction n arbitrary: a)
  case 0
  then show ?case by (subst (1 2) align_scan.simps) (auto simp: first_at_0)
next
  case (Suc n)
  show ?case
  proof (cases "UNALIGNED a")
    case True
    then have eq: "align_scan P m a = align_scan P m (a + 1)"
      using Suc.prems by (subst align_scan.simps) (simp add: first_at_Suc)
    have "first_at P m (a + 1) n" using Suc.prems by (simp add: first_at_Suc)
    from Suc.IH [OF this] show ?thesis
    proof (elim disjE exE conjE)
      fix k
      assume "k \<le> n" "align_scan P m (a + 1) = Inr (a + 1 + k)" "first_at P m (a + 1 + k) (n - k)"
      then show ?thesis unfolding eq by (intro disjI2 exI [of _ "Suc k"]) simp
    qed (simp add: eq)
  next
    case False
    then have "align_scan P m a = Inr a" by (simp add: align_scan.simps)
    with Suc.prems show ?thesis by (intro disjI2 exI [of _ 0]) simp
  qed
qed

lemma aligned_search:
  assumes "word_test stop P" "first_at P m a n"
  shows "(case align_scan P m a of Inl b \<Rightarrow> Some b | Inr b \<Rightarrow> Option.bind (word_scan stop m b) (byte_scan P m)) = Some (a + n)"
  using align_scan_first [OF assms(2)] word_then_byte [OF assms(1)] by fastforce

text \<open>C12: \<^verbatim>\<open>strlen\<close> returns the number of bytes before the terminating null, whatever the alignment of the
  string and although it reads whole words.\<close>

theorem strlen_correct:
  assumes "first_at (\<lambda>b. b = 0) m a n"
  shows "strlen m a = Some n"
proof -
  have "strlen m a = map_option (\<lambda>b. b - a)
      (case align_scan (\<lambda>b. b = 0) m a of Inl b \<Rightarrow> Some b
       | Inr b \<Rightarrow> Option.bind (word_scan (\<lambda>w. DETECTNULL w \<noteq> 0) m b) (byte_scan (\<lambda>b. b = 0) m))"
    by (auto simp: strlen_def split: sum.split bind_splits)
  then show ?thesis by (simp add: aligned_search [OF word_test_null assms])
qed

theorem strlen_correct_witness:
  "strlen (\<lambda>a. if a = 21 then 0 else 65) 3 = Some 18"
  by (rule strlen_correct) (auto simp: first_at_def)

lemma strchr_null: "first_at (\<lambda>b. b = 0) m a n \<Longrightarrow> strchr m a 0 = Some (a + n)"
  using aligned_search [OF word_test_null, of m a n]
  by (auto simp: strchr_def split: sum.splits)

lemma strchr_first:
  assumes "first_at (\<lambda>b. b = 0 \<or> b = c) m a n"
  shows "strchr m a c = Some (if m (a + n) = c then a + n else 0)"
proof (cases "c = 0")
  case True
  with assms strchr_null [of m a n] show ?thesis by (auto simp: first_at_def)
next
  case False
  let ?P = "\<lambda>b. b = 0 \<or> b = c"
  let ?S = "case align_scan ?P m a of Inl b \<Rightarrow> Some b
       | Inr b \<Rightarrow> Option.bind (word_scan (\<lambda>w. DETECTNULL w \<noteq> 0 \<or> DETECTCHAR w (byte_mask c) \<noteq> 0) m b) (byte_scan ?P m)"
  have S: "?S = Some (a + n)" by (rule aligned_search [OF word_test_char assms])
  have c: "m (a + n) = 0 \<or> m (a + n) = c" using assms by (simp add: first_at_def)
  have "strchr m a c = Option.bind ?S (\<lambda>b. Some (if m b = c then b else 0))"
  proof (cases "align_scan ?P m a")
    case (Inl b)
    with S c False show ?thesis by (auto simp: strchr_def)
  next
    case (Inr b)
    with False show ?thesis by (simp add: strchr_def)
  qed
  then show ?thesis unfolding S by simp
qed

text \<open>The last occurrence: \<open>strrchr\<close> follows the occurrences from left to right.\<close>

fun last_index :: "(nat \<Rightarrow> bool) \<Rightarrow> nat \<Rightarrow> nat option" where
  "last_index P 0 = None"
| "last_index P (Suc n) = (if P n then Some n else last_index P n)"

lemma last_index_shift:
  "P k \<Longrightarrow> k < n \<Longrightarrow> last_index P n = (case last_index (\<lambda>i. P (Suc k + i)) (n - Suc k) of None \<Rightarrow> Some k | Some i \<Rightarrow> Some (Suc k + i))"
proof (induction n)
  case (Suc n)
  show ?case
  proof (cases "k = n")
    case False
    then have k: "k < n" using Suc.prems by simp
    then have "Suc n - Suc k = Suc (n - Suc k)" "Suc k + (n - Suc k) = n" by simp_all
    with Suc.IH [OF Suc.prems(1) k] show ?thesis by simp
  qed (use Suc.prems in simp)
qed simp

lemma last_index_None: "last_index P n = None \<longleftrightarrow> (\<forall>i < n. \<not> P i)"
  by (induction n) (auto simp: less_Suc_eq)

lemma strrchr_loop_last:
  assumes "c \<noteq> 0" "0 < a"
  shows "first_at (\<lambda>b. b = 0) m a n \<Longrightarrow> strrchr_loop m a c r =
     Some (case last_index (\<lambda>i. m (a + i) = c) n of None \<Rightarrow> r | Some i \<Rightarrow> a + i)"
  using assms(2)
proof (induction n arbitrary: a r rule: less_induct)
  case (less n)
  show ?case
  proof (cases "\<exists>i < n. m (a + i) = c")
    case False
    then have "first_at (\<lambda>b. b = 0 \<or> b = c) m a n" "m (a + n) \<noteq> c"
      using less.prems(1) assms(1) by (auto simp: first_at_def)
    then have "strchr m a c = Some 0" by (simp add: strchr_first)
    moreover have "last_index (\<lambda>i. m (a + i) = c) n = None" using False by (simp add: last_index_None)
    ultimately show ?thesis by (subst strrchr_loop.simps) simp
  next
    case True
    define k where "k = (LEAST i. i < n \<and> m (a + i) = c)"
    have k: "k < n" "m (a + k) = c" "\<And>i. i < k \<Longrightarrow> m (a + i) \<noteq> c"
      using LeastI_ex [OF True] not_less_Least [of _ "\<lambda>i. i < n \<and> m (a + i) = c"] unfolding k_def by fastforce+
    have "first_at (\<lambda>b. b = 0 \<or> b = c) m a k" using k less.prems(1) by (auto simp: first_at_def)
    then have "strchr m a c = Some (a + k)" using k(2) by (simp add: strchr_first)
    moreover have "first_at (\<lambda>b. b = 0) m (a + Suc k) (n - Suc k)"
      using less.prems(1) k(1) first_at_add [of "\<lambda>b. b = 0" m a "Suc k" "n - Suc k"] by simp
    moreover have "n - Suc k < n" using k(1) by simp
    ultimately have "strrchr_loop m a c r = Some (case last_index (\<lambda>i. m (a + Suc k + i) = c) (n - Suc k) of None \<Rightarrow> a + k | Some i \<Rightarrow> a + Suc k + i)"
      using less.IH [of "n - Suc k" "a + Suc k" "a + k"] less.prems(2) by (subst strrchr_loop.simps) simp
    then show ?thesis
      using last_index_shift [of "\<lambda>i. m (a + i) = c", OF k(2,1)] by (simp add: add.assoc split: option.split)
  qed
qed



lemma find_map: "find P (map f xs) = map_option f (find (\<lambda>x. P (f x)) xs)"
  by (induction xs) auto

section \<open>Word-wise comparison and search agree with the byte-wise loops\<close>

lemma memchr_bytes_skip:
  "\<forall>i < k. m (a + i) \<noteq> d \<Longrightarrow> memchr_bytes m a d (k + n) = memchr_bytes m (a + k) d n"
proof (induction k arbitrary: a)
  case (Suc k)
  then have "m a \<noteq> d" "\<forall>i < k. m (a + 1 + i) \<noteq> d" by auto
  with Suc.IH [of "a + 1"] show ?case by simp
qed simp

lemma memchr_align_bytes:
  "(case memchr_align m a d n of Inl r \<Rightarrow> r | Inr (a', n') \<Rightarrow> memchr_bytes m a' d n') = memchr_bytes m a d n"
proof (induction n arbitrary: a)
  case 0
  then show ?case by (subst memchr_align.simps) simp
next
  case (Suc n)
  then show ?case by (subst memchr_align.simps) simp
qed

lemma memchr_words_bytes:
  "(case memchr_words m a (byte_mask d) n of (a', n') \<Rightarrow> memchr_bytes m a' d n') = memchr_bytes m a d n"
proof (induction n arbitrary: a rule: less_induct)
  case (less n)
  show ?case
  proof (cases "8 \<le> n \<and> DETECTCHAR (load64 m a) (byte_mask d) = 0")
    case True
    then have "\<forall>i < 8. m (a + i) \<noteq> d" using detectchar_load [of m a d] by blast
    then have "memchr_bytes m a d n = memchr_bytes m (a + 8) d (n - 8)"
      using memchr_bytes_skip [of 8 m a d "n - 8"] True by simp
    moreover have "memchr_words m a (byte_mask d) n = memchr_words m (a + 8) (byte_mask d) (n - 8)"
      using True by (subst memchr_words.simps) simp
    ultimately show ?thesis using less.IH [of "n - 8" "a + 8"] True by simp
  next
    case False
    then have "memchr_words m a (byte_mask d) n = (a, n)" by (subst memchr_words.simps) auto
    then show ?thesis by simp
  qed
qed

lemma memchr_bytewise: "memchr m a d n = memchr_bytes m a d n"
  using memchr_align_bytes [where m = m and a = a and d = d and n = n] memchr_words_bytes [where m = m and d = d]
  by (auto simp: memchr_def split: sum.splits prod.splits)

lemma strncmp_bytes_skip:
  "\<forall>i < k. m (a + i) = m (b + i) \<and> m (a + i) \<noteq> 0 \<Longrightarrow> 0 < n \<Longrightarrow>
     strncmp_bytes m a b (k + n) = strncmp_bytes m (a + k) (b + k) n"
proof (induction k arbitrary: a b)
  case (Suc k)
  then have "strncmp_bytes m a b (Suc k + n) = strncmp_bytes m (a + 1) (b + 1) (k + n)"
    by (subst strncmp_bytes.simps) auto
  also have "\<dots> = strncmp_bytes m (a + 1 + k) (b + 1 + k) n"
    using Suc.prems by (intro Suc.IH) auto
  finally show ?case by simp
qed simp

lemma strncmp_bytes_null:
  "\<forall>i \<le> k. m (a + i) = m (b + i) \<Longrightarrow> m (a + k) = 0 \<or> n = Suc k \<Longrightarrow> k < n \<Longrightarrow> strncmp_bytes m a b n = 0"
proof (induction k arbitrary: a b n)
  case 0
  then show ?case by (subst strncmp_bytes.simps) (auto split: nat.split)
next
  case (Suc k)
  then obtain n' where n: "n = Suc n'" by (cases n) auto
  show ?case
  proof (cases "m a = 0 \<or> n' = 0")
    case True
    with Suc.prems(1) n show ?thesis by (subst strncmp_bytes.simps) auto
  next
    case False
    with Suc.prems n have "strncmp_bytes m a b n = strncmp_bytes m (a + 1) (b + 1) n'"
      by (subst strncmp_bytes.simps) auto
    moreover have "\<forall>i \<le> k. m (a + 1 + i) = m (b + 1 + i)" using Suc.prems(1) by auto
    ultimately show ?thesis using Suc.IH [of "a + 1" "b + 1" n'] Suc.prems n by auto
  qed
qed

lemma strncmp_words_bytes:
  "0 < n \<Longrightarrow> (case strncmp_words m a b n of None \<Rightarrow> 0 | Some (a', b', n') \<Rightarrow> strncmp_bytes m a' b' n') = strncmp_bytes m a b n"
proof (induction n arbitrary: a b rule: less_induct)
  case (less n)
  show ?case
  proof (cases "8 \<le> n \<and> load64 m a = load64 m b")
    case False
    then have "strncmp_words m a b n = Some (a, b, n)" by (subst strncmp_words.simps) auto
    then show ?thesis by simp
  next
    case True
    then have eq: "\<forall>i < 8. m (a + i) = m (b + i)" by (simp add: load64_eq_iff)
    consider (stop) "n = 8" | (null) k where "k < 8" "m (a + k) = 0" | (go) "8 < n" "\<forall>i < 8. m (a + i) \<noteq> 0"
      using True by fastforce
    then show ?thesis
    proof cases
      case stop
      then have "strncmp_words m a b n = None" using True by (subst strncmp_words.simps) simp
      then show ?thesis using strncmp_bytes_null [of 7 m a b n] stop eq by simp
    next
      case null
      then have "DETECTNULL (load64 m a) \<noteq> 0" using detectnull_load by blast
      then have "strncmp_words m a b n = None" using True by (subst strncmp_words.simps) simp
      then show ?thesis using strncmp_bytes_null [of k m a b n] null eq True by simp
    next
      case go
      then have "DETECTNULL (load64 m a) = 0" using detectnull_load [of m a] by blast
      then have "strncmp_words m a b n = strncmp_words m (a + 8) (b + 8) (n - 8)"
        using True go by (subst strncmp_words.simps) simp
      moreover have "strncmp_bytes m a b n = strncmp_bytes m (a + 8) (b + 8) (n - 8)"
        using strncmp_bytes_skip [of 8 m a b "n - 8"] eq go by simp
      ultimately show ?thesis using less.IH [of "n - 8" "a + 8" "b + 8"] go by simp
    qed
  qed
qed

lemma strncmp_bytewise: "strncmp m a b n = (if n = 0 then 0 else strncmp_bytes m a b n)"
  using strncmp_words_bytes [of n m a b] by (auto simp: strncmp_def)

text \<open>The index at which \<open>strcmp\<close> stops: the first null or difference.\<close>

definition cmp_at :: "mem \<Rightarrow> nat \<Rightarrow> nat \<Rightarrow> nat \<Rightarrow> bool" where
  "cmp_at m a b n \<longleftrightarrow> (m (a + n) = 0 \<or> m (a + n) \<noteq> m (b + n)) \<and> (\<forall>i < n. m (a + i) \<noteq> 0 \<and> m (a + i) = m (b + i))"

lemma cmp_at_add:
  "\<forall>i < k. m (a + i) \<noteq> 0 \<and> m (a + i) = m (b + i) \<Longrightarrow> cmp_at m a b n \<Longrightarrow> k \<le> n \<and> cmp_at m (a + k) (b + k) (n - k)"
proof
  assume *: "\<forall>i < k. m (a + i) \<noteq> 0 \<and> m (a + i) = m (b + i)" "cmp_at m a b n"
  then show "k \<le> n" unfolding cmp_at_def by (meson not_le)
  then obtain j where "n = k + j" using le_Suc_ex by blast
  moreover from this have "\<forall>i < j. m (a + (k + i)) \<noteq> 0 \<and> m (a + (k + i)) = m (b + (k + i))"
    using *(2) unfolding cmp_at_def by (metis nat_add_left_cancel_less)
  ultimately show "cmp_at m (a + k) (b + k) (n - k)" using *(2) by (simp add: cmp_at_def add.assoc)
qed

lemma strcmp_bytes_at: "cmp_at m a b n \<Longrightarrow> strcmp_bytes m a b = Some (uint (m (a + n)) - uint (m (b + n)))"
proof (induction n arbitrary: a b)
  case 0
  then show ?case by (subst strcmp_bytes.simps) (auto simp: cmp_at_def)
next
  case (Suc n)
  then have "m a \<noteq> 0" "m b = m a" "cmp_at m (a + 1) (b + 1) n" by (auto simp: cmp_at_def)
  with Suc.IH [of "a + 1" "b + 1"] show ?case by (subst strcmp_bytes.simps) simp
qed

lemma strcmp_words_at:
  "cmp_at m a b n \<Longrightarrow>
     Option.bind (strcmp_words m a b) (\<lambda>r. case r of None \<Rightarrow> Some 0 | Some (a, b) \<Rightarrow> strcmp_bytes m a b) =
     Some (uint (m (a + n)) - uint (m (b + n)))"
proof (induction n arbitrary: a b rule: less_induct)
  case (less n)
  show ?case
  proof (cases "load64 m a = load64 m b")
    case False
    then show ?thesis using strcmp_bytes_at [OF less.prems] by (subst strcmp_words.simps) simp
  next
    case True
    then have eq: "\<forall>i < 8. m (a + i) = m (b + i)" by (simp add: load64_eq_iff)
    show ?thesis
    proof (cases "DETECTNULL (load64 m a) = 0")
      case null: True
      then have nz: "\<forall>i < 8. m (a + i) \<noteq> 0" using detectnull_load [of m a] by blast
      then have n: "8 \<le> n" "cmp_at m (a + 8) (b + 8) (n - 8)" using cmp_at_add [OF _ less.prems, of 8] eq by auto
      then show ?thesis using less.IH [OF _ n(2)] True null by (subst strcmp_words.simps) simp
    next
      case False
      then obtain k where "k < 8" "m (a + k) = 0" using detectnull_load by blast
      then have "n < 8" using less.prems by (metis cmp_at_def le_less_trans not_le)
      then show ?thesis using False True eq less.prems by (subst strcmp_words.simps) (simp add: cmp_at_def)
    qed
  qed
qed

text \<open>C14: \<^verbatim>\<open>strcmp\<close> decides equality and order by the first position where the strings differ or the first one
  ends: it returns the difference of the two bytes there, whatever the alignment of the arguments.\<close>

theorem strcmp_correct:
  assumes "cmp_at m a b n"
  shows "strcmp m a b = Some (uint (m (a + n)) - uint (m (b + n)))"
  using strcmp_words_at [OF assms] strcmp_bytes_at [OF assms] by (simp add: strcmp_def)

theorem strcmp_correct_witness:
  "strcmp (\<lambda>a. if a = 90 then 66 else if a = 50 then 0 else 65) 32 72 = Some (-66)"
proof -
  let ?m = "\<lambda>a. if a = 90 then 66 else if a = 50 then 0 else 65 :: u8"
  have "cmp_at ?m 32 72 18" by (auto simp: cmp_at_def)
  from strcmp_correct [OF this] show ?thesis by simp
qed

text \<open>C15: The bounded routines that read a word at a time are equivalent to their byte loops: \<^verbatim>\<open>memchr\<close>
  finds the first occurrence within the length or returns null, and \<^verbatim>\<open>strncmp\<close> is its byte-wise loop,
  for every alignment and length.\<close>

theorem bounded_routines_bytewise:
  "memchr m a d n = (case find (\<lambda>i. m (a + i) = d) [0..<n] of None \<Rightarrow> 0 | Some i \<Rightarrow> a + i) \<and>
   strncmp m a b n = (if n = 0 then 0 else strncmp_bytes m a b n)"
proof -
  have "memchr_bytes m a d n = (case find (\<lambda>i. m (a + i) = d) [0..<n] of None \<Rightarrow> 0 | Some i \<Rightarrow> a + i)"
  proof (induction n arbitrary: a)
    case (Suc n)
    have "find (\<lambda>i. m (a + i) = d) [1..<Suc n] = map_option Suc (find (\<lambda>i. m (a + 1 + i) = d) [0..<n])"
      unfolding One_nat_def map_Suc_upt [symmetric] find_map by simp
    moreover have "[0..<Suc n] = 0 # [1..<Suc n]" by (simp add: upt_conv_Cons del: upt_Suc)
    ultimately show ?case using Suc [of "a + 1"] by (auto simp del: upt_Suc split: option.splits)
  qed simp
  then show ?thesis by (simp add: memchr_bytewise strncmp_bytewise)
qed

section \<open>Copies\<close>

text \<open>\<open>copied m d s n\<close>: the memory after \<open>n\<close> bytes have been moved from \<open>s\<close> to \<open>d\<close>.\<close>

definition copied :: "mem \<Rightarrow> nat \<Rightarrow> nat \<Rightarrow> nat \<Rightarrow> mem" where
  "copied m d s n = (\<lambda>x. if d \<le> x \<and> x < d + n then m (s + (x - d)) else m x)"

text \<open>A forward copy may be split unless the destination starts inside the source.\<close>

definition forward_safe :: "nat \<Rightarrow> nat \<Rightarrow> nat \<Rightarrow> bool" where
  "forward_safe d s n \<longleftrightarrow> \<not> (s < d \<and> d < s + n)"

lemma forward_safe_sub: "forward_safe d s n \<Longrightarrow> k \<le> n \<Longrightarrow> forward_safe d s k \<and> forward_safe (d + k) (s + k) (n - k)"
  by (auto simp: forward_safe_def)

lemma copied_0 [simp]: "copied m d s 0 = m"
  by (rule ext) (auto simp: copied_def)

lemma copied_split:
  assumes "forward_safe d s (k + n)"
  shows "copied (copied m d s k) (d + k) (s + k) n = copied m d s (k + n)"
proof
  fix x
  consider "x < d" | "d \<le> x" "x < d + k" | "d + k \<le> x" "x < d + (k + n)" | "d + (k + n) \<le> x" by linarith
  then show "copied (copied m d s k) (d + k) (s + k) n x = copied m d s (k + n) x"
  proof cases
    case 3
    then have "\<not> (d \<le> s + (x - d) \<and> s + (x - d) < d + k)" "s + k + (x - (d + k)) = s + (x - d)"
      using assms by (auto simp: forward_safe_def)
    with 3 show ?thesis by (auto simp: copied_def)
  qed (simp_all add: copied_def)
qed

lemma copied_1: "copied m d s 1 = m(d := m s)"
  by (rule ext) (auto simp: copied_def le_less_Suc_eq)

lemma copied_word: "store64 m d (load64 m s) = copied m d s 8"
  by (simp add: store64_load64 copied_def)

lemma copy_bytes_copied: "forward_safe d s n \<Longrightarrow> copy_bytes m d s n = copied m d s n"
proof (induction n arbitrary: m d s)
  case (Suc n)
  then have "forward_safe (d + 1) (s + 1) n" using forward_safe_sub [of d s "Suc n" 1] by simp
  with Suc copied_split [of d s 1 n m] show ?case by (simp add: copied_1 [unfolded One_nat_def] fun_upd_def)
qed simp

lemma copy_back_copied: "s < d \<Longrightarrow> copy_back m d s n = copied m d s n"
proof (induction n arbitrary: m)
  case (Suc n)
  show ?case
  proof
    fix x
    consider "x < d" | "d \<le> x" "x < d + n" | "x = d + n" | "d + n < x" by linarith
    then show "copy_back m d s (Suc n) x = copied m d s (Suc n) x"
      using Suc by cases (auto simp: copied_def)
  qed
qed simp

lemma copy_words_copied:
  "forward_safe d s n \<Longrightarrow> copy_words m d s n = (copied m d s k, d + k, s + k, n - k)" if "k = 8 * (n div 8)"
  using that
proof (induction n arbitrary: m d s k rule: less_induct)
  case (less n)
  show ?case
  proof (cases "8 \<le> n")
    case True
    then obtain j where n: "n = 8 + j" using le_Suc_ex by blast
    let ?k = "8 * (j div 8)"
    have safe: "forward_safe (d + 8) (s + 8) j" "forward_safe d s (8 + ?k)"
      using less.prems(1) forward_safe_sub [of d s n 8] forward_safe_sub [of d s n "8 + ?k"] n by auto
    have "copy_words m d s n = copy_words (copied m d s 8) (d + 8) (s + 8) j"
      using True n by (subst copy_words.simps) (simp add: copied_word)
    also have "\<dots> = (copied (copied m d s 8) (d + 8) (s + 8) ?k, d + 8 + ?k, s + 8 + ?k, j - ?k)"
      using less.IH [OF _ safe(1) refl] n by simp
    also have "\<dots> = (copied m d s (8 + ?k), d + (8 + ?k), s + (8 + ?k), j - ?k)"
      using copied_split [OF safe(2)] by simp
    finally show ?thesis using less.prems(2) n by (simp add: div_add_self1)
  qed (use less.prems in \<open>subst copy_words.simps; simp\<close>)
qed

lemma copy_block_copied:
  assumes "forward_safe d s 32"
  shows "copy_word d s 24 (copy_word d s 16 (copy_word d s 8 (copy_word d s 0 m))) = copied m d s 32"
proof -
  have "copied (copied m d s k) (d + k) (s + k) 8 = copied m d s (k + 8)" if "k + 8 \<le> 32" for k
    using assms that forward_safe_sub [of d s 32 "k + 8"] by (intro copied_split) auto
  from this [of 8] this [of 16] this [of 24] show ?thesis
    by (simp add: copy_word_def copied_word)
qed

lemma copy_blocks_copied:
  "forward_safe d s n \<Longrightarrow> copy_blocks m d s n = (copied m d s k, d + k, s + k, n - k)" if "k = 32 * (n div 32)"
  using that
proof (induction n arbitrary: m d s k rule: less_induct)
  case (less n)
  show ?case
  proof (cases "32 \<le> n")
    case True
    then obtain j where n: "n = 32 + j" using le_Suc_ex by blast
    let ?k = "32 * (j div 32)"
    have safe: "forward_safe d s 32" "forward_safe (d + 32) (s + 32) j" "forward_safe d s (32 + ?k)"
      using less.prems(1) forward_safe_sub [of d s n 32] forward_safe_sub [of d s n "32 + ?k"] n by auto
    have "copy_blocks m d s n = copy_blocks (copied m d s 32) (d + 32) (s + 32) j"
      using True n by (subst copy_blocks.simps) (simp add: copy_block_copied [OF safe(1)])
    also have "\<dots> = (copied (copied m d s 32) (d + 32) (s + 32) ?k, d + 32 + ?k, s + 32 + ?k, j - ?k)"
      using less.IH [OF _ safe(2) refl] n by simp
    also have "\<dots> = (copied m d s (32 + ?k), d + (32 + ?k), s + (32 + ?k), j - ?k)"
      using copied_split [OF safe(3)] by simp
    finally show ?thesis using less.prems(2) n by (simp add: div_add_self1)
  qed (use less.prems in \<open>subst copy_blocks.simps; simp\<close>)
qed

text \<open>C10: \<^verbatim>\<open>memmove\<close> moves the bytes correctly for every pair of regions, overlapping or not, aligned or not:
  afterwards each byte of the destination is the byte the source had before, and no other byte has
  changed.\<close>

theorem memmove_correct:
  "memmove m d s n = (\<lambda>x. if d \<le> x \<and> x < d + n then m (s + (x - d)) else m x)"
proof (cases "s < d \<and> d < s + n")
  case True
  then show ?thesis by (simp add: memmove_def copy_back_copied copied_def)
next
  case False
  then have safe: "forward_safe d s n" by (simp add: forward_safe_def)
  let ?k = "32 * (n div 32)" and ?j = "8 * ((n - 32 * (n div 32)) div 8)"
  have k: "?k + ?j \<le> n" by simp
  have sub: "forward_safe d s (?k + ?j)" "forward_safe (d + ?k) (s + ?k) (n - ?k)"
      "forward_safe (d + (?k + ?j)) (s + (?k + ?j)) (n - (?k + ?j))" "forward_safe d s ((?k + ?j) + (n - (?k + ?j)))"
    using safe forward_safe_sub [OF safe, of ?k] forward_safe_sub [OF safe k] k by (simp_all add: mult.commute)
  have "copy_bytes (copied m d s (?k + ?j)) (d + (?k + ?j)) (s + (?k + ?j)) (n - (?k + ?j)) = copied m d s n"
    using copy_bytes_copied [OF sub(3)] copied_split [OF sub(4)] k by simp
  moreover have "copy_words (copied m d s ?k) (d + ?k) (s + ?k) (n - ?k) =
      (copied m d s (?k + ?j), d + (?k + ?j), s + (?k + ?j), n - (?k + ?j))"
    using copy_words_copied [OF refl sub(2), of "copied m d s ?k"] copied_split [OF sub(1)] by (simp add: add.assoc)
  ultimately have "memmove m d s n = copied m d s n"
    using False copy_blocks_copied [OF refl safe, of m] copy_bytes_copied [OF safe, of m]
    unfolding memmove_def by (auto simp: Let_def)
  then show ?thesis by (simp add: copied_def)
qed

section \<open>String copies\<close>

lemma first_at_copied:
  assumes "first_at P m s (k + n)" "forward_safe d s (Suc (k + n))"
  shows "first_at P (copied m d s k) (s + k) n"
proof -
  have "copied m d s k (s + k + i) = m (s + k + i)" if "i \<le> n" for i
    using assms(2) that by (auto simp: copied_def forward_safe_def)
  moreover have "first_at P m (s + k) n" using assms(1) unfolding first_at_add by blast
  ultimately show ?thesis by (simp add: first_at_def)
qed

lemma strcpy_bytes_copied:
  "first_at (\<lambda>b. b = 0) m s n \<Longrightarrow> forward_safe d s (Suc n) \<Longrightarrow> strcpy_bytes m d s = Some (copied m d s (Suc n))"
proof (induction n arbitrary: m d s)
  case 0
  then show ?case using copied_1 [of m d s] by (subst strcpy_bytes.simps) (simp add: first_at_0)
next
  case (Suc n)
  let ?m = "copied m d s 1"
  have "first_at (\<lambda>b. b = 0) ?m (s + 1) n" using first_at_copied [of _ m s 1 n d] Suc.prems by simp
  moreover have "forward_safe (d + 1) (s + 1) (Suc n)" using forward_safe_sub [OF Suc.prems(2), of 1] by simp
  ultimately have "strcpy_bytes ?m (d + 1) (s + 1) = Some (copied ?m (d + 1) (s + 1) (Suc n))" by (rule Suc.IH)
  moreover have "m s \<noteq> 0" using Suc.prems(1) by (simp add: first_at_Suc)
  ultimately show ?case using copied_split [of d s 1 "Suc n" m] Suc.prems(2) copied_1 [of m d s]
    by (subst strcpy_bytes.simps) simp
qed

lemma strcpy_words_copied:
  "first_at (\<lambda>b. b = 0) m s n \<Longrightarrow> forward_safe d s (Suc n) \<Longrightarrow>
     Option.bind (strcpy_words m d s) (\<lambda>(m, d, s). strcpy_bytes m d s) = Some (copied m d s (Suc n))"
proof (induction n arbitrary: m d s rule: less_induct)
  case (less n)
  show ?case
  proof (cases "DETECTNULL (load64 m s) = 0")
    case True
    then have "\<forall>i < 8. m (s + i) \<noteq> 0" using detectnull_load [of m s] by blast
    moreover have "m (s + n) = 0" using less.prems(1) by (simp add: first_at_def)
    ultimately have "8 \<le> n" using not_less by blast
    then obtain j where n: "n = 8 + j" using le_Suc_ex by blast
    let ?m = "copied m d s 8"
    have "first_at (\<lambda>b. b = 0) ?m (s + 8) j" using first_at_copied [of _ m s 8 j d] less.prems n by simp
    moreover have "forward_safe (d + 8) (s + 8) (Suc j)" using forward_safe_sub [OF less.prems(2), of 8] n by simp
    ultimately have "Option.bind (strcpy_words ?m (d + 8) (s + 8)) (\<lambda>(m, d, s). strcpy_bytes m d s) =
        Some (copied ?m (d + 8) (s + 8) (Suc j))" using n by (intro less.IH) simp_all
    then show ?thesis using True n copied_split [of d s 8 "Suc j" m] less.prems(2)
      by (subst strcpy_words.simps) (simp add: copied_word)
  next
    case False
    then show ?thesis using strcpy_bytes_copied [OF less.prems] by (subst strcpy_words.simps) simp
  qed
qed

lemma strcpy_copied:
  assumes "first_at (\<lambda>b. b = 0) m s n" "forward_safe d s (Suc n)"
  shows "strcpy m d s = Some (copied m d s (Suc n))"
  using strcpy_words_copied [OF assms] strcpy_bytes_copied [OF assms] by (simp add: strcpy_def)

lemma string_end_first: "first_at (\<lambda>b. b = 0) m a n \<Longrightarrow> string_end m a = Some (a + n)"
  using word_then_byte [OF word_test_null, of m a n] byte_scan_first [of "\<lambda>b. b = 0" m a n]
  by (simp add: string_end_def)

text \<open>C16: \<^verbatim>\<open>strcat\<close> appends: it leaves the bytes of the first string, writes the second string and its
  terminating null after them, and touches nothing else.  The copy within is \<^verbatim>\<open>strcpy\<close>, word by word
  when both pointers are aligned.  The second string must not contain the end of the first.\<close>

theorem strcat_correct:
  assumes "first_at (\<lambda>b. b = 0) m s1 n1" "first_at (\<lambda>b. b = 0) m s2 n2" "forward_safe (s1 + n1) s2 (Suc n2)"
  shows "strcat m s1 s2 = Some (\<lambda>x. if s1 + n1 \<le> x \<and> x \<le> s1 + n1 + n2 then m (s2 + (x - (s1 + n1))) else m x)"
  using strcpy_copied [OF assms(2,3)] string_end_first [OF assms(1)]
  by (auto simp: strcat_def copied_def less_Suc_eq_le)

theorem strcat_correct_witness:
  "strcat (\<lambda>a. if a = 19 \<or> a = 50 then 0 else if a < 30 then 65 else 66) 16 40 =
     Some (\<lambda>x. if 19 \<le> x \<and> x \<le> 29 then (if x = 29 then 0 else 66)
               else if x = 50 then 0 else if x < 30 then 65 else 66)"
proof -
  let ?m = "\<lambda>a. if a = 19 \<or> a = 50 then 0 else if a < 30 then 65 else 66 :: u8"
  have "first_at (\<lambda>b. b = 0) ?m 16 3" "first_at (\<lambda>b. b = 0) ?m 40 10" "forward_safe (16 + 3) 40 (Suc 10)"
    by (auto simp: first_at_def forward_safe_def)
  from strcat_correct [OF this] show ?thesis by (auto simp: fun_eq_iff)
qed

end
