(* ===== verification/Klibc.thy ===== *)
theory Klibc
  imports Strings
begin

text \<open>
  \<^verbatim>\<open>strtok\<close> of \<^verbatim>\<open>library/string\<close>, and \<^verbatim>\<open>strtoint\<close> and \<^verbatim>\<open>dirname\<close> of \<^verbatim>\<open>library/klibc\<close>.  The delimiters of \<^verbatim>\<open>strtok\<close>
  and the arguments of the other two are given as the bytes of the string before its null.  Signed
  overflow, which C leaves undefined, is \<open>Fault\<close>.
\<close>

section \<open>Tokens\<close>

text \<open>The two scans of \<^verbatim>\<open>strtok\<close>: over leading delimiters, and to the end of the token.\<close>

definition strtok_skip :: "u8 list \<Rightarrow> mem \<Rightarrow> nat \<Rightarrow> nat option" where
  "strtok_skip ds m s = byte_scan (\<lambda>c. c \<notin> set ds) m s"

definition strtok_end :: "u8 list \<Rightarrow> mem \<Rightarrow> nat \<Rightarrow> nat option" where
  "strtok_end ds m s = byte_scan (\<lambda>c. c = 0 \<or> c \<in> set ds) m s"

text \<open>The static \<^verbatim>\<open>last\<close> is part of the state; the result is the token (0 for null), the memory and \<^verbatim>\<open>last\<close>.\<close>

definition strtok :: "u8 list \<Rightarrow> nat \<Rightarrow> mem \<times> nat \<Rightarrow> (nat \<times> mem \<times> nat) option" where
  "strtok ds s0 = (\<lambda>(m, last0).
     let s = (if s0 = 0 then last0 else s0) in
     if s = 0 then Some (0, m, last0)
     else do {
       s \<leftarrow> strtok_skip ds m s;
       if m s = 0 then Some (0, m, 0)
       else do {
         e \<leftarrow> strtok_end ds m (s + 1);
         Some (if m e = 0 then (s, m, 0) else (s, m(e := 0), e + 1)) } })"

text \<open>C20: \<^verbatim>\<open>strtok\<close> returns the next maximal run of characters that are not delimiters: given leading
  delimiters, a non-empty run and then a delimiter or the end of the string, it returns the run,
  terminates it in place, and remembers where to go on (nowhere at the end of the string).\<close>

theorem strtok_next:
  assumes "0 \<notin> set ds" "0 < s" "\<forall>i < p. m (s + i) \<in> set ds"
    and "0 < n" "\<forall>i < n. m (s + p + i) \<noteq> 0 \<and> m (s + p + i) \<notin> set ds"
    and "m (s + p + n) = 0 \<or> m (s + p + n) \<in> set ds"
  shows "strtok ds s (m, l) = Some (s + p, m(s + p + n := 0), if m (s + p + n) = 0 then 0 else s + p + n + 1) \<and>
     strtok ds 0 (m, s) = strtok ds s (m, l)"
proof -
  have "first_at (\<lambda>c. c \<notin> set ds) m s p" using assms(3-5) by (auto simp: first_at_def)
  then have skip: "strtok_skip ds m s = Some (s + p)" by (simp add: strtok_skip_def byte_scan_first)
  have tok: "m (s + p) \<noteq> 0" using assms(4,5) by force
  have "first_at (\<lambda>c. c = 0 \<or> c \<in> set ds) m (s + p) (Suc (n - 1))" using assms(4-6) by (auto simp: first_at_def)
  then have "first_at (\<lambda>c. c = 0 \<or> c \<in> set ds) m (s + p + 1) (n - 1)" unfolding first_at_Suc by blast
  then have "strtok_end ds m (s + p + 1) = Some (s + p + n)"
    using assms(4) by (simp add: strtok_end_def byte_scan_first)
  then show ?thesis using assms(2) skip tok by (auto simp: strtok_def fun_upd_idem)
qed

theorem strtok_next_witness:
  "strtok [47] 10 ((\<lambda>a. if a = 10 \<or> a = 14 then 47 else if a = 20 then 0 else 97), 0) =
     Some (11, (\<lambda>a. if a = 10 \<or> a = 14 then 47 else if a = 20 then 0 else 97)(14 := 0), 15)"
  using strtok_next [of "[47]" 10 1 "\<lambda>a. if a = 10 \<or> a = 14 then 47 else if a = 20 then 0 else 97" 3 0] by simp

section \<open>Numbers\<close>

definition chk32 :: "int \<Rightarrow> (int \<Rightarrow> 'b outcome) \<Rightarrow> 'b outcome" where
  "chk32 i k = (if - (2 ^ 31) \<le> i \<and> i < 2 ^ 31 then k i else Fault)"

fun strtoint_mul :: "nat \<Rightarrow> int \<Rightarrow> int outcome" where
  "strtoint_mul 0 mul = Ret mul"
| "strtoint_mul (Suc n) mul = chk32 (mul * 10) (strtoint_mul n)"

text \<open>The digit loop; \<open>None\<close> is the early \<^verbatim>\<open>return -1\<close>.\<close>

fun strtoint_loop :: "u8 list \<Rightarrow> int \<Rightarrow> int \<Rightarrow> int option outcome" where
  "strtoint_loop [] tot mul = Ret (Some tot)"
| "strtoint_loop (c # cs) tot mul =
     (if uint c < 48 \<or> uint c > 57 then Ret None
      else chk32 ((uint c - 48) * mul) (\<lambda>d. chk32 (tot + d) (\<lambda>tot. strtoint_loop cs tot (mul div 10))))"

definition strtoint :: "u8 list \<Rightarrow> int outcome" where
  "strtoint s =
     (let neg = (s \<noteq> [] \<and> hd s = 45); digits = (if neg then tl s else s) in
      obind (strtoint_mul (length s - 1) 1) (\<lambda>mul.
      obind (strtoint_loop digits 0 mul) (\<lambda>r.
      case r of None \<Rightarrow> Ret (-1) | Some tot \<Rightarrow> Ret (if neg then - tot else tot))))"

definition dec_val :: "u8 list \<Rightarrow> int" where
  "dec_val cs = foldl (\<lambda>a c. a * 10 + (uint c - 48)) 0 cs"

lemma dec_foldl: "foldl (\<lambda>a c. a * 10 + (uint c - 48)) x cs = x * 10 ^ length cs + dec_val cs" for x :: int and cs :: "u8 list"
proof (induction cs arbitrary: x)
  case (Cons c cs)
  from Cons [of "x * 10 + (uint c - 48)"] Cons [of "uint c - 48"] show ?case
    by (simp add: dec_val_def algebra_simps)
qed (simp add: dec_val_def)

lemma dec_val_Cons: "dec_val (c # cs) = (uint c - 48) * 10 ^ length cs + dec_val cs"
  using dec_foldl [of "uint c - 48" cs] by (simp add: dec_val_def)

definition digits :: "u8 list \<Rightarrow> bool" where
  "digits cs \<longleftrightarrow> (\<forall>c \<in> set cs. 48 \<le> uint c \<and> uint c \<le> 57)"

lemma dec_val_bounds: "digits cs \<Longrightarrow> 0 \<le> dec_val cs \<and> dec_val cs < 10 ^ length cs"
proof (induction cs)
  case (Cons c cs)
  then have c: "0 \<le> uint c - 48" "uint c - 48 \<le> 9" and cs: "0 \<le> dec_val cs" "dec_val cs < 10 ^ length cs"
    by (auto simp: digits_def)
  have "(uint c - 48) * 10 ^ length cs \<le> 9 * 10 ^ length cs" using c(2) by (intro mult_right_mono) simp_all
  moreover have "0 \<le> (uint c - 48) * 10 ^ length cs" using c(1) by simp
  moreover have "(10 :: int) ^ length (c # cs) = 10 * 10 ^ length cs" by simp
  ultimately show ?case using cs unfolding dec_val_Cons by linarith
qed (simp add: dec_val_def)

lemma strtoint_mul_pow: "m * 10 ^ n < 2 ^ 31 \<Longrightarrow> 0 \<le> m \<Longrightarrow> strtoint_mul n m = Ret (m * 10 ^ n)"
proof (induction n arbitrary: m)
  case (Suc n)
  have "m * 10 * 1 \<le> m * 10 * 10 ^ n" using Suc.prems(2) by (intro mult_left_mono) simp_all
  then have "m * 10 < 2 ^ 31" using Suc.prems(1) by simp
  with Suc.prems Suc.IH [of "m * 10"] show ?case by (simp add: chk32_def ac_simps)
qed simp

lemma strtoint_loop_digits:
  "digits cs \<Longrightarrow> 0 \<le> t \<Longrightarrow> t + dec_val cs < 2 ^ 31 \<Longrightarrow>
     strtoint_loop cs t (10 ^ length cs div 10) = Ret (Some (t + dec_val cs))"
proof (induction cs arbitrary: t)
  case (Cons c cs)
  then have cs: "digits cs" "48 \<le> uint c" "uint c \<le> 57" by (auto simp: digits_def)
  let ?d = "(uint c - 48) * 10 ^ length cs"
  have "0 \<le> ?d" "0 \<le> dec_val cs" using cs dec_val_bounds by simp_all
  then have "- (2 ^ 31) \<le> ?d \<and> ?d < 2 ^ 31 \<and> - (2 ^ 31) \<le> t + ?d \<and> t + ?d < 2 ^ 31 \<and> 0 \<le> t + ?d"
    using Cons.prems unfolding dec_val_Cons by linarith
  with Cons.IH [of "t + ?d"] Cons.prems(3) cs show ?case by (simp add: chk32_def dec_val_Cons add.assoc)
qed (simp add: dec_val_def)

text \<open>C21: \<^verbatim>\<open>strtoint\<close> converts a string of at most nine decimal digits to its value.\<close>

theorem strtoint_correct:
  assumes "digits cs" "0 < length cs" "length cs \<le> 9"
  shows "strtoint cs = Ret (dec_val cs)"
proof -
  have len: "(10 :: int) ^ length cs \<le> 10 ^ 9" using assms(3) by (intro power_increasing) simp_all
  have "\<not> hd cs = 45" using assms(1,2) by (cases cs) (auto simp: digits_def)
  moreover have "(10 :: int) ^ (length cs - 1) = 10 ^ length cs div 10"
    using assms(2) by (cases cs) simp_all
  moreover have "dec_val cs < 2 ^ 31" using dec_val_bounds [OF assms(1)] len by simp
  moreover have "(10 :: int) ^ (length cs - 1) < 2 ^ 31"
  proof -
    have "(10 :: int) ^ (length cs - 1) \<le> 10 ^ 8" using assms(3) by (intro power_increasing) auto
    then show ?thesis by simp
  qed
  ultimately show ?thesis
    using strtoint_mul_pow [of 1 "length cs - 1"] strtoint_loop_digits [OF assms(1), of 0]
    by (simp add: strtoint_def)
qed

theorem strtoint_correct_witness: "strtoint [49, 48, 52] = Ret 104"
  using strtoint_correct [of "[49, 48, 52]"] by (simp add: digits_def dec_val_def)

text \<open>\<^verbatim>\<open>strtoint\<close> of a negative number is wrong by a factor of ten: the scale is computed from the length
  of the string including the minus sign, so the string \<^verbatim>\<open>-d\<close> for a digit \<open>d\<close> gives minus ten times \<open>d\<close>.\<close>

theorem strtoint_negative:
  assumes "48 \<le> uint c" "uint c \<le> 57"
  shows "strtoint [45, c] = Ret (- (10 * (uint c - 48)))"
  using assms by (simp add: strtoint_def chk32_def)

theorem strtoint_negative_witness: "strtoint [45, 53] = Ret (-50)"
  using strtoint_negative [of 53] by simp

section \<open>Paths\<close>

definition strip_slashes :: "u8 list \<Rightarrow> u8 list" where
  "strip_slashes p = rev (dropWhile (\<lambda>c. c = 47) (rev p))"

text \<open>\<^verbatim>\<open>dirname\<close>, as the contents of the string it returns (the argument is cut in place).\<close>

definition dirname :: "u8 list \<Rightarrow> u8 list" where
  "dirname path =
     (if path = [] then [46]
      else if strip_slashes path = [] then [47]
      else let p = strip_slashes path; d = rev (dropWhile (\<lambda>c. c \<noteq> 47) (rev p)) in
        if length d = 1 then [47] else if d = [] then [46] else butlast d)"

lemma dirname_join:
  assumes "b \<noteq> []" "47 \<notin> set b" "d \<noteq> []"
  shows "dirname (d @ [47] @ b @ replicate k 47) = d"
proof -
  have "strip_slashes (d @ [47] @ b @ replicate k 47) = d @ [47] @ b"
  proof -
    have "dropWhile (\<lambda>c. c = 47) (replicate k 47 @ xs) = dropWhile (\<lambda>c. c = 47) xs" for xs :: "u8 list"
      by (induction k) simp_all
    moreover have "rev b \<noteq> []" "hd (rev b) \<noteq> 47" using assms(1,2) by (auto simp: hd_rev dest: last_in_set)
    ultimately show ?thesis
      by (cases "rev b") (auto simp: strip_slashes_def)
  qed
  moreover have "dropWhile (\<lambda>c. c \<noteq> 47) (rev b @ 47 # rev d) = 47 # rev d"
  proof -
    have "c \<noteq> 47" if "c \<in> set (rev b)" for c using assms(2) that by auto
    then show ?thesis by (subst dropWhile_append2) simp_all
  qed
  ultimately show ?thesis using assms(3) by (simp add: dirname_def)
qed

end
