(* ===== verification/Hash.thy ===== *)
theory Hash
  imports Rwlock Strings
begin

text \<open>
  Hash tables with separate chaining, \<^verbatim>\<open>library/klib/hash.c\<close> and \<^verbatim>\<open>hash_chain.c\<close>.  A chain is reached
  only through its slot of the table and its nodes are shared with nobody, so it is the list of its
  nodes; the counter \<^verbatim>\<open>num_in_chain\<close> is kept in every node although the code maintains it in the first
  one only.  Keys are the bytes that \<^verbatim>\<open>memcpy\<close> copies, with the two sizes.
\<close>

section \<open>Data\<close>

abbreviation HASH_MAGIC :: u32 where "HASH_MAGIC \<equiv> 0xABCD1234"
abbreviation HASH_ALLOC :: u32 where "HASH_ALLOC \<equiv> 1"

record hkey =
  hk_bytes :: "u8 list"
  hk_esz :: u64
  hk_len :: u64

record hnode =
  hn_entry :: ptr
  hn_key :: hkey
  hn_num :: u64

type_synonym chain = "hnode list"
type_synonym hfn = "nat \<Rightarrow> hkey \<Rightarrow> u32 \<Rightarrow> nat outcome"

text \<open>The table's size is an \<^verbatim>\<open>int\<close> that is never negative; \<open>ht_entries\<close> is \<open>None\<close> before the first resize.\<close>

record hash_table =
  ht_flags :: u32
  ht_magic :: u32
  ht_size :: nat
  ht_count :: u32
  ht_entries :: "chain list option"
  ht_fn :: "hfn option"
  ht_lock :: rwlock

section \<open>Keys and the hash function\<close>

definition default_byte_sum_fn :: hfn where
  "default_byte_sum_fn sz key iteration =
     (let sum = sum_list (map ucast (hk_bytes key)) + iteration :: u32 in
      if sz = 0 then Fault else Ret (unat sum mod sz))"

fun key_memcmp :: "u8 list \<Rightarrow> u8 list \<Rightarrow> int" where
  "key_memcmp (a # as) (b # bs) = (if a \<noteq> b then uint a - uint b else key_memcmp as bs)"
| "key_memcmp as bs = 0"

lemma memcmp_key: "memcmp m a b n = key_memcmp (mem_bytes m a n) (mem_bytes m b n)"
proof (induction n arbitrary: a b)
  case (Suc n)
  have "mem_bytes m x (Suc n) = m x # mem_bytes m (x + 1) n" for x
    by (simp add: mem_bytes_def upt_conv_Cons map_Suc_upt [symmetric] o_def del: upt_Suc)
  with Suc show ?case by simp
qed (simp add: mem_bytes_def)

definition hash_table_compare_keys :: "hkey \<Rightarrow> hkey \<Rightarrow> int" where
  "hash_table_compare_keys k1 k2 =
     (if hk_esz k1 \<noteq> hk_esz k2 then sint (ucast (hk_esz k1 - hk_esz k2) :: 32 word)
      else if hk_len k1 \<noteq> hk_len k2 then sint (ucast (hk_len k1 - hk_len k2) :: 32 word)
      else key_memcmp (hk_bytes k1) (hk_bytes k2))"

section \<open>Chains\<close>

definition chain_loc :: "hfn option \<Rightarrow> nat \<Rightarrow> hkey \<Rightarrow> (nat \<Rightarrow> 'b outcome) \<Rightarrow> 'b outcome" where
  "chain_loc fn sz key k =
     (case fn of None \<Rightarrow> Panic
      | Some f \<Rightarrow> obind (f sz key 0) (\<lambda>loc. oassert (loc < sz) (k loc)))"

definition hash_chain_get :: "chain list \<Rightarrow> hfn option \<Rightarrow> nat \<Rightarrow> hkey \<Rightarrow> (int \<times> ptr) outcome" where
  "hash_chain_get h fn sz key =
     chain_loc fn sz key (\<lambda>loc.
     case find (\<lambda>n. hash_table_compare_keys (hn_key n) key = 0) (h ! loc) of
       None \<Rightarrow> Ret (- ENOENT, 0)
     | Some n \<Rightarrow> Ret (0, hn_entry n))"

text \<open>The node is appended; then the counter of the first node of the chain goes up.\<close>

definition bump_head :: "(u64 \<Rightarrow> u64) \<Rightarrow> chain \<Rightarrow> chain" where
  "bump_head f c = (case c of [] \<Rightarrow> [] | n # ns \<Rightarrow> n\<lparr>hn_num := f (hn_num n)\<rparr> # ns)"

definition hash_chain_set :: "chain list \<Rightarrow> hfn option \<Rightarrow> nat \<Rightarrow> hkey \<Rightarrow> ptr \<Rightarrow> (int \<times> chain list) outcome" where
  "hash_chain_set h fn sz key val =
     oassert (val \<noteq> 0) (chain_loc fn sz key (\<lambda>loc.
     if list_ex (\<lambda>n. hash_table_compare_keys (hn_key n) key = 0) (h ! loc) then Ret (- EEXIST, h)
     else Ret (0, h[loc := bump_head (\<lambda>x. x + 1) (h ! loc @ [\<lparr>hn_entry = val, hn_key = key, hn_num = 0\<rparr>])])))"

text \<open>The search with a trailing pointer: \<open>Inl\<close> is not found; \<open>Inr\<close> the nodes before, the node, the nodes after.\<close>

fun chain_split :: "hkey \<Rightarrow> chain \<Rightarrow> (chain \<times> hnode \<times> chain) option" where
  "chain_split key [] = None"
| "chain_split key (n # ns) =
     (if hash_table_compare_keys (hn_key n) key = 0 then Some ([], n, ns)
      else case chain_split key ns of None \<Rightarrow> None | Some (us, x, vs) \<Rightarrow> Some (n # us, x, vs))"

definition hash_chain_del :: "chain list \<Rightarrow> hfn option \<Rightarrow> nat \<Rightarrow> hkey \<Rightarrow> (int \<times> chain list) outcome" where
  "hash_chain_del h fn sz key =
     chain_loc fn sz key (\<lambda>loc.
     case chain_split key (h ! loc) of
       None \<Rightarrow> Ret (- ENOENT, h)
     | Some (us, n, vs) \<Rightarrow>
         Ret (0, h[loc := (if us \<noteq> [] then bump_head (\<lambda>x. x - 1) (us @ vs)
                           else bump_head (\<lambda>_. hn_num n - 1) vs)]))"

fun hash_chain_enumerate :: "chain list \<Rightarrow> u64 \<Rightarrow> hnode option outcome" where
  "hash_chain_enumerate [] num = Ret None"
| "hash_chain_enumerate (c # cs) num =
     (case c of
        [] \<Rightarrow> hash_chain_enumerate cs num
      | n # ns \<Rightarrow>
          if hn_num n > num then oassert (unat num < length c) (Ret (Some (c ! unat num)))
          else hash_chain_enumerate cs (num - hn_num n))"

section \<open>Tables\<close>

definition hash_table_create :: "bool \<Rightarrow> u32 \<Rightarrow> u32 \<Rightarrow> hash_table outcome" where
  "hash_table_create alloc flags type =
     oassert (type < 5)
     (if type \<noteq> 1 then Panic
      else Ret \<lparr>ht_flags = (if alloc then HASH_ALLOC OR flags else flags), ht_magic = HASH_MAGIC, ht_size = 0,
                ht_count = 0, ht_entries = None, ht_fn = None, ht_lock = rwlock_create False\<rparr>)"

definition hash_table_specify_function :: "kenv \<Rightarrow> u32 \<Rightarrow> hash_table \<Rightarrow> hash_table outcome" where
  "hash_table_specify_function env fn h =
     oassert (fn < 1 \<and> ht_magic h = HASH_MAGIC)
     (obind (rwlock_acquire env (ht_lock h) RWL_WRITER) (\<lambda>l.
      oassert (ht_fn h = None \<or> ht_count h = 0)
      (obind (rwlock_release env l RWL_WRITER) (\<lambda>l.
       Ret (h\<lparr>ht_fn := Some default_byte_sum_fn, ht_lock := l\<rparr>)))))"

text \<open>
  The loops of \<^verbatim>\<open>hash_table_resize\<close> and \<^verbatim>\<open>hash_table_destroy\<close>: enumerate number \<open>i\<close>, move or delete it, go on
  with \<open>i + 1\<close>.  One unit of fuel per iteration.
\<close>

fun rehash_loop :: "nat \<Rightarrow> hfn option \<Rightarrow> nat \<Rightarrow> u64 \<Rightarrow> chain list \<Rightarrow> chain list \<Rightarrow> (chain list \<times> chain list) outcome" where
  "rehash_loop 0 fn new_size i old ne = Block"
| "rehash_loop (Suc fuel) fn new_size i old ne =
     obind (hash_chain_enumerate old i) (\<lambda>r. case r of None \<Rightarrow> Ret (old, ne)
     | Some n \<Rightarrow>
         obind (hash_chain_set ne fn new_size (hn_key n) (hn_entry n)) (\<lambda>(_, ne).
         obind (hash_chain_del old fn (length old) (hn_key n)) (\<lambda>(_, old).
         rehash_loop fuel fn new_size (i + 1) old ne)))"

fun delete_loop :: "nat \<Rightarrow> hfn option \<Rightarrow> u64 \<Rightarrow> chain list \<Rightarrow> chain list outcome" where
  "delete_loop 0 fn i old = Block"
| "delete_loop (Suc fuel) fn i old =
     obind (hash_chain_enumerate old i) (\<lambda>r. case r of None \<Rightarrow> Ret old
     | Some n \<Rightarrow>
         obind (hash_chain_del old fn (length old) (hn_key n)) (\<lambda>(_, old).
         delete_loop fuel fn (i + 1) old))"

datatype resize_mode = HASH_RESIZE_MODE_IGNORE | HASH_RESIZE_MODE_REHASH | HASH_RESIZE_MODE_DELETE | Other_mode

definition hash_table_resize :: "nat \<Rightarrow> kenv \<Rightarrow> resize_mode \<Rightarrow> nat \<Rightarrow> hash_table \<Rightarrow> (nat \<times> hash_table) outcome" where
  "hash_table_resize fuel env mode new_size h =
     (if ht_magic h \<noteq> HASH_MAGIC then Panic
      else let ne = replicate new_size [] in
      obind (rwlock_acquire env (ht_lock h) RWL_WRITER) (\<lambda>l.
      obind (case ht_entries h of
          None \<Rightarrow> Ret (ne, ht_count h)
        | Some old \<Rightarrow>
           (case mode of
              HASH_RESIZE_MODE_REHASH \<Rightarrow>
                obind (rehash_loop fuel (ht_fn h) new_size 0 old ne) (\<lambda>(_, ne). Ret (ne, ht_count h))
            | HASH_RESIZE_MODE_DELETE \<Rightarrow> obind (delete_loop fuel (ht_fn h) 0 old) (\<lambda>_. Ret (ne, 0))
            | HASH_RESIZE_MODE_IGNORE \<Rightarrow> Ret (ne, ht_count h)
            | Other_mode \<Rightarrow> Panic)) (\<lambda>(ne, count).
      obind (rwlock_release env l RWL_WRITER) (\<lambda>l.
      Ret (ht_size h, h\<lparr>ht_size := new_size, ht_entries := Some ne, ht_count := count, ht_lock := l\<rparr>)))))"

definition hash_table_get_entry :: "kenv \<Rightarrow> hkey \<Rightarrow> hash_table \<Rightarrow> ((int \<times> ptr) \<times> hash_table) outcome" where
  "hash_table_get_entry env key h =
     (case ht_entries h of None \<Rightarrow> Panic
      | Some e \<Rightarrow>
        if ht_magic h \<noteq> HASH_MAGIC then Panic
        else obind (rwlock_acquire env (ht_lock h) RWL_READER) (\<lambda>l.
          obind (hash_chain_get e (ht_fn h) (ht_size h) key) (\<lambda>r.
          obind (rwlock_release env l RWL_READER) (\<lambda>l. Ret (r, h\<lparr>ht_lock := l\<rparr>)))))"

definition hash_table_set_entry :: "kenv \<Rightarrow> hkey \<Rightarrow> ptr \<Rightarrow> hash_table \<Rightarrow> (int \<times> hash_table) outcome" where
  "hash_table_set_entry env key val h =
     (case ht_entries h of None \<Rightarrow> Panic
      | Some e \<Rightarrow>
        if ht_magic h \<noteq> HASH_MAGIC then Panic
        else obind (rwlock_acquire env (ht_lock h) RWL_WRITER) (\<lambda>l.
          obind (hash_chain_set e (ht_fn h) (ht_size h) key val) (\<lambda>(ret, e).
          let h = h\<lparr>ht_entries := Some e\<rparr>; h = (if ret = 0 then h\<lparr>ht_count := ht_count h + 1\<rparr> else h) in
          obind (rwlock_release env l RWL_WRITER) (\<lambda>l. Ret (ret, h\<lparr>ht_lock := l\<rparr>)))))"

definition hash_table_delete_entry :: "kenv \<Rightarrow> hkey \<Rightarrow> hash_table \<Rightarrow> (int \<times> hash_table) outcome" where
  "hash_table_delete_entry env key h =
     (case ht_entries h of None \<Rightarrow> Panic
      | Some e \<Rightarrow>
        if ht_magic h \<noteq> HASH_MAGIC then Panic
        else obind (rwlock_acquire env (ht_lock h) RWL_WRITER) (\<lambda>l.
          obind (hash_chain_del e (ht_fn h) (ht_size h) key) (\<lambda>(ret, e).
          let h = h\<lparr>ht_entries := Some e\<rparr>; h = (if ret = 0 then h\<lparr>ht_count := ht_count h - 1\<rparr> else h) in
          obind (rwlock_release env l RWL_WRITER) (\<lambda>l. Ret (ret, h\<lparr>ht_lock := l\<rparr>)))))"

definition hash_table_enumerate_entries :: "kenv \<Rightarrow> u64 \<Rightarrow> hash_table \<Rightarrow> (hnode option \<times> hash_table) outcome" where
  "hash_table_enumerate_entries env num h =
     (case ht_entries h of None \<Rightarrow> Panic
      | Some e \<Rightarrow>
        if ht_magic h \<noteq> HASH_MAGIC then Panic
        else obind (rwlock_acquire env (ht_lock h) RWL_READER) (\<lambda>l.
          obind (hash_chain_enumerate e num) (\<lambda>r.
          obind (rwlock_release env l RWL_READER) (\<lambda>l. Ret (r, h\<lparr>ht_lock := l\<rparr>)))))"

text \<open>The nodes still in the table when its array is freed are the second result.\<close>

definition hash_table_destroy :: "nat \<Rightarrow> kenv \<Rightarrow> hash_table \<Rightarrow> (hash_table \<times> chain list) outcome" where
  "hash_table_destroy fuel env h =
     (if ht_magic h \<noteq> HASH_MAGIC then Panic
      else obind (rwlock_acquire env (ht_lock h) RWL_WRITER) (\<lambda>l.
        obind (case ht_entries h of None \<Rightarrow> Ret []
               | Some e \<Rightarrow> delete_loop fuel (ht_fn h) 0 e) (\<lambda>e.
        obind (rwlock_destroy env l) (\<lambda>(l, _).
        Ret (h\<lparr>ht_lock := l, ht_magic := 0\<rparr>, e)))))"

section \<open>Comparison of keys is equality\<close>

text \<open>Keys as the kernel uses them: the bytes are as many as the sizes say, and the sizes fit in 32 bits.\<close>

definition key_ok :: "hkey \<Rightarrow> bool" where
  "key_ok k \<longleftrightarrow> length (hk_bytes k) = unat (hk_esz k) * unat (hk_len k) \<and> hk_esz k < 2 ^ 32 \<and> hk_len k < 2 ^ 32"

lemma trunc_diff_zero:
  assumes "a < 2 ^ 32" "b < 2 ^ 32" "a \<noteq> b"
  shows "sint (ucast (a - b :: u64) :: 32 word) \<noteq> 0"
proof
  assume "sint (ucast (a - b) :: 32 word) = 0"
  then have "(ucast (a - b) :: 32 word) = 0" by (simp only: signed_eq_0_iff)
  then have "uint (a - b) mod 2 ^ 32 = 0" by (simp add: unsigned_ucast_eq take_bit_eq_mod flip: uint_0_iff)
  moreover have "uint (a - b) mod 2 ^ 32 = (uint a - uint b) mod 2 ^ 32"
    by (simp add: uint_word_ariths mod_mod_cancel)
  ultimately have "(uint a - uint b) mod 2 ^ 32 = 0" by simp
  then have "uint a mod 2 ^ 32 = uint b mod 2 ^ 32" by (simp only: mod_eq_dvd_iff mod_eq_0_iff_dvd)
  moreover have "uint a < 2 ^ 32" "uint b < 2 ^ 32"
    using assms(1,2) by (simp_all add: word_less_def)
  ultimately have "uint a = uint b" using uint_ge_0 [of a] uint_ge_0 [of b] by (simp only: mod_pos_pos_trivial)
  with assms(3) show False unfolding word_uint_eq_iff by blast
qed

lemma key_memcmp_zero: "length as = length bs \<Longrightarrow> key_memcmp as bs = 0 \<longleftrightarrow> as = bs"
  by (induction as bs rule: key_memcmp.induct) (auto simp: word_uint_eq_iff)

lemma compare_keys_zero:
  assumes "key_ok k1" "key_ok k2"
  shows "hash_table_compare_keys k1 k2 = 0 \<longleftrightarrow> k1 = k2"
proof -
  have "hash_table_compare_keys k1 k2 = 0 \<longleftrightarrow> hk_esz k1 = hk_esz k2 \<and> hk_len k1 = hk_len k2 \<and> hk_bytes k1 = hk_bytes k2"
    using assms trunc_diff_zero key_memcmp_zero unfolding hash_table_compare_keys_def key_ok_def by metis
  then show ?thesis by (cases k1; cases k2) auto
qed

section \<open>The map a table represents\<close>

definition bucket :: "nat \<Rightarrow> hkey \<Rightarrow> nat" where
  "bucket sz k = unat (sum_list (map ucast (hk_bytes k)) :: u32) mod sz"

definition chain_ok :: "nat \<Rightarrow> nat \<Rightarrow> chain \<Rightarrow> bool" where
  "chain_ok sz i c \<longleftrightarrow> (c \<noteq> [] \<longrightarrow> hn_num (hd c) = of_nat (length c)) \<and> distinct (map hn_key c) \<and>
     (\<forall>n \<in> set c. key_ok (hn_key n) \<and> bucket sz (hn_key n) = i \<and> hn_entry n \<noteq> 0)"

definition tbl_ok :: "chain list \<Rightarrow> bool" where
  "tbl_ok t \<longleftrightarrow> t \<noteq> [] \<and> (\<forall>i < length t. chain_ok (length t) i (t ! i))"

text \<open>Entries of a chain in order, and the map of a chain and of a table.\<close>

definition pairs :: "chain \<Rightarrow> (hkey \<times> ptr) list" where
  "pairs c = map (\<lambda>n. (hn_key n, hn_entry n)) c"

definition tmap :: "chain list \<Rightarrow> hkey \<rightharpoonup> ptr" where
  "tmap t k = map_of (pairs (t ! bucket (length t) k)) k"

lemma pairs_simps [simp]:
  "pairs [] = []" "pairs (n # c) = (hn_key n, hn_entry n) # pairs c" "pairs (c @ d) = pairs c @ pairs d"
  "pairs (bump_head f c) = pairs c" "map fst (pairs c) = map hn_key c" "length (pairs c) = length c"
  by (auto simp: pairs_def bump_head_def split: list.splits)

lemma pairs_set: "(k, v) \<in> set (pairs c) \<longleftrightarrow> (\<exists>n \<in> set c. hn_key n = k \<and> hn_entry n = v)"
  by (auto simp: pairs_def)

lemma bump_head_simps [simp]:
  "bump_head f c = [] \<longleftrightarrow> c = []" "length (bump_head f c) = length c"
  "c \<noteq> [] \<Longrightarrow> hn_num (hd (bump_head f c)) = f (hn_num (hd c))"
  by (auto simp: bump_head_def split: list.splits)

text \<open>Whether a chain is in order depends on its entries and its first counter.\<close>

lemma chain_ok_pairs:
  "chain_ok sz i c \<longleftrightarrow> (c \<noteq> [] \<longrightarrow> hn_num (hd c) = of_nat (length c)) \<and> distinct (map fst (pairs c)) \<and>
     (\<forall>(k, v) \<in> set (pairs c). key_ok k \<and> bucket sz k = i \<and> v \<noteq> 0)"
  by (auto simp: chain_ok_def pairs_def o_def)

lemma bucket_less: "t \<noteq> [] \<Longrightarrow> bucket (length t) k < length t"
  by (simp add: bucket_def)

lemma chain_loc_default [simp]:
  "0 < sz \<Longrightarrow> chain_loc (Some default_byte_sum_fn) sz key k = k (bucket sz key)"
  by (simp add: chain_loc_def default_byte_sum_fn_def bucket_def Let_def)

lemma tbl_ok_chain: "tbl_ok t \<Longrightarrow> chain_ok (length t) (bucket (length t) k) (t ! bucket (length t) k)"
  by (simp add: tbl_ok_def bucket_less)

lemma tbl_ok_update:
  "tbl_ok t \<Longrightarrow> chain_ok (length t) i c \<Longrightarrow> tbl_ok (t[i := c])"
  by (cases "i < length t") (auto simp: tbl_ok_def nth_list_update)

lemma tmap_update:
  assumes "t \<noteq> []" "map_of (pairs c) = (map_of (pairs (t ! bucket (length t) k)))(k := v)"
  shows "tmap (t[bucket (length t) k := c]) = (tmap t)(k := v)"
proof
  fix x
  show "tmap (t[bucket (length t) k := c]) x = ((tmap t)(k := v)) x"
    using assms bucket_less [of t k] by (auto simp: tmap_def nth_list_update)
qed

lemma chain_ok_keys: "chain_ok sz i c \<Longrightarrow> \<forall>n \<in> set c. key_ok (hn_key n)"
  by (simp add: chain_ok_def)

lemma chain_find_map:
  "\<forall>n \<in> set c. key_ok (hn_key n) \<Longrightarrow> key_ok k \<Longrightarrow>
     map_option hn_entry (find (\<lambda>n. hash_table_compare_keys (hn_key n) k = 0) c) = map_of (pairs c) k"
  by (induction c) (auto simp: compare_keys_zero)

lemma chain_ex_map:
  "\<forall>n \<in> set c. key_ok (hn_key n) \<Longrightarrow> key_ok k \<Longrightarrow>
     list_ex (\<lambda>n. hash_table_compare_keys (hn_key n) k = 0) c = (map_of (pairs c) k \<noteq> None)"
  by (induction c) (auto simp: compare_keys_zero)

lemma chain_split_map:
  "\<forall>n \<in> set c. key_ok (hn_key n) \<Longrightarrow> key_ok k \<Longrightarrow>
     (case chain_split k c of None \<Rightarrow> map_of (pairs c) k = None
      | Some (us, n, vs) \<Rightarrow> c = us @ n # vs \<and> hn_key n = k)"
proof (induction c)
  case (Cons n c)
  then show ?case by (cases "chain_split k c") (auto simp: compare_keys_zero)
qed simp

lemma hash_chain_get_map:
  assumes "tbl_ok t" "key_ok k"
  shows "hash_chain_get t (Some default_byte_sum_fn) (length t) k =
     Ret (case tmap t k of None \<Rightarrow> (- ENOENT, 0) | Some v \<Rightarrow> (0, v))"
proof -
  note c = chain_ok_keys [OF tbl_ok_chain [OF assms(1), of k]]
  show ?thesis using assms chain_find_map [OF c assms(2)]
    by (auto simp: hash_chain_get_def tmap_def tbl_ok_def split: option.splits)
qed

lemma hash_chain_set_map:
  assumes "tbl_ok t" "key_ok k" "v \<noteq> 0"
  shows "\<exists>t'. hash_chain_set t (Some default_byte_sum_fn) (length t) k v =
       Ret (if tmap t k = None then 0 else - EEXIST, t') \<and> tbl_ok t' \<and> length t' = length t \<and>
     tmap t' = (if tmap t k = None then (tmap t)(k \<mapsto> v) else tmap t) \<and>
     length (concat t') = length (concat t) + (if tmap t k = None then 1 else 0)"
proof -
  let ?i = "bucket (length t) k"
  let ?c = "t ! ?i" and ?n = "\<lparr>hn_entry = v, hn_key = k, hn_num = 0\<rparr>"
  note ok = tbl_ok_chain [OF assms(1), of k]
  have t: "t \<noteq> []" "?i < length t" using assms(1) bucket_less by (auto simp: tbl_ok_def)
  have ex: "list_ex (\<lambda>n. hash_table_compare_keys (hn_key n) k = 0) ?c = (tmap t k \<noteq> None)"
    using chain_ex_map [OF chain_ok_keys [OF ok] assms(2)] by (simp add: tmap_def)
  show ?thesis
  proof (cases "tmap t k")
    case None
    let ?c' = "bump_head (\<lambda>x. x + 1) (?c @ [?n])"
    have "hash_chain_set t (Some default_byte_sum_fn) (length t) k v = Ret (0, t[?i := ?c'])"
      using None ex assms(3) t by (simp add: hash_chain_set_def)
    moreover have "tbl_ok (t[?i := ?c'])"
    proof (rule tbl_ok_update [OF assms(1)])
      have "k \<notin> hn_key ` set ?c" using None by (auto simp: tmap_def map_of_eq_None_iff pairs_def image_image)
      then show "chain_ok (length t) ?i ?c'"
        using ok assms(2,3) unfolding chain_ok_pairs by (auto simp: hd_append pairs_set)
    qed
    moreover have "tmap (t[?i := ?c']) = (tmap t)(k \<mapsto> v)"
      using None t(1) by (intro tmap_update) (auto simp: tmap_def map_add_def split: option.splits)
    moreover have "length (concat (t[?i := ?c'])) = length (concat t) + 1"
      using t(2) by (simp add: length_concat map_update sum_list_update)
    ultimately show ?thesis using None by simp
  next
    case (Some w)
    then have "hash_chain_set t (Some default_byte_sum_fn) (length t) k v = Ret (- EEXIST, t)"
      using ex assms(3) t by (simp add: hash_chain_set_def)
    with Some assms(1) show ?thesis by simp
  qed
qed

lemma filter_notin: "k \<notin> fst ` set xs \<Longrightarrow> filter (\<lambda>p. fst p \<noteq> k) xs = xs"
  by (induction xs) auto

lemma map_of_filter_neq: "map_of (filter (\<lambda>p. fst p \<noteq> k) xs) = (map_of xs)(k := None)"
  by (induction xs) auto

lemma pairs_concat: "pairs (concat t) = concat (map pairs t)"
  by (induction t) simp_all

lemma pairs_concat_update:
  assumes "i < length t" "\<And>j. j < length t \<Longrightarrow> j \<noteq> i \<Longrightarrow> k \<notin> fst ` set (pairs (t ! j))"
    and "pairs d = filter (\<lambda>p. fst p \<noteq> k) (pairs (t ! i))"
  shows "pairs (concat (t[i := d])) = filter (\<lambda>p. fst p \<noteq> k) (pairs (concat t))"
  using assms
proof (induction t arbitrary: i)
  case (Cons c t)
  show ?case
  proof (cases i)
    case 0
    have "k \<notin> fst ` set (pairs x)" if x: "x \<in> set t" for x
    proof -
      obtain j where "j < length t" "t ! j = x" using x by (auto simp: in_set_conv_nth)
      with Cons.prems(2) [of "Suc j"] 0 show ?thesis by simp
    qed
    then have "k \<notin> fst ` set (pairs (concat t))" by (auto simp: pairs_concat)
    then have "filter (\<lambda>p. fst p \<noteq> k) (pairs (concat t)) = pairs (concat t)" by (rule filter_notin)
    with 0 Cons.prems(3) show ?thesis by simp
  next
    case (Suc j)
    have "k \<notin> fst ` set (pairs c)" using Cons.prems(2) [of 0] Suc by simp
    then have "filter (\<lambda>p. fst p \<noteq> k) (pairs c) = pairs c" by (rule filter_notin)
    moreover have "pairs (concat (t[j := d])) = filter (\<lambda>p. fst p \<noteq> k) (pairs (concat t))"
    proof (rule Cons.IH)
      show "k \<notin> fst ` set (pairs (t ! m))" if "m < length t" "m \<noteq> j" for m
        using Cons.prems(2) [of "Suc m"] that Suc by simp
    qed (use Cons.prems Suc in simp_all)
    ultimately show ?thesis using Suc by simp
  qed
qed simp

lemma hash_chain_del_map:
  assumes "tbl_ok t" "key_ok k"
  shows "\<exists>t'. hash_chain_del t (Some default_byte_sum_fn) (length t) k =
       Ret (if tmap t k = None then - ENOENT else 0, t') \<and> tbl_ok t' \<and> length t' = length t \<and>
     tmap t' = (tmap t)(k := None) \<and>
     pairs (concat t') = filter (\<lambda>p. fst p \<noteq> k) (pairs (concat t))"
proof -
  let ?i = "bucket (length t) k"
  let ?c = "t ! ?i"
  note ok = tbl_ok_chain [OF assms(1), of k]
  have t: "t \<noteq> []" "?i < length t" using assms(1) bucket_less by (auto simp: tbl_ok_def)
  note sp = chain_split_map [OF chain_ok_keys [OF ok] assms(2)]
  have other: "k \<notin> fst ` set (pairs (t ! j))" if "j < length t" "j \<noteq> ?i" for j
    using assms(1) that by (auto simp: tbl_ok_def chain_ok_def pairs_def)
  have cat: "pairs (concat (t[?i := d])) = filter (\<lambda>p. fst p \<noteq> k) (pairs (concat t))"
    if "pairs d = filter (\<lambda>p. fst p \<noteq> k) (pairs ?c)" for d
    using t(2) other that by (rule pairs_concat_update)
  show ?thesis
  proof (cases "chain_split k ?c")
    case None
    then have n: "tmap t k = None" using sp by (simp add: tmap_def)
    then have "pairs ?c = filter (\<lambda>p. fst p \<noteq> k) (pairs ?c)"
      by (intro sym [OF filter_notin]) (simp add: tmap_def map_of_eq_None_iff)
    from cat [OF this] n None assms(1) t show ?thesis
      by (simp add: hash_chain_del_def fun_upd_idem)
  next
    case (Some r)
    obtain us n vs where r: "r = (us, n, vs)" by (cases r)
    then have c: "?c = us @ n # vs" "hn_key n = k" using sp Some by simp_all
    let ?c' = "if us \<noteq> [] then bump_head (\<lambda>x. x - 1) (us @ vs) else bump_head (\<lambda>_. hn_num n - 1) vs"
    have dist: "distinct (map hn_key (us @ n # vs))" using ok c by (simp add: chain_ok_def)
    have p: "pairs ?c' = pairs us @ pairs vs" by (cases "us = []") simp_all
    have "chain_ok (length t) ?i ?c'"
      using ok unfolding chain_ok_pairs c(1) p by (auto simp: hd_append split: if_splits)
    moreover have "k \<notin> fst ` set (pairs us)" "k \<notin> fst ` set (pairs vs)"
      using dist c(2) by (auto simp: pairs_def)
    then have f: "pairs us @ pairs vs = filter (\<lambda>p. fst p \<noteq> k) (pairs ?c)"
      using c by (simp add: filter_notin)
    moreover have "tmap (t[?i := ?c']) = (tmap t)(k := None)"
    proof (rule tmap_update [OF t(1)])
      show "map_of (pairs ?c') = (map_of (pairs ?c))(k := None)"
        unfolding p f by (rule map_of_filter_neq)
    qed
    moreover have "tmap t k \<noteq> None" using c by (simp add: tmap_def map_of_eq_None_iff)
    ultimately show ?thesis
      using Some r t cat [of ?c'] p f tbl_ok_update [OF assms(1)] by (simp add: hash_chain_del_def)
  qed
qed

section \<open>Refinement of a finite map\<close>

definition hash_rel :: "kenv \<Rightarrow> hash_table \<Rightarrow> (hkey \<rightharpoonup> ptr) \<Rightarrow> bool" where
  "hash_rel env h m \<longleftrightarrow> env_ok env \<and> rw_free (ht_lock h) \<and> ht_magic h = HASH_MAGIC \<and>
     ht_fn h = Some default_byte_sum_fn \<and>
     (\<exists>t. ht_entries h = Some t \<and> ht_size h = length t \<and> tbl_ok t \<and> tmap t = m \<and>
          ht_count h = of_nat (length (concat t)))"

datatype hop = HGet hkey | HSet hkey ptr | HDel hkey

fun hash_step :: "kenv \<Rightarrow> hop \<Rightarrow> hash_table \<Rightarrow> ((int \<times> ptr) \<times> hash_table) outcome" where
  "hash_step env (HGet k) h = hash_table_get_entry env k h"
| "hash_step env (HSet k v) h = obind (hash_table_set_entry env k v h) (\<lambda>(r, h). Ret ((r, 0), h))"
| "hash_step env (HDel k) h = obind (hash_table_delete_entry env k h) (\<lambda>(r, h). Ret ((r, 0), h))"

text \<open>The specification: a finite map in which an entry is set once and has a non-null value.\<close>

fun map_step :: "hop \<Rightarrow> (hkey \<rightharpoonup> ptr) \<Rightarrow> ((int \<times> ptr) \<times> (hkey \<rightharpoonup> ptr)) option" where
  "map_step (HGet k) m =
     (if key_ok k then Some (case m k of None \<Rightarrow> (- ENOENT, 0) | Some v \<Rightarrow> (0, v), m) else None)"
| "map_step (HSet k v) m =
     (if key_ok k \<and> v \<noteq> 0 then
        Some (case m k of None \<Rightarrow> ((0, 0), m(k \<mapsto> v)) | Some _ \<Rightarrow> ((- EEXIST, 0), m)) else None)"
| "map_step (HDel k) m =
     (if key_ok k then Some (((case m k of None \<Rightarrow> - ENOENT | Some _ \<Rightarrow> 0), 0), m(k := None)) else None)"

lemma length_filter_key:
  "distinct (map fst xs) \<Longrightarrow> length (filter (\<lambda>p. fst p \<noteq> k) xs) = length xs - (if k \<in> fst ` set xs then 1 else 0)"
proof (induction xs)
  case (Cons x xs)
  show ?case
  proof (cases "fst x = k")
    case True
    with Cons.prems have "k \<notin> fst ` set xs" by auto
    with True show ?thesis by (simp add: filter_notin)
  next
    case False
    then have "k \<in> fst ` set (x # xs) \<longleftrightarrow> k \<in> fst ` set xs" by auto
    moreover have "0 < length xs" if "k \<in> fst ` set xs" using that by (cases xs) auto
    ultimately show ?thesis using Cons False by (auto simp: Suc_diff_Suc)
  qed
qed simp

lemma tbl_ok_nth:
  assumes "tbl_ok t" "n \<in> set (concat t)"
  shows "n \<in> set (t ! bucket (length t) (hn_key n))"
proof -
  obtain i where i: "i < length t" "n \<in> set (t ! i)" using assms(2) by (metis in_set_conv_nth UN_E set_concat)
  then have "bucket (length t) (hn_key n) = i" using assms(1) by (auto simp: tbl_ok_def chain_ok_def)
  with i show ?thesis by simp
qed

lemma tbl_distinct:
  assumes "tbl_ok t"
  shows "distinct (map hn_key (concat t))"
proof -
  have "distinct (map hn_key (concat us))" if "\<forall>i < length us. chain_ok sz (k + i) (us ! i)" for us sz k
    using that
  proof (induction us arbitrary: k)
    case (Cons c us)
    have "chain_ok sz (k + 0) c" using Cons.prems by (metis length_greater_0_conv list.distinct(1) nth_Cons_0)
    have tail: "chain_ok sz (Suc k + i) (us ! i)" if "i < length us" for i
      using Cons.prems that by (metis Suc_less_eq add_Suc_shift length_Cons nth_Cons_Suc)
    have "hn_key m \<noteq> hn_key n" if m: "m \<in> set c" and n: "n \<in> set (concat us)" for m n
    proof -
      obtain i where "i < length us" "n \<in> set (us ! i)" using n by (metis in_set_conv_nth UN_E set_concat)
      then have "bucket sz (hn_key n) = Suc k + i" using tail by (auto simp: chain_ok_def)
      moreover have "bucket sz (hn_key m) = k" using \<open>chain_ok sz (k + 0) c\<close> m by (auto simp: chain_ok_def)
      ultimately show ?thesis by auto
    qed
    then have "hn_key ` set c \<inter> hn_key ` set (concat us) = {}" by blast
    moreover have "distinct (map hn_key (concat us))" using Cons.IH [of "Suc k"] tail by blast
    moreover have "distinct (map hn_key c)" using \<open>chain_ok sz (k + 0) c\<close> by (simp add: chain_ok_def)
    ultimately show ?case by simp
  qed simp
  from this [of t "length t" 0] assms show ?thesis by (simp add: tbl_ok_def)
qed

lemma tmap_concat:
  assumes "tbl_ok t"
  shows "tmap t = map_of (pairs (concat t))"
proof
  fix k
  let ?c = "t ! bucket (length t) k"
  have sub: "set ?c \<subseteq> set (concat t)" using assms bucket_less [of t k] by (force simp: tbl_ok_def in_set_conv_nth)
  have d: "distinct (map fst (pairs (concat t)))" "distinct (map fst (pairs ?c))"
    using tbl_distinct [OF assms] tbl_ok_chain [OF assms, of k] by (simp_all add: chain_ok_def)
  have "map_of (pairs ?c) k = Some v \<longleftrightarrow> map_of (pairs (concat t)) k = Some v" for v
  proof -
    have "(k, v) \<in> set (pairs ?c) \<longleftrightarrow> (k, v) \<in> set (pairs (concat t))"
      unfolding pairs_set using sub tbl_ok_nth [OF assms] by blast
    then show ?thesis by (simp only: map_of_eq_Some_iff [OF d(1)] map_of_eq_Some_iff [OF d(2)])
  qed
  then show "tmap t k = map_of (pairs (concat t)) k"
    unfolding tmap_def by (metis not_Some_eq)
qed

interpretation hsim: simulation "hash_step env" map_step "hash_rel env" for env
proof unfold_locales
  fix h m x r m'
  assume rel: "hash_rel env h m" and step: "map_step x m = Some (r, m')"
  obtain t where t: "env_ok env" "rw_free (ht_lock h)" "ht_magic h = HASH_MAGIC" "ht_fn h = Some default_byte_sum_fn"
      "ht_entries h = Some t" "ht_size h = length t" "ht_count h = of_nat (length (concat t))"
    and ok: "tbl_ok t" and m: "m = tmap t"
    using rel by (auto simp: hash_rel_def)
  show "\<exists>h'. hash_step env x h = Ret (r, h') \<and> hash_rel env h' m'"
  proof (cases x)
    case (HGet k)
    with step have k: "key_ok k" "r = (case m k of None \<Rightarrow> (- ENOENT, 0) | Some v \<Rightarrow> (0, v))" "m' = m"
      by (auto split: if_splits)
    have "hash_step env x h = Ret (r, h)"
      using HGet t hash_chain_get_map [OF ok k(1)] k(2) m
      by (simp add: hash_table_get_entry_def rd.transparent_pure lock_simps)
    with rel k(3) show ?thesis by simp
  next
    case (HSet k v)
    with step have k: "key_ok k" "v \<noteq> 0" by (auto split: if_splits)
    obtain t' where t': "hash_chain_set t (Some default_byte_sum_fn) (length t) k v =
         Ret (if tmap t k = None then 0 else - EEXIST, t')" "tbl_ok t'" "length t' = length t"
       "tmap t' = (if tmap t k = None then (tmap t)(k \<mapsto> v) else tmap t)"
       "length (concat t') = length (concat t) + (if tmap t k = None then 1 else 0)"
      using hash_chain_set_map [OF ok k] by blast
    show ?thesis
      using HSet step t t' k m
      by (cases "tmap t k") (auto simp: hash_table_set_entry_def lock_simps hash_rel_def)
  next
    case (HDel k)
    with step have k: "key_ok k" by (auto split: if_splits)
    obtain t' where t': "hash_chain_del t (Some default_byte_sum_fn) (length t) k =
         Ret (if tmap t k = None then - ENOENT else 0, t')" "tbl_ok t'" "length t' = length t"
       "tmap t' = (tmap t)(k := None)" and f: "pairs (concat t') = filter (\<lambda>p. fst p \<noteq> k) (pairs (concat t))"
      using hash_chain_del_map [OF ok k] by blast
    have "length (concat t') = length (concat t) - (if tmap t k = None then 0 else 1)"
      using arg_cong [OF f, of length] length_filter_key [of "pairs (concat t)" k] tbl_distinct [OF ok]
      by (simp add: tmap_concat [OF ok] map_of_eq_None_iff)
    moreover have "0 < length (concat t)" if "tmap t k \<noteq> None"
      using that by (cases "concat t") (auto simp: tmap_concat [OF ok] simp del: concat_eq_Nil_conv)
    ultimately have "of_nat (length (concat t')) = (of_nat (length (concat t)) - (if tmap t k = None then 0 else 1) :: u32)"
      by (auto simp: Suc_le_eq)
    then show ?thesis
      using HDel step t t' k m
      by (cases "tmap t k") (auto simp: hash_table_delete_entry_def lock_simps hash_rel_def)
  qed
qed

definition hash_new :: "kenv \<Rightarrow> nat \<Rightarrow> (nat \<times> hash_table) outcome" where
  "hash_new env n =
     obind (hash_table_create True 0 1) (\<lambda>h. obind (hash_table_specify_function env 0 h)
       (hash_table_resize 0 env HASH_RESIZE_MODE_IGNORE n))"

lemma tbl_ok_empty: "0 < n \<Longrightarrow> tbl_ok (replicate n []) \<and> tmap (replicate n []) = Map.empty"
  by (auto simp: tbl_ok_def chain_ok_def tmap_def bucket_def fun_eq_iff)

lemma hash_new_rel:
  assumes "env_ok env" "0 < n"
  shows "\<exists>h. hash_new env n = Ret (0, h) \<and> hash_rel env h Map.empty"
proof -
  have "rw_free (rwlock_create False)" by (simp add: rwlock_create_def rw_free_def)
  with assms tbl_ok_empty [OF assms(2)] show ?thesis
    by (simp add: hash_new_def hash_table_create_def hash_table_specify_function_def hash_table_resize_def
        lock_simps hash_rel_def Let_def)
qed


definition byte_key :: "u8 \<Rightarrow> hkey" where
  "byte_key b = \<lparr>hk_bytes = [b], hk_esz = 1, hk_len = 1\<rparr>"

lemma byte_key_ok: "key_ok (byte_key b)" "byte_key a = byte_key b \<longleftrightarrow> a = b"
  by (simp_all add: key_ok_def byte_key_def)


section \<open>Enumeration\<close>

lemma unat_u64: "x < 2 ^ 64 \<Longrightarrow> unat (of_nat x :: u64) = x"
  by (simp add: unat_of_nat)

lemma enumerate_nth:
  assumes "\<forall>c \<in> set t. c \<noteq> [] \<longrightarrow> hn_num (hd c) = of_nat (length c)" "length (concat t) < 2 ^ 64" "i < 2 ^ 64"
  shows "hash_chain_enumerate t (of_nat i) = Ret (if i < length (concat t) then Some (concat t ! i) else None)"
  using assms
proof (induction t arbitrary: i)
  case (Cons c t)
  show ?case
  proof (cases c)
    case Nil
    with Cons show ?thesis by simp
  next
    case (Cons n ns)
    have num: "hn_num n = of_nat (length c)" using Cons.prems(1) Cons by simp
    have len: "length c < 2 ^ 64" using Cons.prems(2) by simp
    have less: "hn_num n > of_nat i \<longleftrightarrow> i < length c"
      using len Cons.prems(3) by (simp add: num word_less_nat_alt unat_u64)
    show ?thesis
    proof (cases "i < length c")
      case True
      with less Cons.prems(3) Cons show ?thesis using nth_append [of c "concat t" i] by (simp add: unat_u64)
    next
      case False
      then have sub: "of_nat i - hn_num n = (of_nat (i - length c) :: u64)" by (simp add: num)
      have "hash_chain_enumerate (c # t) (of_nat i) = hash_chain_enumerate t (of_nat i - hn_num n)"
        using less False Cons by simp
      also have "\<dots> = Ret (if i - length c < length (concat t) then Some (concat t ! (i - length c)) else None)"
        unfolding sub using Cons.prems by (intro Cons.IH) simp_all
      finally show ?thesis using False nth_append [of c "concat t" i] by auto
    qed
  qed
qed simp

lemma tbl_ok_heads: "tbl_ok t \<Longrightarrow> \<forall>c \<in> set t. c \<noteq> [] \<longrightarrow> hn_num (hd c) = of_nat (length c)"
  by (auto simp: tbl_ok_def chain_ok_def in_set_conv_nth)

text \<open>C17: Enumerating a hash table by number visits every entry exactly once.  There is a list of the
  table's entries, with distinct keys and with the table's map as its map, such that number \<open>i\<close> is the
  \<open>i\<close>-th element of the list and every number past its end gives \<^verbatim>\<open>-ENOENT\<close>.\<close>

theorem hash_enumerate_complete:
  assumes "hash_rel env h m" "card (dom m) < 2 ^ 64"
  shows "\<exists>es. distinct (map fst es) \<and> map_of es = m \<and>
     (\<forall>i < 2 ^ 64. \<exists>r. hash_table_enumerate_entries env (of_nat i) h = Ret (r, h) \<and>
        map_option (\<lambda>n. (hn_key n, hn_entry n)) r = (if i < length es then Some (es ! i) else None))"
proof -
  obtain t where t: "env_ok env" "rw_free (ht_lock h)" "ht_magic h = HASH_MAGIC" "ht_entries h = Some t"
      "tbl_ok t" "tmap t = m"
    using assms(1) by (auto simp: hash_rel_def)
  let ?es = "pairs (concat t)"
  have d: "distinct (map fst ?es)" using tbl_distinct [OF t(5)] by simp
  moreover have m: "map_of ?es = m" using t tmap_concat by simp
  moreover have "length (concat t) < 2 ^ 64"
  proof -
    have "dom m = set (map fst ?es)" unfolding m [symmetric] by (simp only: dom_map_of_conv_image_fst set_map)
    then have "card (dom m) = length (map fst ?es)" by (simp only: distinct_card [OF d])
    with assms(2) show ?thesis by simp
  qed
  ultimately show ?thesis
    using t enumerate_nth [OF tbl_ok_heads [OF t(5)]]
    by (intro exI [of _ ?es]) (simp add: hash_table_enumerate_entries_def lock_simps pairs_def)
qed

theorem hash_enumerate_complete_witness:
  "\<exists>h es. distinct (map fst es) \<and> map_of es = [byte_key 7 \<mapsto> 70] \<and>
     (\<forall>i < 2 ^ 64. \<exists>r. hash_table_enumerate_entries (task_env 1) (of_nat i) h = Ret (r, h) \<and>
        map_option (\<lambda>n. (hn_key n, hn_entry n)) r = (if i < length es then Some (es ! i) else None))"
proof -
  have env: "env_ok (task_env 1)" by (simp add: env_ok_def task_env_def)
  have "run_abs map_step [HSet (byte_key 7) 70] Map.empty = Some ([(0, 0)], [byte_key 7 \<mapsto> 70])"
    by (simp add: byte_key_ok)
  then obtain h where h: "hash_rel (task_env 1) h [byte_key 7 \<mapsto> 70]"
    using hash_new_rel [OF env, of 3] hsim.run_simulates by (metis zero_less_numeral)
  have "card (dom [byte_key 7 \<mapsto> 70 :: ptr]) < 2 ^ 64" by simp
  from hash_enumerate_complete [OF h this] show ?thesis by blast
qed

section \<open>Resizing loses entries\<close>

fun every_other :: "'a list \<Rightarrow> 'a list" where
  "every_other [] = []"
| "every_other [x] = [x]"
| "every_other (x # y # zs) = x # every_other zs"

lemma every_other_drop: "i < length xs \<Longrightarrow> every_other (drop i xs) = xs ! i # every_other (drop (i + 2) xs)"
  by (cases "drop (Suc i) xs") (auto simp: Cons_nth_drop_Suc [symmetric] drop_Suc [symmetric] simp flip: drop_drop, metis drop_Suc list.sel(3) tl_drop)

lemma distinct_every_other: "distinct (map fst xs) \<Longrightarrow> distinct (map fst (every_other xs))"
proof (induction xs rule: every_other.induct)
  case (3 x y zs)
  then have "fst x \<notin> fst ` set zs" by auto
  moreover have "set (every_other zs) \<subseteq> set zs" by (induction zs rule: every_other.induct) auto
  ultimately have "fst x \<notin> fst ` set (every_other zs)" by blast
  with 3 show ?case by simp
qed simp_all

lemma tbl_card: "tbl_ok t \<Longrightarrow> card (dom (tmap t)) = length (concat t)"
proof -
  assume ok: "tbl_ok t"
  have "dom (tmap t) = set (map fst (pairs (concat t)))"
    unfolding tmap_concat [OF ok] by (simp only: dom_map_of_conv_image_fst set_map)
  moreover have "card (set (map fst (pairs (concat t)))) = length (map fst (pairs (concat t)))"
    using tbl_distinct [OF ok] by (intro distinct_card) simp
  ultimately show ?thesis by simp
qed

lemma set_every_other: "set (every_other xs) \<subseteq> set xs"
  by (induction xs rule: every_other.induct) auto

lemma filter_key_nth:
  "distinct (map fst xs) \<Longrightarrow> i < length xs \<Longrightarrow> filter (\<lambda>p. fst p \<noteq> fst (xs ! i)) xs = take i xs @ drop (Suc i) xs"
proof (induction xs arbitrary: i)
  case (Cons x xs)
  show ?case
  proof (cases i)
    case 0
    with Cons.prems show ?thesis by (simp add: filter_notin)
  next
    case (Suc j)
    then have "fst (xs ! j) \<in> fst ` set xs" using Cons.prems(2) by simp
    moreover have "fst x \<notin> fst ` set xs" using Cons.prems(1) by simp
    ultimately have "fst x \<noteq> fst (xs ! j)" by metis
    with Cons Suc show ?thesis by simp
  qed
qed simp

lemma tbl_ok_pairs:
  assumes "tbl_ok t" "(k, v) \<in> set (pairs (concat t))"
  shows "key_ok k \<and> v \<noteq> 0"
proof -
  obtain n where n: "n \<in> set (concat t)" "hn_key n = k" "hn_entry n = v" using assms(2) unfolding pairs_set by blast
  then have "n \<in> set (t ! bucket (length t) k)" using tbl_ok_nth [OF assms(1)] by blast
  with tbl_ok_chain [OF assms(1), of k] n show ?thesis by (auto simp: chain_ok_def)
qed

lemma rehash_loop_moves:
  assumes "tbl_ok old" "tbl_ok ne" "length (concat old) < 2 ^ 64" "i < 2 ^ 64"
    and "length (concat old) < i + fuel" "0 < fuel" "fst ` set (pairs (concat old)) \<inter> dom (tmap ne) = {}"
  shows "\<exists>old' ne'. rehash_loop fuel (Some default_byte_sum_fn) (length ne) (of_nat i) old ne = Ret (old', ne') \<and>
     tbl_ok ne' \<and> length ne' = length ne \<and> tmap ne' = tmap ne ++ map_of (every_other (drop i (pairs (concat old))))"
  using assms
proof (induction fuel arbitrary: i old ne)
  case (Suc fuel)
  let ?L = "pairs (concat old)"
  note en = enumerate_nth [OF tbl_ok_heads [OF Suc.prems(1)] Suc.prems(3), of i]
  show ?case
  proof (cases "i < length (concat old)")
    case False
    with en Suc.prems show ?thesis by simp
  next
    case True
    let ?n = "concat old ! i"
    let ?k = "hn_key ?n" and ?v = "hn_entry ?n"
    have nth: "?L ! i = (?k, ?v)" using True by (simp add: pairs_def)
    then have in_L: "(?k, ?v) \<in> set ?L" using True nth_mem [of i ?L] by simp
    then have kv: "key_ok ?k" "?v \<noteq> 0" using tbl_ok_pairs [OF Suc.prems(1)] by blast+
    have k_ne: "tmap ne ?k = None" using in_L Suc.prems(7) by (metis (no_types, lifting) disjoint_iff domIff fst_conv image_eqI)
    obtain ne' where ne': "hash_chain_set ne (Some default_byte_sum_fn) (length ne) ?k ?v = Ret (0, ne')"
        "tbl_ok ne'" "length ne' = length ne" "tmap ne' = (tmap ne)(?k \<mapsto> ?v)"
      using hash_chain_set_map [OF Suc.prems(2) kv] k_ne by auto
    have "?k \<in> fst ` set ?L" using in_L by (rule rev_image_eqI) simp
    then have k_old: "tmap old ?k \<noteq> None" by (simp add: tmap_concat [OF Suc.prems(1)] map_of_eq_None_iff)
    obtain old' where old': "hash_chain_del old (Some default_byte_sum_fn) (length old) ?k = Ret (0, old')"
        "tbl_ok old'" and L': "pairs (concat old') = filter (\<lambda>p. fst p \<noteq> ?k) ?L"
      using hash_chain_del_map [OF Suc.prems(1) kv(1)] k_old by auto
    have d: "distinct (map fst ?L)" using tbl_distinct [OF Suc.prems(1)] by simp
    have cut: "pairs (concat old') = take i ?L @ drop (Suc i) ?L"
      using filter_key_nth [OF d, of i] True by (simp add: L' nth)
    have "length (pairs (concat old')) = length ?L - 1" unfolding cut using True by simp
    then have len: "length (concat old') = length (concat old) - 1" by simp
    have rest: "drop (i + 1) (pairs (concat old')) = drop (i + 2) ?L"
      using True by (simp add: cut)
    have "fst ` set (pairs (concat old')) \<inter> dom (tmap ne') = {}"
      using Suc.prems(7) by (auto simp: ne'(4) L')
    moreover have "length (concat old') < 2 ^ 64" "i + 1 < 2 ^ 64" "length (concat old') < i + 1 + fuel" "0 < fuel"
      unfolding len using True Suc.prems(3,5) by simp_all
    ultimately obtain old'' ne'' where IH: "rehash_loop fuel (Some default_byte_sum_fn) (length ne') (of_nat (i + 1)) old' ne' = Ret (old'', ne'')"
        "tbl_ok ne''" "length ne'' = length ne'" "tmap ne'' = tmap ne' ++ map_of (every_other (drop (i + 2) ?L))"
      using Suc.IH [of old' ne' "i + 1"] old'(2) ne'(2) unfolding rest by blast
    have "?k \<notin> dom (map_of (every_other (drop (i + 2) ?L)))"
    proof -
      have "?k \<notin> fst ` set (drop (Suc i) ?L)"
      proof -
        have "drop i ?L = (?k, ?v) # drop (Suc i) ?L" using Cons_nth_drop_Suc [of i ?L] True nth by simp
        moreover have "distinct (map fst (drop i ?L))" using distinct_drop [OF d, of i] by (simp only: drop_map)
        ultimately show ?thesis by simp
      qed
      moreover have "set (every_other (drop (i + 2) ?L)) \<subseteq> set (drop (Suc i) ?L)"
        using set_every_other [of "drop (i + 2) ?L"] set_drop_subset_set_drop [of "Suc i" "i + 2" ?L] by simp
      ultimately show ?thesis unfolding dom_map_of_conv_image_fst by blast
    qed
    then have "tmap ne'' = tmap ne ++ map_of (every_other (drop i ?L))"
      using every_other_drop [of i ?L] True by (simp add: IH(4) ne'(4) nth map_add_upd_left)
    with IH(1-3) show ?thesis using en True ne' old'(1) Suc.prems(3) by (simp add: add.commute)
  qed
qed simp



end
