(* ===== verification/Rijndael.thy ===== *)
theory Rijndael
  imports AesTables Bytes
begin

text \<open>
  The cipher of \<^verbatim>\<open>drivers/aes/rijndael.c\<close>.  Keys and
  blocks are bytes of a flat memory; a round key array \<^verbatim>\<open>rk\<close> is a function from the index of a word to the
  word and lies apart from that memory.  The source is compiled with \<^verbatim>\<open>FULL_UNROLL\<close>: the rounds below are the
  unrolled ones.  The theorems show that decryption inverts encryption for every key and block, also in
  place, that encryption is the cipher the standard defines by its four transformations, and that the key
  setup stays within the array the callers allocate.
\<close>

unbundle bit_operations_syntax

section \<open>The cipher\<close>

type_synonym rkeys = "nat \<Rightarrow> u32"
type_synonym cstate = "u32 \<times> u32 \<times> u32 \<times> u32"

definition GETU32 :: "mem \<Rightarrow> nat \<Rightarrow> u32" where
  "GETU32 m p = push_bit 24 (ucast (m p)) XOR push_bit 16 (ucast (m (p + 1))) XOR
     push_bit 8 (ucast (m (p + 2))) XOR ucast (m (p + 3))"

definition PUTU32 :: "mem \<Rightarrow> nat \<Rightarrow> u32 \<Rightarrow> mem" where
  "PUTU32 m p st = m(p := ucast (drop_bit 24 st), p + 1 := ucast (drop_bit 16 st),
     p + 2 := ucast (drop_bit 8 st), p + 3 := ucast st)"

text \<open>A table lookup with a word as its index.\<close>

abbreviation tab :: "u32 list \<Rightarrow> u32 \<Rightarrow> u32" where
  "tab t w \<equiv> t ! unat w"

text \<open>The key schedule core: substitute the bytes of the word rotated by one byte.\<close>

definition rot_sub :: "u32 \<Rightarrow> u32" where
  "rot_sub temp = (tab Te4 (drop_bit 16 temp AND 0xff) AND 0xff000000) XOR
     (tab Te4 (drop_bit 8 temp AND 0xff) AND 0x00ff0000) XOR
     (tab Te4 (temp AND 0xff) AND 0x0000ff00) XOR
     (tab Te4 (drop_bit 24 temp) AND 0x000000ff)"

definition sub_word :: "u32 \<Rightarrow> u32" where
  "sub_word temp = (tab Te4 (drop_bit 24 temp) AND 0xff000000) XOR
     (tab Te4 (drop_bit 16 temp AND 0xff) AND 0x00ff0000) XOR
     (tab Te4 (drop_bit 8 temp AND 0xff) AND 0x0000ff00) XOR
     (tab Te4 (temp AND 0xff) AND 0x000000ff)"

text \<open>
  One turn of each expansion loop; \<open>i\<close> is the loop counter and \<open>b\<close> the number of words the pointer \<^verbatim>\<open>rk\<close>
  has advanced.  The loops leave in the middle of their last turn.
\<close>

definition expand128 :: "nat \<Rightarrow> rkeys \<Rightarrow> rkeys" where
  "expand128 i rk =
     (let b = 4 * i;
          rk = rk(b + 4 := rk b XOR rot_sub (rk (b + 3)) XOR rcon ! i);
          rk = rk(b + 5 := rk (b + 1) XOR rk (b + 4));
          rk = rk(b + 6 := rk (b + 2) XOR rk (b + 5))
      in rk(b + 7 := rk (b + 3) XOR rk (b + 6)))"

definition expand192 :: "nat \<Rightarrow> rkeys \<Rightarrow> rkeys" where
  "expand192 i rk =
     (let b = 6 * i;
          rk = rk(b + 6 := rk b XOR rot_sub (rk (b + 5)) XOR rcon ! i);
          rk = rk(b + 7 := rk (b + 1) XOR rk (b + 6));
          rk = rk(b + 8 := rk (b + 2) XOR rk (b + 7));
          rk = rk(b + 9 := rk (b + 3) XOR rk (b + 8))
      in if i + 1 = 8 then rk
         else let rk = rk(b + 10 := rk (b + 4) XOR rk (b + 9)) in rk(b + 11 := rk (b + 5) XOR rk (b + 10)))"

definition expand256 :: "nat \<Rightarrow> rkeys \<Rightarrow> rkeys" where
  "expand256 i rk =
     (let b = 8 * i;
          rk = rk(b + 8 := rk b XOR rot_sub (rk (b + 7)) XOR rcon ! i);
          rk = rk(b + 9 := rk (b + 1) XOR rk (b + 8));
          rk = rk(b + 10 := rk (b + 2) XOR rk (b + 9));
          rk = rk(b + 11 := rk (b + 3) XOR rk (b + 10))
      in if i + 1 = 7 then rk
         else let rk = rk(b + 12 := rk (b + 4) XOR sub_word (rk (b + 11)));
                  rk = rk(b + 13 := rk (b + 5) XOR rk (b + 12));
                  rk = rk(b + 14 := rk (b + 6) XOR rk (b + 13))
              in rk(b + 15 := rk (b + 7) XOR rk (b + 14)))"

definition rijndaelSetupEncrypt :: "mem \<Rightarrow> rkeys \<Rightarrow> nat \<Rightarrow> int \<Rightarrow> nat \<times> rkeys" where
  "rijndaelSetupEncrypt m rk key keybits =
     (let rk = rk(0 := GETU32 m key, 1 := GETU32 m (key + 4), 2 := GETU32 m (key + 8), 3 := GETU32 m (key + 12)) in
      if keybits = 128 then (10, fold expand128 [0..<10] rk)
      else let rk = rk(4 := GETU32 m (key + 16), 5 := GETU32 m (key + 20)) in
      if keybits = 192 then (12, fold expand192 [0..<8] rk)
      else let rk = rk(6 := GETU32 m (key + 24), 7 := GETU32 m (key + 28)) in
      if keybits = 256 then (14, fold expand256 [0..<7] rk)
      else (0, rk))"

text \<open>The decryption schedule: reverse the order of the round keys, then mix the inner ones.\<close>

function invert_keys :: "nat \<Rightarrow> nat \<Rightarrow> rkeys \<Rightarrow> rkeys" where
  "invert_keys i j rk =
     (if i < j then
        let rk = rk(i := rk j, j := rk i);
            rk = rk(i + 1 := rk (j + 1), j + 1 := rk (i + 1));
            rk = rk(i + 2 := rk (j + 2), j + 2 := rk (i + 2));
            rk = rk(i + 3 := rk (j + 3), j + 3 := rk (i + 3))
        in invert_keys (i + 4) (j - 4) rk
      else rk)"
  by auto
termination by (relation "measure (\<lambda>(i, j, _). j - i)") auto

definition inv_mix_key :: "u32 \<Rightarrow> u32" where
  "inv_mix_key w = tab Td0 (tab Te4 (drop_bit 24 w) AND 0xff) XOR
     tab Td1 (tab Te4 (drop_bit 16 w AND 0xff) AND 0xff) XOR
     tab Td2 (tab Te4 (drop_bit 8 w AND 0xff) AND 0xff) XOR
     tab Td3 (tab Te4 (w AND 0xff) AND 0xff)"

definition inv_mix_round :: "nat \<Rightarrow> rkeys \<Rightarrow> rkeys" where
  "inv_mix_round i rk =
     (let b = 4 * i in rk(b := inv_mix_key (rk b), b + 1 := inv_mix_key (rk (b + 1)),
        b + 2 := inv_mix_key (rk (b + 2)), b + 3 := inv_mix_key (rk (b + 3))))"

definition rijndaelSetupDecrypt :: "mem \<Rightarrow> rkeys \<Rightarrow> nat \<Rightarrow> int \<Rightarrow> nat \<times> rkeys" where
  "rijndaelSetupDecrypt m rk key keybits =
     (let (nrounds, rk) = rijndaelSetupEncrypt m rk key keybits;
          rk = invert_keys 0 (4 * nrounds) rk
      in (nrounds, fold inv_mix_round [1..<nrounds] rk))"

text \<open>One column of a full round, a round, and the last round.\<close>

definition te_col :: "u32 \<Rightarrow> u32 \<Rightarrow> u32 \<Rightarrow> u32 \<Rightarrow> u32" where
  "te_col a b c d = tab Te0 (drop_bit 24 a) XOR tab Te1 (drop_bit 16 b AND 0xff) XOR
     tab Te2 (drop_bit 8 c AND 0xff) XOR tab Te3 (d AND 0xff)"

definition enc_round :: "rkeys \<Rightarrow> nat \<Rightarrow> cstate \<Rightarrow> cstate" where
  "enc_round rk k = (\<lambda>(s0, s1, s2, s3).
     (te_col s0 s1 s2 s3 XOR rk k, te_col s1 s2 s3 s0 XOR rk (k + 1),
      te_col s2 s3 s0 s1 XOR rk (k + 2), te_col s3 s0 s1 s2 XOR rk (k + 3)))"

definition te_last :: "u32 \<Rightarrow> u32 \<Rightarrow> u32 \<Rightarrow> u32 \<Rightarrow> u32" where
  "te_last a b c d = (tab Te4 (drop_bit 24 a) AND 0xff000000) XOR
     (tab Te4 (drop_bit 16 b AND 0xff) AND 0x00ff0000) XOR
     (tab Te4 (drop_bit 8 c AND 0xff) AND 0x0000ff00) XOR
     (tab Te4 (d AND 0xff) AND 0x000000ff)"

definition enc_last :: "rkeys \<Rightarrow> cstate \<Rightarrow> mem \<Rightarrow> nat \<Rightarrow> mem" where
  "enc_last rk = (\<lambda>(t0, t1, t2, t3) m ct.
     let m = PUTU32 m ct (te_last t0 t1 t2 t3 XOR rk 0);
         m = PUTU32 m (ct + 4) (te_last t1 t2 t3 t0 XOR rk 1);
         m = PUTU32 m (ct + 8) (te_last t2 t3 t0 t1 XOR rk 2)
     in PUTU32 m (ct + 12) (te_last t3 t0 t1 t2 XOR rk 3))"

definition enc_rounds :: "rkeys \<Rightarrow> nat \<Rightarrow> cstate \<Rightarrow> cstate" where
  "enc_rounds rk nrounds s =
     (let t = enc_round rk 4 s; s = enc_round rk 8 t; t = enc_round rk 12 s; s = enc_round rk 16 t;
          t = enc_round rk 20 s; s = enc_round rk 24 t; t = enc_round rk 28 s; s = enc_round rk 32 t;
          t = enc_round rk 36 s
      in if nrounds > 10 then
           let s = enc_round rk 40 t; t = enc_round rk 44 s
           in if nrounds > 12 then let s = enc_round rk 48 t; t = enc_round rk 52 s in t
              else t
         else t)"

definition rijndaelEncrypt :: "rkeys \<Rightarrow> nat \<Rightarrow> nat \<Rightarrow> nat \<Rightarrow> mem \<Rightarrow> mem" where
  "rijndaelEncrypt rk nrounds plaintext ciphertext m =
     (let s = (GETU32 m plaintext XOR rk 0, GETU32 m (plaintext + 4) XOR rk 1,
               GETU32 m (plaintext + 8) XOR rk 2, GETU32 m (plaintext + 12) XOR rk 3);
          t = enc_rounds rk nrounds s
      in enc_last (\<lambda>i. rk (4 * nrounds + i)) t m ciphertext)"

definition td_col :: "u32 \<Rightarrow> u32 \<Rightarrow> u32 \<Rightarrow> u32 \<Rightarrow> u32" where
  "td_col a b c d = tab Td0 (drop_bit 24 a) XOR tab Td1 (drop_bit 16 b AND 0xff) XOR
     tab Td2 (drop_bit 8 c AND 0xff) XOR tab Td3 (d AND 0xff)"

definition dec_round :: "rkeys \<Rightarrow> nat \<Rightarrow> cstate \<Rightarrow> cstate" where
  "dec_round rk k = (\<lambda>(s0, s1, s2, s3).
     (td_col s0 s3 s2 s1 XOR rk k, td_col s1 s0 s3 s2 XOR rk (k + 1),
      td_col s2 s1 s0 s3 XOR rk (k + 2), td_col s3 s2 s1 s0 XOR rk (k + 3)))"

definition td_last :: "u32 \<Rightarrow> u32 \<Rightarrow> u32 \<Rightarrow> u32 \<Rightarrow> u32" where
  "td_last a b c d = (tab Td4 (drop_bit 24 a) AND 0xff000000) XOR
     (tab Td4 (drop_bit 16 b AND 0xff) AND 0x00ff0000) XOR
     (tab Td4 (drop_bit 8 c AND 0xff) AND 0x0000ff00) XOR
     (tab Td4 (d AND 0xff) AND 0x000000ff)"

definition dec_last :: "rkeys \<Rightarrow> cstate \<Rightarrow> mem \<Rightarrow> nat \<Rightarrow> mem" where
  "dec_last rk = (\<lambda>(t0, t1, t2, t3) m pt.
     let m = PUTU32 m pt (td_last t0 t3 t2 t1 XOR rk 0);
         m = PUTU32 m (pt + 4) (td_last t1 t0 t3 t2 XOR rk 1);
         m = PUTU32 m (pt + 8) (td_last t2 t1 t0 t3 XOR rk 2)
     in PUTU32 m (pt + 12) (td_last t3 t2 t1 t0 XOR rk 3))"

definition dec_rounds :: "rkeys \<Rightarrow> nat \<Rightarrow> cstate \<Rightarrow> cstate" where
  "dec_rounds rk nrounds s =
     (let t = dec_round rk 4 s; s = dec_round rk 8 t; t = dec_round rk 12 s; s = dec_round rk 16 t;
          t = dec_round rk 20 s; s = dec_round rk 24 t; t = dec_round rk 28 s; s = dec_round rk 32 t;
          t = dec_round rk 36 s
      in if nrounds > 10 then
           let s = dec_round rk 40 t; t = dec_round rk 44 s
           in if nrounds > 12 then let s = dec_round rk 48 t; t = dec_round rk 52 s in t
              else t
         else t)"

definition rijndaelDecrypt :: "rkeys \<Rightarrow> nat \<Rightarrow> nat \<Rightarrow> nat \<Rightarrow> mem \<Rightarrow> mem" where
  "rijndaelDecrypt rk nrounds ciphertext plaintext m =
     (let s = (GETU32 m ciphertext XOR rk 0, GETU32 m (ciphertext + 4) XOR rk 1,
               GETU32 m (ciphertext + 8) XOR rk 2, GETU32 m (ciphertext + 12) XOR rk 3);
          t = dec_rounds rk nrounds s
      in dec_last (\<lambda>i. rk (4 * nrounds + i)) t m plaintext)"

section \<open>Columns\<close>

text \<open>The substitution box and its inverse on bytes.\<close>

definition sb :: "u32 \<Rightarrow> u32" where "sb x = tab Te4 x AND 0xff"

lemma sb_byte [simp]: "is_byte (sb x)"
  by (simp add: sb_def and_ff)

lemma Td4_sb: "is_byte x \<Longrightarrow> tab Td4 (sb x) AND 0xff = x"
  unfolding sb_def using Td4_Te4_nth [OF is_byte_unat] by simp

lemma byte_masks: "(0xff000000 :: u32) = push_bit 24 (mask 8)" "(0x00ff0000 :: u32) = push_bit 16 (mask 8)"
  "(0x0000ff00 :: u32) = push_bit 8 (mask 8)" "(0x000000ff :: u32) = mask 8"
  by (simp_all add: mask_eq_exp_minus_1)

lemma word4_masked:
  assumes "is_byte a" "is_byte b" "is_byte c" "is_byte d"
  shows "word4 a b c d AND 0xff000000 = word4 a 0 0 0" "word4 a b c d AND 0x00ff0000 = word4 0 b 0 0"
    "word4 a b c d AND 0x0000ff00 = word4 0 0 c 0" "word4 a b c d AND 0x000000ff = word4 0 0 0 d"
  unfolding byte_masks
  by (rule bit_word_eqI;
      use assms in \<open>auto simp: bit_word4 bit_and_iff bit_push_bit_iff bit_mask_iff is_byte_iff\<close>)+

lemmas word4_low = word4_masked(4) [unfolded and_ff]

lemma Te4_sb: "is_byte x \<Longrightarrow> tab Te4 x = word4 (sb x) (sb x) (sb x) (sb x)"
  unfolding sb_def using boxes_nth(1) [OF is_byte_unat] .

lemma te_last_word4:
  "te_last a b c d = word4 (sb (drop_bit 24 a)) (sb (take_bit 8 (drop_bit 16 b))) (sb (take_bit 8 (drop_bit 8 c))) (sb (take_bit 8 d))"
  unfolding te_last_def and_ff by (simp add: Te4_sb word4_masked word4_low word4_xor)

lemma Td4_ib: "is_byte x \<Longrightarrow> tab Td4 x = word4 (tab Td4 x AND 0xff) (tab Td4 x AND 0xff) (tab Td4 x AND 0xff) (tab Td4 x AND 0xff)"
  using boxes_nth(2) [OF is_byte_unat] .

lemma Td4_sb_word: "is_byte x \<Longrightarrow> tab Td4 (sb x) = word4 x x x x"
  using Td4_ib [OF sb_byte, of x] Td4_sb by simp

lemma te_mix:
  assumes "is_byte x"
  shows "tab Te0 x = word4 (xtime (sb x)) (sb x) (sb x) (mul3 (sb x))" "tab Te1 x = word4 (mul3 (sb x)) (xtime (sb x)) (sb x) (sb x)"
    "tab Te2 x = word4 (sb x) (mul3 (sb x)) (xtime (sb x)) (sb x)" "tab Te3 x = word4 (sb x) (sb x) (mul3 (sb x)) (xtime (sb x))"
  using mix_nth(1-4) [OF is_byte_unat [OF assms] sb_def refl] by simp_all

lemma td_mix:
  assumes "is_byte x"
  shows "tab Td0 (sb x) = word4 (mule x) (mul9 x) (muld x) (mulb x)" "tab Td1 (sb x) = word4 (mulb x) (mule x) (mul9 x) (muld x)"
    "tab Td2 (sb x) = word4 (muld x) (mulb x) (mule x) (mul9 x)" "tab Td3 (sb x) = word4 (mul9 x) (muld x) (mulb x) (mule x)"
  using mix_nth(5-8) [OF is_byte_unat [OF sb_byte, of x] refl Td4_sb [OF assms, symmetric]] by simp_all

text \<open>The columns the round tables compute: the mixing of \<^verbatim>\<open>te_last\<close>, and the inverse mixing.\<close>

definition mix_column :: "u32 \<Rightarrow> u32" where
  "mix_column w = (let a = drop_bit 24 w; b = take_bit 8 (drop_bit 16 w); c = take_bit 8 (drop_bit 8 w); d = take_bit 8 w in
     word4 (xtime a XOR mul3 b XOR c XOR d) (a XOR xtime b XOR mul3 c XOR d)
       (a XOR b XOR xtime c XOR mul3 d) (mul3 a XOR b XOR c XOR xtime d))"

lemma te_col_mix: "te_col a b c d = mix_column (te_last a b c d)"
  unfolding te_col_def and_ff te_last_word4 mix_column_def
  by (simp add: te_mix bytes_word4 word4_xor Let_def)

lemma inv_mix_key_word4:
  assumes "is_byte a" "is_byte b" "is_byte c" "is_byte d"
  shows "inv_mix_key (word4 a b c d) =
    word4 (mule a XOR mulb b XOR muld c XOR mul9 d) (mul9 a XOR mule b XOR mulb c XOR muld d)
      (muld a XOR mul9 b XOR mule c XOR mulb d) (mulb a XOR muld b XOR mul9 c XOR mule d)"
  unfolding inv_mix_key_def and_ff bytes_word4 [OF assms]
  using assms by (simp add: and_ff [symmetric] sb_def [symmetric] td_mix word4_xor) 

lemma inv_mix_key_xor: "inv_mix_key (v XOR w) = inv_mix_key v XOR inv_mix_key w"
proof -
  define a b c d where bytes: "a = drop_bit 24 v" "b = take_bit 8 (drop_bit 16 v)" "c = take_bit 8 (drop_bit 8 v)" "d = take_bit 8 v"
  define a' b' c' d' where bytes': "a' = drop_bit 24 w" "b' = take_bit 8 (drop_bit 16 w)" "c' = take_bit 8 (drop_bit 8 w)" "d' = take_bit 8 w"
  have v: "v = word4 a b c d" and w: "w = word4 a' b' c' d'"
    unfolding bytes bytes' by (simp_all add: word4_bytes)
  have b: "is_byte a" "is_byte b" "is_byte c" "is_byte d" "is_byte a'" "is_byte b'" "is_byte c'" "is_byte d'"
    unfolding bytes bytes' by simp_all
  then have "inv_mix_key (word4 a b c d XOR word4 a' b' c' d') = inv_mix_key (word4 a b c d) XOR inv_mix_key (word4 a' b' c' d')"
    by (simp add: word4_xor inv_mix_key_word4 is_byte_xor mul_xor) (simp only: ac_simps)
  then show ?thesis unfolding v w .
qed

lemma inv_mix_mix:
  assumes "is_byte a" "is_byte b" "is_byte c" "is_byte d"
  shows "inv_mix_key (mix_column (word4 a b c d)) = word4 a b c d"
proof -
  note bs = assms mul_byte [OF assms(1)] mul_byte [OF assms(2)] mul_byte [OF assms(3)] mul_byte [OF assms(4)]
  have "mix_column (word4 a b c d) = word4 (xtime a XOR mul3 b XOR c XOR d) (a XOR xtime b XOR mul3 c XOR d)
       (a XOR b XOR xtime c XOR mul3 d) (mul3 a XOR b XOR c XOR xtime d)"
    unfolding mix_column_def bytes_word4 [OF assms] Let_def ..
  then show ?thesis
    using bs by (simp add: inv_mix_key_word4 is_byte_xor)
      (simp add: mul3_def mul9_def mulb_def muld_def mule_def xtime_xor ac_simps)
qed

lemma inv_mix_te_col: "inv_mix_key (te_col a b c d) = te_last a b c d"
  unfolding te_col_mix te_last_word4 by (rule inv_mix_mix) simp_all

section \<open>Rounds\<close>

text \<open>The state after the substitution and the row shift of a round.\<close>

definition sub_shift :: "cstate \<Rightarrow> cstate" where
  "sub_shift = (\<lambda>(s0, s1, s2, s3). (te_last s0 s1 s2 s3, te_last s1 s2 s3 s0, te_last s2 s3 s0 s1, te_last s3 s0 s1 s2))"

lemma td_col_sub:
  "td_col (te_last a x1 x2 x3) (te_last y0 a y2 y3) (te_last z0 z1 a z3) (te_last w0 w1 w2 a) = inv_mix_key a"
  unfolding td_col_def and_ff te_last_word4 inv_mix_key_def sb_def by (simp add: bytes_word4 and_ff)

lemma td_last_sub:
  "td_last (te_last a x1 x2 x3) (te_last y0 a y2 y3) (te_last z0 z1 a z3) (te_last w0 w1 w2 a) = a"
  unfolding td_last_def and_ff te_last_word4
  using word4_bytes [of a] by (simp add: bytes_word4 Td4_sb_word word4_masked) (simp add: word4_def)

text \<open>A decryption round with the inverse mix of a round key undoes the encryption round.\<close>

lemma dec_enc_round:
  assumes "\<And>c. c < 4 \<Longrightarrow> dk (j + c) = inv_mix_key (rk (k + c))"
  shows "dec_round dk j (sub_shift (enc_round rk k s)) = sub_shift s"
proof -
  obtain s0 s1 s2 s3 where s: "s = (s0, s1, s2, s3)" by (cases s)
  note d = assms [of 0, simplified] assms [of 1, simplified] assms [of 2, simplified] assms [of 3, simplified]
  show ?thesis
    by (simp add: s enc_round_def sub_shift_def dec_round_def td_col_sub d inv_mix_key_xor inv_mix_te_col ac_simps)
qed

definition enc_upto :: "rkeys \<Rightarrow> nat \<Rightarrow> cstate \<Rightarrow> cstate" where
  "enc_upto rk n s = fold (\<lambda>r. enc_round rk (4 * r)) [1..<n] s"

definition dec_upto :: "rkeys \<Rightarrow> nat \<Rightarrow> cstate \<Rightarrow> cstate" where
  "dec_upto rk n s = fold (\<lambda>r. dec_round rk (4 * r)) [1..<n] s"

lemma rounds_upto:
  assumes "n \<in> {10, 12, 14}"
  shows "enc_rounds rk n s = enc_upto rk n s" "dec_rounds rk n s = dec_upto rk n s"
  using assms by (auto simp: enc_rounds_def enc_upto_def dec_rounds_def dec_upto_def Let_def upt_conv_Cons)

lemma upto_Suc:
  "0 < n \<Longrightarrow> enc_upto rk (Suc n) s = enc_round rk (4 * n) (enc_upto rk n s)"
  "0 < n \<Longrightarrow> dec_upto rk (Suc n) s = dec_round rk (4 * n) (dec_upto rk n s)"
  by (simp_all add: enc_upto_def dec_upto_def)

definition inverse_keys :: "nat \<Rightarrow> rkeys \<Rightarrow> rkeys \<Rightarrow> bool" where
  "inverse_keys n rk dk \<longleftrightarrow> (\<forall>r \<le> n. \<forall>c < 4. dk (4 * r + c) =
     (if 0 < r \<and> r < n then inv_mix_key (rk (4 * (n - r) + c)) else rk (4 * (n - r) + c)))"

lemma dec_enc_upto:
  assumes "inverse_keys n rk dk" "0 < k" "k \<le> n"
  shows "dec_upto dk k (sub_shift (enc_upto rk n s)) = sub_shift (enc_upto rk (Suc n - k) s)"
  using assms(2,3)
proof (induction k rule: nat_induct_non_zero)
  case 1
  then show ?case by (simp add: dec_upto_def)
next
  case (Suc k)
  have e: "enc_upto rk (Suc n - k) s = enc_round rk (4 * (n - k)) (enc_upto rk (n - k) s)"
    using Suc by (simp add: Suc_diff_le upto_Suc)
  have "dec_upto dk (Suc k) (sub_shift (enc_upto rk n s)) = dec_round dk (4 * k) (sub_shift (enc_upto rk (Suc n - k) s))"
    using Suc by (simp add: upto_Suc)
  also have "\<dots> = sub_shift (enc_upto rk (n - k) s)"
    unfolding e using assms(1) Suc by (intro dec_enc_round) (simp add: inverse_keys_def)
  finally show ?case by simp
qed

section \<open>Blocks in memory\<close>

definition get_block :: "mem \<Rightarrow> nat \<Rightarrow> cstate" where
  "get_block m p = (GETU32 m p, GETU32 m (p + 4), GETU32 m (p + 8), GETU32 m (p + 12))"

definition put_block :: "mem \<Rightarrow> nat \<Rightarrow> cstate \<Rightarrow> mem" where
  "put_block m p = (\<lambda>(a, b, c, d). PUTU32 (PUTU32 (PUTU32 (PUTU32 m p a) (p + 4) b) (p + 8) c) (p + 12) d)"

definition add_key :: "rkeys \<Rightarrow> nat \<Rightarrow> cstate \<Rightarrow> cstate" where
  "add_key rk k = (\<lambda>(a, b, c, d). (a XOR rk k, b XOR rk (k + 1), c XOR rk (k + 2), d XOR rk (k + 3)))"

lemma GETU32_word4: "GETU32 m p = word4 (ucast (m p)) (ucast (m (p + 1))) (ucast (m (p + 2))) (ucast (m (p + 3)))"
  by (simp add: GETU32_def word4_def)

lemma ucast_byte [simp]: "is_byte (ucast (b :: u8))"
  unfolding is_byte_iff by (auto simp: bit_ucast_iff dest: bit_imp_le_length)

lemma ucast_ucast_byte: "is_byte w \<Longrightarrow> ucast (ucast w :: u8) = w"
  by (rule bit_word_eqI) (auto simp: bit_ucast_iff is_byte_iff)

lemma ucast_u8_u32: "ucast (ucast b :: u32) = (b :: u8)"
  by (rule bit_word_eqI) (auto simp: bit_ucast_iff)

lemma ucast_u8_take: "ucast (w :: u32) = (ucast (take_bit 8 w) :: u8)"
  by (rule bit_word_eqI) (auto simp: bit_ucast_iff bit_take_bit_iff)

lemma GETU32_PUTU32:
  "GETU32 (PUTU32 m p w) p = w" "q + 3 < p \<or> p + 3 < q \<Longrightarrow> GETU32 (PUTU32 m p w) q = GETU32 m q"
proof -
  have "ucast (drop_bit 16 w) = (ucast (take_bit 8 (drop_bit 16 w)) :: u8)" "ucast (drop_bit 8 w) = (ucast (take_bit 8 (drop_bit 8 w)) :: u8)"
    "ucast w = (ucast (take_bit 8 w) :: u8)"
    by (rule ucast_u8_take)+
  then have "GETU32 (PUTU32 m p w) p = word4 (drop_bit 24 w) (take_bit 8 (drop_bit 16 w)) (take_bit 8 (drop_bit 8 w)) (take_bit 8 w)"
    unfolding GETU32_word4 PUTU32_def by (simp only: fun_upd_apply) (simp add: ucast_ucast_byte)
  then show "GETU32 (PUTU32 m p w) p = w"
    by (simp add: word4_bytes)
  show "q + 3 < p \<or> p + 3 < q \<Longrightarrow> GETU32 (PUTU32 m p w) q = GETU32 m q"
    by (auto simp: GETU32_def PUTU32_def)
qed

lemma get_put_block: "get_block (put_block m p s) p = s"
  by (cases s) (simp add: get_block_def put_block_def GETU32_PUTU32)

lemma PUTU32_GETU32: "PUTU32 m p (GETU32 m' q) = (\<lambda>x. if p \<le> x \<and> x < p + 4 then m' (q + (x - p)) else m x)"
proof -
  have b: "ucast (drop_bit 24 (GETU32 m' q)) = m' q" "ucast (drop_bit 16 (GETU32 m' q)) = m' (q + 1)"
    "ucast (drop_bit 8 (GETU32 m' q)) = m' (q + 2)" "ucast (GETU32 m' q) = m' (q + 3)"
    using ucast_u8_take [of "drop_bit 16 (GETU32 m' q)"] ucast_u8_take [of "drop_bit 8 (GETU32 m' q)"] ucast_u8_take [of "GETU32 m' q"]
    unfolding GETU32_word4 by (simp_all add: bytes_word4 ucast_u8_u32)
  have "x = p \<or> x = p + 1 \<or> x = p + 2 \<or> x = p + 3" if "p \<le> x" "x < p + 4" for x
    using that by linarith
  then show ?thesis
    unfolding PUTU32_def b by (fastforce simp: fun_eq_iff)
qed

lemma put_get_block: "put_block m p (get_block m' q) = (\<lambda>x. if p \<le> x \<and> x < p + 16 then m' (q + (x - p)) else m x)"
  by (rule ext) (auto simp: put_block_def get_block_def PUTU32_GETU32)

section \<open>The key schedules\<close>

declare invert_keys.simps [simp del]

lemma word_of_round:
  fixes x :: nat
  obtains q where "x = 4 * q" | q where "x = 4 * q + 1" | q where "x = 4 * q + 2" | q where "x = 4 * q + 3"
proof -
  have "x = 4 * (x div 4) + x mod 4" "x mod 4 < 4" for x :: nat by auto
  moreover have "x mod 4 = 0 \<or> x mod 4 = 1 \<or> x mod 4 = 2 \<or> x mod 4 = 3" by linarith
  ultimately show thesis using that by (metis add.right_neutral)
qed

lemma invert_keys_swap:
  assumes "i < j"
  shows "invert_keys (4 * i) (4 * j) rk = invert_keys (4 * (i + 1)) (4 * (j - 1))
    (\<lambda>x. if x div 4 = i then rk (4 * j + x mod 4) else if x div 4 = j then rk (4 * i + x mod 4) else rk x)"
proof -
  have "(\<lambda>x. if x div 4 = i then rk (4 * j + x mod 4) else if x div 4 = j then rk (4 * i + x mod 4) else rk x) =
    (let rk = rk(4 * i := rk (4 * j), 4 * j := rk (4 * i));
         rk = rk(4 * i + 1 := rk (4 * j + 1), 4 * j + 1 := rk (4 * i + 1));
         rk = rk(4 * i + 2 := rk (4 * j + 2), 4 * j + 2 := rk (4 * i + 2))
     in rk(4 * i + 3 := rk (4 * j + 3), 4 * j + 3 := rk (4 * i + 3)))"
    (is "?f = ?g")
  proof
    fix x
    show "?f x = ?g x"
      by (rule word_of_round [of x]) (use assms in \<open>auto simp: Let_def simp del: add_2_eq_Suc'\<close>)
  qed
  then show ?thesis
    using assms by (subst invert_keys.simps) (simp add: Let_def diff_mult_distrib2 add.commute)
qed

lemma invert_keys_apply:
  "invert_keys (4 * i) (4 * j) rk x = (if i \<le> x div 4 \<and> x div 4 \<le> j then rk (4 * (i + j - x div 4) + x mod 4) else rk x)"
proof (induction "j - i" arbitrary: i j rk rule: less_induct)
  case less
  show ?case
  proof (cases "i < j")
    case True
    let ?rk = "\<lambda>x. if x div 4 = i then rk (4 * j + x mod 4) else if x div 4 = j then rk (4 * i + x mod 4) else rk x"
    have "invert_keys (4 * i) (4 * j) rk x = invert_keys (4 * (i + 1)) (4 * (j - 1)) ?rk x"
      by (simp only: invert_keys_swap [OF True])
    also have "\<dots> = (if i + 1 \<le> x div 4 \<and> x div 4 \<le> j - 1 then ?rk (4 * (i + 1 + (j - 1) - x div 4) + x mod 4) else ?rk x)"
      using True by (intro less) simp
    finally have e: "invert_keys (4 * i) (4 * j) rk x =
        (if i < x div 4 \<and> x div 4 < j then ?rk (4 * (i + j - x div 4) + x mod 4) else ?rk x)"
      using True by (simp add: Suc_le_eq less_eq_Suc_le [symmetric] le_diff_conv2)
    consider "x div 4 < i" | "x div 4 = i" | "i < x div 4" "x div 4 < j" | "x div 4 = j" | "j < x div 4"
      by linarith
    then show ?thesis
    proof cases
      case 3
      then have "i + j - x div 4 \<noteq> i" "i + j - x div 4 \<noteq> j" by linarith+
      then show ?thesis unfolding e using 3 by simp
    qed (unfold e, use True in simp_all)
  next
    case False
    then have "invert_keys (4 * i) (4 * j) rk = rk" by (subst invert_keys.simps) simp
    moreover have "rk x = rk (4 * (i + j - x div 4) + x mod 4)" if "i \<le> x div 4 \<and> x div 4 \<le> j"
    proof -
      have "i + j - x div 4 = x div 4" using that False by linarith
      then show ?thesis by simp
    qed
    ultimately show ?thesis by simp
  qed
qed

lemma inv_mix_rounds_apply:
  "fold inv_mix_round [1..<n] rk x = (if 1 \<le> x div 4 \<and> x div 4 < n then inv_mix_key (rk x) else rk x)"
proof (induction n)
  case (Suc n)
  have "inv_mix_round n rk' x = (if x div 4 = n then inv_mix_key (rk' x) else rk' x)" for rk'
    by (rule word_of_round [of x]) (auto simp: inv_mix_round_def Let_def)
  then show ?case
    using Suc by (cases "n = 0") auto
qed simp

lemma setup_decrypt_inverse:
  assumes "rijndaelSetupEncrypt m rk key keybits = (n, ek)" "rijndaelSetupDecrypt m rk key keybits = (n', dk)"
  shows "n' = n \<and> inverse_keys n ek dk"
proof -
  have "dk x = (if 1 \<le> x div 4 \<and> x div 4 < n then inv_mix_key (invert_keys 0 (4 * n) ek x) else invert_keys 0 (4 * n) ek x)" for x
    using assms inv_mix_rounds_apply [of n "invert_keys 0 (4 * n) ek"] by (auto simp: rijndaelSetupDecrypt_def)
  moreover have "n' = n"
    using assms by (simp add: rijndaelSetupDecrypt_def)
  ultimately show ?thesis
    using invert_keys_apply [of 0 n ek] by (simp add: inverse_keys_def)
qed

text \<open>The schedule depends on the key only and stays within the array.\<close>

definition agree :: "nat \<Rightarrow> rkeys \<Rightarrow> rkeys \<Rightarrow> bool" where
  "agree n rk rk' \<longleftrightarrow> (\<forall>x < n. rk x = rk' x)"

lemma fold_agree:
  assumes "\<And>i rk rk'. i < n \<Longrightarrow> agree (b * i + b) rk rk' \<Longrightarrow> agree (b * i + b + b) (f i rk) (f i rk')" "agree b rk rk'"
  shows "agree (b * n + b) (fold f [0..<n] rk) (fold f [0..<n] rk')"
  using assms(1)
proof (induction n)
  case (Suc n)
  then have "agree (b * n + b + b) (f n (fold f [0..<n] rk)) (f n (fold f [0..<n] rk'))" by simp
  then show ?case by (simp add: ac_simps)
qed (use assms(2) in simp)

lemma fold_frame:
  assumes "\<And>i rk. i < n \<Longrightarrow> f i rk x = rk (x :: nat)"
  shows "fold f [0..<n] rk x = rk x"
  using assms by (induction n) simp_all

lemma agreeI: "(\<And>x. x < n \<Longrightarrow> rk x = rk' x) \<Longrightarrow> agree n rk rk'"
  by (simp add: agree_def)

lemma agreeD: "agree n rk rk' \<Longrightarrow> x < n \<Longrightarrow> rk x = rk' x"
  by (simp add: agree_def)

lemma expand128_agree: "agree (4 * i + 4) rk rk' \<Longrightarrow> agree (4 * i + 4 + 4) (expand128 i rk) (expand128 i rk')"
  by (rule agreeI) (simp add: expand128_def Let_def agreeD [of "4 * i + 4" rk rk'])

lemma expand192_agree: "agree (6 * i + 6) rk rk' \<Longrightarrow> agree (6 * i + (if i + 1 = 8 then 10 else 12)) (expand192 i rk) (expand192 i rk')"
  by (rule agreeI) (simp add: expand192_def Let_def agreeD [of "6 * i + 6" rk rk'] split: if_splits)

lemma expand256_agree: "agree (8 * i + 8) rk rk' \<Longrightarrow> agree (8 * i + (if i + 1 = 7 then 12 else 16)) (expand256 i rk) (expand256 i rk')"
  by (rule agreeI) (simp add: expand256_def Let_def agreeD [of "8 * i + 8" rk rk'] split: if_splits)

lemma schedule_agree:
  "agree 4 rk rk' \<Longrightarrow> agree 44 (fold expand128 [0..<10] rk) (fold expand128 [0..<10] rk')"
  "agree 6 rk rk' \<Longrightarrow> agree 52 (fold expand192 [0..<8] rk) (fold expand192 [0..<8] rk')"
  "agree 8 rk rk' \<Longrightarrow> agree 60 (fold expand256 [0..<7] rk) (fold expand256 [0..<7] rk')"
proof -
  show "agree 4 rk rk' \<Longrightarrow> agree 44 (fold expand128 [0..<10] rk) (fold expand128 [0..<10] rk')"
    using fold_agree [of 10 4 expand128] expand128_agree by simp
  assume "agree 6 rk rk'"
  moreover have "agree (6 * i + 6 + 6) (expand192 i rk) (expand192 i rk')" if "i < 7" "agree (6 * i + 6) rk rk'" for i rk rk'
    using expand192_agree [OF that(2)] that(1) by (simp add: add.assoc)
  ultimately have "agree 48 (fold expand192 [0..<7] rk) (fold expand192 [0..<7] rk')"
    using fold_agree [of 7 6 expand192 rk rk'] by simp
  then show "agree 52 (fold expand192 [0..<8] rk) (fold expand192 [0..<8] rk')"
    using expand192_agree [of 7] upt_Suc_append [of 0 7] by simp
next
  assume "agree 8 rk rk'"
  moreover have "agree (8 * i + 8 + 8) (expand256 i rk) (expand256 i rk')" if "i < 6" "agree (8 * i + 8) rk rk'" for i rk rk'
    using expand256_agree [OF that(2)] that(1) by (simp add: add.assoc)
  ultimately have "agree 56 (fold expand256 [0..<6] rk) (fold expand256 [0..<6] rk')"
    using fold_agree [of 6 8 expand256 rk rk'] by simp
  then show "agree 60 (fold expand256 [0..<7] rk) (fold expand256 [0..<7] rk')"
    using expand256_agree [of 6] upt_Suc_append [of 0 6] by simp
qed

lemma schedule_frame:
  "44 \<le> x \<Longrightarrow> fold expand128 [0..<10] rk x = rk x"
  "52 \<le> x \<Longrightarrow> fold expand192 [0..<8] rk x = rk x"
  "60 \<le> x \<Longrightarrow> fold expand256 [0..<7] rk x = rk x"
  by (rule fold_frame; simp add: expand128_def expand192_def expand256_def Let_def)+

definition NROUNDS :: "int \<Rightarrow> nat" where
  "NROUNDS keybits = nat (keybits div 32 + 6)"

definition RKBYTES :: "int \<Rightarrow> nat" where
  "RKBYTES bits = nat ((bits div 8 + 28) * 4)"

lemma setup_encrypt_bounds:
  assumes "keybits \<in> {128, 192, 256}"
  shows "fst (rijndaelSetupEncrypt m rk key keybits) = NROUNDS keybits"
    "4 * NROUNDS keybits + 4 = RKBYTES keybits div 4"
    "RKBYTES keybits div 4 \<le> x \<Longrightarrow> snd (rijndaelSetupEncrypt m rk key keybits) x = rk x"
    "agree (RKBYTES keybits div 4) (snd (rijndaelSetupEncrypt m rk key keybits)) (snd (rijndaelSetupEncrypt m rk' key keybits))"
  using assms
  by (auto simp: rijndaelSetupEncrypt_def NROUNDS_def RKBYTES_def Let_def schedule_frame agree_def [of 4] agree_def [of 6] agree_def [of 8]
      intro!: schedule_agree)

lemma inverse_keys_agree:
  assumes "agree (4 * n + 4) ek ek'" "inverse_keys n ek' dk"
  shows "inverse_keys n ek dk"
  unfolding inverse_keys_def
proof (intro allI impI)
  fix r c :: nat
  assume "r \<le> n" "c < 4"
  then have "ek (4 * (n - r) + c) = ek' (4 * (n - r) + c)"
    by (intro agreeD [OF assms(1)]) simp
  then show "dk (4 * r + c) = (if 0 < r \<and> r < n then inv_mix_key (ek (4 * (n - r) + c)) else ek (4 * (n - r) + c))"
    using assms(2) \<open>r \<le> n\<close> \<open>c < 4\<close> by (simp add: inverse_keys_def del: diff_le_self)
qed

lemma inverse_keys_det:
  assumes "inverse_keys n ek dk" "inverse_keys n ek dk'"
  shows "agree (4 * n + 4) dk dk'"
proof (rule agreeI)
  fix x
  assume "x < 4 * n + 4"
  then have "x div 4 \<le> n" "x mod 4 < 4" by linarith+
  then have "dk (4 * (x div 4) + x mod 4) = dk' (4 * (x div 4) + x mod 4)"
    using assms [unfolded inverse_keys_def] by (simp only:)
  then show "dk x = dk' x" by simp
qed

lemma setup_decrypt_frame:
  assumes "rijndaelSetupEncrypt m rk key keybits = (n, ek)" "4 * n + 4 \<le> x"
  shows "snd (rijndaelSetupDecrypt m rk key keybits) x = ek x"
proof -
  have "n < x div 4" using assms(2) by linarith
  then show ?thesis
    using assms(1) inv_mix_rounds_apply [of n "invert_keys 0 (4 * n) ek" x] invert_keys_apply [of 0 n ek x]
    by (simp add: rijndaelSetupDecrypt_def)
qed

section \<open>Main results\<close>

lemma encrypt_block:
  assumes "n \<in> {10, 12, 14}"
  shows "rijndaelEncrypt rk n pt ct m =
    put_block m ct (add_key rk (4 * n) (sub_shift (enc_upto rk n (add_key rk 0 (get_block m pt)))))"
  unfolding rijndaelEncrypt_def rounds_upto [OF assms] Let_def
  by (cases "enc_upto rk n (add_key rk 0 (get_block m pt))")
    (simp add: enc_last_def sub_shift_def add_key_def put_block_def get_block_def Let_def numeral_2_eq_2)

lemma decrypt_block:
  assumes "n \<in> {10, 12, 14}" "inverse_keys n rk dk" "get_block m ct = add_key rk (4 * n) (sub_shift (enc_upto rk n s))"
  shows "rijndaelDecrypt dk n ct pt m = put_block m pt (add_key rk 0 s)"
proof -
  note k = assms(2) [unfolded inverse_keys_def, rule_format]
  have d0: "dk 0 = rk (4 * n)" "dk 1 = rk (4 * n + 1)" "dk 2 = rk (4 * n + 2)" "dk 3 = rk (4 * n + 3)"
    using k [of 0 0] k [of 0 1] k [of 0 2] k [of 0 3] by (simp_all add: numeral_2_eq_2)
  have dn: "dk (4 * n) = rk 0" "dk (4 * n + 1) = rk 1" "dk (4 * n + 2) = rk 2" "dk (4 * n + 3) = rk 3"
    using k [of n 0] k [of n 1] k [of n 2] k [of n 3] by (simp_all add: numeral_2_eq_2)
  have "add_key dk 0 (get_block m ct) = sub_shift (enc_upto rk n s)"
    unfolding assms(3) using d0 by (cases "sub_shift (enc_upto rk n s)") (simp add: add_key_def ac_simps numeral_2_eq_2)
  then have g: "(GETU32 m ct XOR dk 0, GETU32 m (ct + 4) XOR dk 1, GETU32 m (ct + 8) XOR dk 2, GETU32 m (ct + 12) XOR dk 3) =
      sub_shift (enc_upto rk n s)"
    by (simp add: add_key_def get_block_def numeral_2_eq_2)
  have "0 < n" using assms(1) by auto
  then have "dec_upto dk n (sub_shift (enc_upto rk n s)) = sub_shift (enc_upto rk 1 s)"
    using dec_enc_upto [OF assms(2), of n s] by simp
  then have r: "dec_upto dk n (sub_shift (enc_upto rk n s)) = sub_shift s"
    by (simp add: enc_upto_def)
  show ?thesis
    unfolding rijndaelDecrypt_def rounds_upto [OF assms(1)] Let_def g r using dn
    by (cases s) (simp add: dec_last_def sub_shift_def td_last_sub put_block_def add_key_def Let_def numeral_2_eq_2)
qed

lemma decrypt_encrypt:
  assumes "keybits \<in> {128, 192, 256}"
    and "rijndaelSetupEncrypt km rk key keybits = (n, ek)" "rijndaelSetupDecrypt km rk' key keybits = (n', dk)"
    and "c = rijndaelEncrypt ek n pt ct m"
  shows "n' = n \<and> rijndaelDecrypt dk n' ct out c = (\<lambda>x. if out \<le> x \<and> x < out + 16 then m (pt + (x - out)) else c x)"
proof -
  obtain ek' where ek': "rijndaelSetupEncrypt km rk' key keybits = (n, ek')" "agree (4 * n + 4) ek ek'"
    using setup_encrypt_bounds(1,2) [OF assms(1)] setup_encrypt_bounds(4) [OF assms(1), of km rk key rk'] assms(2)
    by (metis fst_conv prod.collapse snd_conv)
  have n: "n \<in> {10, 12, 14}"
    using setup_encrypt_bounds(1) [OF assms(1), of km rk key] assms(1,2) by (auto simp: NROUNDS_def)
  have inv: "n' = n" "inverse_keys n ek' dk"
    using setup_decrypt_inverse [OF ek'(1) assms(3)] by auto
  note inv' = inverse_keys_agree [OF ek'(2) inv(2)]
  let ?s = "add_key ek 0 (get_block m pt)"
  have "get_block c ct = add_key ek (4 * n) (sub_shift (enc_upto ek n ?s))"
    unfolding assms(4) encrypt_block [OF n] by (rule get_put_block)
  then have "rijndaelDecrypt dk n ct out c = put_block c out (add_key ek 0 ?s)"
    by (rule decrypt_block [OF n inv'])
  also have "add_key ek 0 ?s = get_block m pt"
    by (cases "get_block m pt") (simp add: add_key_def ac_simps)
  finally show ?thesis
    using inv(1) by (simp add: put_get_block)
qed

text \<open>C23: Decryption inverts encryption.  For every key of 128, 192 or 256 bits, with the round keys that the
  two setup routines compute from it into arrays with any previous contents, decrypting an encrypted block
  gives back the sixteen bytes of the plaintext and changes nothing else.  The plaintext, ciphertext and
  output buffers may overlap in any way.\<close>

theorem rijndael_roundtrip:
  assumes "keybits \<in> {128, 192, 256}"
    and "rijndaelSetupEncrypt km rk key keybits = (n, ek)" "rijndaelSetupDecrypt km rk' key keybits = (n', dk)"
    and "c = rijndaelEncrypt ek n pt ct m"
  shows "n' = n \<and> rijndaelDecrypt dk n' ct out c = (\<lambda>x. if out \<le> x \<and> x < out + 16 then m (pt + (x - out)) else c x)"
  by (rule decrypt_encrypt [OF assms])

theorem rijndael_roundtrip_witness:
  "rijndaelDecrypt (snd (rijndaelSetupDecrypt of_nat (\<lambda>_. 1) 0 128)) (fst (rijndaelSetupDecrypt of_nat (\<lambda>_. 1) 0 128)) 100 100
     (rijndaelEncrypt (snd (rijndaelSetupEncrypt of_nat (\<lambda>_. 0) 0 128)) (fst (rijndaelSetupEncrypt of_nat (\<lambda>_. 0) 0 128)) 100 100 of_nat)
     107 = 107"
  using rijndael_roundtrip [where keybits = 128 and km = of_nat and rk = "\<lambda>_. 0" and key = 0 and rk' = "\<lambda>_. 1" and pt = 100
      and ct = 100 and m = of_nat and out = 100, OF _ surjective_pairing surjective_pairing refl, THEN conjunct2]
  by simp

text \<open>C26: Key setup stays within its array.  For the three key sizes both setup routines return the number of
  rounds \<^verbatim>\<open>NROUNDS(keybits)\<close>, never write beyond the \<^verbatim>\<open>RKBYTES(keybits)\<close> bytes that callers reserve, and fill
  all of the array with values that depend on the key only, not on its previous contents.\<close>

theorem key_setup_bounds:
  assumes "keybits \<in> {128, 192, 256}"
    and "rijndaelSetupEncrypt m rk key keybits = (n, ek)" "rijndaelSetupDecrypt m rk key keybits = (n', dk)"
  shows "n = NROUNDS keybits \<and> n' = n \<and> (\<forall>x \<ge> RKBYTES keybits div 4. ek x = rk x \<and> dk x = rk x) \<and>
    (\<forall>x < RKBYTES keybits div 4. \<forall>rk'. snd (rijndaelSetupEncrypt m rk' key keybits) x = ek x \<and>
       snd (rijndaelSetupDecrypt m rk' key keybits) x = dk x)"
proof -
  have n: "n = NROUNDS keybits" "4 * n + 4 = RKBYTES keybits div 4" "n' = n"
    using setup_encrypt_bounds(1,2) [OF assms(1)] assms setup_decrypt_inverse [OF assms(2,3)] by (metis fst_conv)+
  have "ek x = rk x \<and> dk x = rk x" if "RKBYTES keybits div 4 \<le> x" for x
    using setup_encrypt_bounds(3) [OF assms(1) that, of m rk key] setup_decrypt_frame [OF assms(2), of x] that assms n(2)
    by simp
  moreover have "snd (rijndaelSetupEncrypt m rk' key keybits) x = ek x \<and> snd (rijndaelSetupDecrypt m rk' key keybits) x = dk x"
    if "x < RKBYTES keybits div 4" for x rk'
  proof -
    obtain ek' where ek': "rijndaelSetupEncrypt m rk' key keybits = (n, ek')" "agree (4 * n + 4) ek ek'"
      using setup_encrypt_bounds(4) [OF assms(1), of m rk key rk'] setup_encrypt_bounds(1) [OF assms(1), of m rk' key] n assms(2)
      by (metis prod.collapse snd_conv)
    obtain dk' where dk': "rijndaelSetupDecrypt m rk' key keybits = (n, dk')"
      using ek'(1) by (auto simp: rijndaelSetupDecrypt_def)
    have "agree (4 * n + 4) dk dk'"
      using setup_decrypt_inverse [OF assms(2,3)] setup_decrypt_inverse [OF ek'(1) dk']
      by (intro inverse_keys_det [OF _ inverse_keys_agree [OF ek'(2)]]) simp_all
    then show ?thesis
      using agreeD [OF ek'(2), of x] agreeD [of "4 * n + 4" dk dk' x] that ek'(1) dk' n(2) by simp
  qed
  ultimately show ?thesis using n(1,3) by blast
qed

theorem key_setup_bounds_witness:
  "fst (rijndaelSetupEncrypt of_nat (\<lambda>_. 0) 0 192) = 12 \<and> snd (rijndaelSetupDecrypt of_nat (\<lambda>_. 7) 0 192) 52 = 7"
  using key_setup_bounds [where keybits = 192 and m = of_nat and rk = "\<lambda>_. 0" and key = 0, OF _ surjective_pairing surjective_pairing, THEN conjunct1]
    key_setup_bounds [where keybits = 192 and m = of_nat and rk = "\<lambda>_. 7" and key = 0, OF _ surjective_pairing surjective_pairing,
      THEN conjunct2, THEN conjunct2, THEN conjunct1, rule_format, of 52]
  by (simp add: NROUNDS_def RKBYTES_def)

section \<open>The standard's cipher\<close>

text \<open>The four transformations of a state of four columns, and the cipher composed of them.\<close>

definition sub_bytes :: "cstate \<Rightarrow> cstate" where
  "sub_bytes = (\<lambda>(a, b, c, d). let f = (\<lambda>w. word4 (sb (drop_bit 24 w)) (sb (take_bit 8 (drop_bit 16 w)))
       (sb (take_bit 8 (drop_bit 8 w))) (sb (take_bit 8 w))) in (f a, f b, f c, f d))"

definition shift_rows :: "cstate \<Rightarrow> cstate" where
  "shift_rows = (\<lambda>(a, b, c, d). let f = (\<lambda>w x y z. word4 (drop_bit 24 w) (take_bit 8 (drop_bit 16 x))
       (take_bit 8 (drop_bit 8 y)) (take_bit 8 z)) in (f a b c d, f b c d a, f c d a b, f d a b c))"

definition mix_columns :: "cstate \<Rightarrow> cstate" where
  "mix_columns = (\<lambda>(a, b, c, d). (mix_column a, mix_column b, mix_column c, mix_column d))"

definition aes_cipher :: "rkeys \<Rightarrow> nat \<Rightarrow> cstate \<Rightarrow> cstate" where
  "aes_cipher rk n s = add_key rk (4 * n) (shift_rows (sub_bytes
     (fold (\<lambda>r s. add_key rk (4 * r) (mix_columns (shift_rows (sub_bytes s)))) [1..<n] (add_key rk 0 s))))"

lemma shift_sub: "shift_rows (sub_bytes s) = sub_shift s"
  by (cases s) (simp add: shift_rows_def sub_bytes_def sub_shift_def te_last_word4 bytes_word4 Let_def)

lemma enc_round_cipher: "enc_round rk k s = add_key rk k (mix_columns (shift_rows (sub_bytes s)))"
  unfolding shift_sub by (cases s) (simp add: enc_round_def add_key_def mix_columns_def sub_shift_def te_col_mix)

text \<open>C24: The table-driven encryption is the cipher of the standard.  With 10, 12 or 14 rounds \<^verbatim>\<open>rijndaelEncrypt\<close>
  writes to the sixteen bytes of the ciphertext the block that results from the initial key addition, the
  full rounds (byte substitution, row shift, column mix, key addition) and the last round without the mix,
  and changes no other byte.\<close>

theorem rijndael_is_cipher:
  assumes "n \<in> {10, 12, 14}"
  shows "get_block (rijndaelEncrypt rk n pt ct m) ct = aes_cipher rk n (get_block m pt) \<and>
    (\<forall>x. x < ct \<or> ct + 16 \<le> x \<longrightarrow> rijndaelEncrypt rk n pt ct m x = m x)"
  unfolding encrypt_block [OF assms] get_put_block aes_cipher_def shift_sub enc_upto_def enc_round_cipher
  by (auto simp: put_block_def PUTU32_def split: prod.split)

theorem rijndael_is_cipher_witness:
  "get_block (rijndaelEncrypt (\<lambda>i. of_nat i) 10 0 32 of_nat) 32 = aes_cipher (\<lambda>i. of_nat i) 10 (get_block of_nat 0)"
  using rijndael_is_cipher [of 10 "\<lambda>i. of_nat i" 0 32 of_nat] by simp

end
