(* ===== verification/Valloc.thy ===== *)
theory Valloc
  imports Mutex Bytes
begin

text \<open>
  The virtual memory allocator \<^verbatim>\<open>kernel/mm/valloc.c\<close>: a bitmap with one bit for each page, kept in the first
  pages of the region it describes, and a next-fit search.  The bitmap lies in the flat byte memory.  Page
  numbers are natural numbers; the index \<open>-1\<close> of a failed search makes some of them integers.  The search is
  bounded by fuel, and \<open>valloc_scan_done\<close> shows that the number of pages is enough.  A shift by a negative
  amount is undefined in C and is a fault.

  The theorems show that an allocation returns pages that were all free and marks exactly those, that a search
  finds any sufficient run that does not cross the cursor, that freeing undoes allocating, and that a failing
  allocation has undefined behaviour because the bits are set before the result is tested.
\<close>

unbundle bit_operations_syntax

section \<open>The bitmap\<close>

abbreviation PAGE_SIZE :: nat where "PAGE_SIZE \<equiv> 4096"
abbreviation VALLOC_ALLOC :: u32 where "VALLOC_ALLOC \<equiv> 1"
abbreviation VALLOC_USERMAP :: u32 where "VALLOC_USERMAP \<equiv> 2"

record valloc =
  va_npages :: nat
  va_start :: nat
  va_end :: nat
  va_nindex :: nat
  va_psize :: nat
  va_lock :: mutex
  va_flags :: u32
  va_last :: nat

record valloc_region =
  vr_start :: nat
  vr_npages :: nat
  vr_flags :: u32

definition SET_BIT :: "nat \<Rightarrow> nat \<Rightarrow> mem \<Rightarrow> mem" where
  "SET_BIT start index m = m(start + index div 8 := m (start + index div 8) OR push_bit (index mod 8) 1)"

definition CLEAR_BIT :: "nat \<Rightarrow> nat \<Rightarrow> mem \<Rightarrow> mem" where
  "CLEAR_BIT start index m = m(start + index div 8 := m (start + index div 8) AND NOT (push_bit (index mod 8) 1))"

definition TEST_BIT :: "nat \<Rightarrow> nat \<Rightarrow> mem \<Rightarrow> bool" where
  "TEST_BIT start index m \<longleftrightarrow> m (start + index div 8) AND push_bit (index mod 8) 1 \<noteq> 0"

text \<open>The loops over \<^verbatim>\<open>long idx = start; idx < start + count\<close>.\<close>

definition valloc_set_bits :: "valloc \<Rightarrow> int \<Rightarrow> nat \<Rightarrow> mem \<Rightarrow> mem outcome" where
  "valloc_set_bits va start count =
     ofold (\<lambda>idx m. if idx < 0 then Fault
        else oassert (start \<ge> int (va_nindex va) \<longrightarrow> \<not> TEST_BIT (va_start va) (nat idx) m)
          (Ret (SET_BIT (va_start va) (nat idx) m))) [start..start + int count - 1]"

definition valloc_clear_bits :: "valloc \<Rightarrow> int \<Rightarrow> nat \<Rightarrow> mem \<Rightarrow> mem outcome" where
  "valloc_clear_bits va start count =
     ofold (\<lambda>idx m. if idx < 0 then Fault
        else oassert (start \<ge> int (va_nindex va) \<longrightarrow> TEST_BIT (va_start va) (nat idx) m)
          (Ret (CLEAR_BIT (va_start va) (nat idx) m))) [start..start + int count - 1]"

text \<open>The body of the search loop: the new \<^verbatim>\<open>start\<close> and \<^verbatim>\<open>count\<close>, and whether the loop is left.\<close>

definition scan_page :: "nat \<Rightarrow> bool \<Rightarrow> nat \<Rightarrow> int \<Rightarrow> nat \<Rightarrow> int \<times> nat \<times> bool" where
  "scan_page np res idx start count =
     (if start = -1 \<and> \<not> res then (int idx, 0, False)
      else let count = (if \<not> res then count + 1 else count); start = (if \<not> res then start else -1)
           in (start, count, count = np))"

fun valloc_scan :: "nat \<Rightarrow> valloc \<Rightarrow> mem \<Rightarrow> nat \<Rightarrow> nat \<Rightarrow> int \<Rightarrow> nat \<Rightarrow> nat \<Rightarrow> (int \<times> nat) outcome" where
  "valloc_scan 0 va m np prev start count idx = Block"
| "valloc_scan (Suc fuel) va m np prev start count idx =
     (let (start, count, found) = scan_page np (TEST_BIT (va_start va) idx m) idx start count in
      if found then Ret (start, count)
      else let (start, count, idx) = (if idx + 1 \<ge> va_npages va then (-1, 0, 0) else (start, count, idx + 1)) in
      if idx \<noteq> prev then valloc_scan fuel va m np prev start count idx else Ret (start, count))"

definition valloc_get_start_index :: "valloc \<Rightarrow> nat \<Rightarrow> mem \<Rightarrow> (int \<times> valloc) outcome" where
  "valloc_get_start_index va np m =
     (let idx = (if va_last va > va_npages va then 0 else va_last va) in
      obind (valloc_scan (Suc (va_npages va)) va m np idx (-1) 0 idx) (\<lambda>(start, count).
      if start \<noteq> -1 \<and> start < int (va_npages va) \<and> count \<ge> np
      then Ret (start, va\<lparr>va_last := nat start + np\<rparr>) else Ret (-1, va)))"

section \<open>The operations\<close>

text \<open>\<^verbatim>\<open>map_page\<close> and \<^verbatim>\<open>unmap_page\<close> stand for the calls into the page tables.\<close>

definition valloc_populate_index :: "(bool \<Rightarrow> nat \<Rightarrow> mem \<Rightarrow> mem) \<Rightarrow> valloc \<Rightarrow> u32 \<Rightarrow> mem \<Rightarrow> mem outcome" where
  "valloc_populate_index map_page va flags m =
     (let mm_pages = va_nindex va * va_psize va div PAGE_SIZE in
      valloc_set_bits va 0 (va_nindex va)
        (fold (\<lambda>i. map_page (has_flag flags VALLOC_USERMAP) (va_start va + i * PAGE_SIZE)) [0..<mm_pages] m))"

definition valloc_depopulate_index :: "(nat \<Rightarrow> mem \<Rightarrow> mem) \<Rightarrow> valloc \<Rightarrow> mem \<Rightarrow> mem" where
  "valloc_depopulate_index unmap_page va m =
     (let mm_pages = va_nindex va * va_psize va div PAGE_SIZE in
      fold (\<lambda>i. unmap_page (va_start va + i * PAGE_SIZE)) [0..<mm_pages] m)"

text \<open>
  \<^verbatim>\<open>valloc_create\<close>: \<open>alloc\<close> says whether the caller passed a null pointer; both then find a zeroed structure.
  The first assertion is that the page size is a multiple of the system's, the second that it divides the
  region (it is meant for powers of two).
\<close>

definition valloc_create ::
  "(bool \<Rightarrow> nat \<Rightarrow> mem \<Rightarrow> mem) \<Rightarrow> bool \<Rightarrow> nat \<Rightarrow> nat \<Rightarrow> nat \<Rightarrow> u32 \<Rightarrow> mem \<Rightarrow> (valloc \<times> mem) outcome" where
  "valloc_create map_page alloc start en page_size flags m =
     oassert ((of_nat page_size :: u64) AND NOT 0xFFFFFFFFFFFFF000 = 0)
     (oassert ((of_nat start - of_nat en :: u64) AND (of_nat page_size - 1) = 0)
     (let va = \<lparr>va_npages = (en - start) div page_size, va_start = start, va_end = en,
                va_nindex = ((en - start) div page_size - 1) div (8 * page_size) + 1, va_psize = page_size,
                va_lock = mutex_create False 0, va_flags = (if alloc then VALLOC_ALLOC else 0) OR flags, va_last = 0\<rparr>
      in obind (valloc_populate_index map_page va flags m) (\<lambda>m. Ret (va, m))))"

text \<open>The second result says whether the structure itself is freed.\<close>

definition valloc_destroy :: "(nat \<Rightarrow> mem \<Rightarrow> mem) \<Rightarrow> kenv \<Rightarrow> valloc \<Rightarrow> mem \<Rightarrow> (mem \<times> bool) outcome" where
  "valloc_destroy unmap_page env va m =
     obind (mutex_destroy env (va_lock va)) (\<lambda>_.
     Ret (valloc_depopulate_index unmap_page va m, has_flag (va_flags va) VALLOC_ALLOC))"

definition valloc_allocate ::
  "kenv \<Rightarrow> valloc \<Rightarrow> bool \<Rightarrow> nat \<Rightarrow> mem \<Rightarrow> (valloc_region option \<times> valloc \<times> mem) outcome" where
  "valloc_allocate env va alloc np m =
     obind (mutex_acquire env (va_lock va)) (\<lambda>l.
     obind (valloc_get_start_index va np m) (\<lambda>(index, va).
     obind (valloc_set_bits va index np m) (\<lambda>m.
     obind (mutex_release env l) (\<lambda>l.
     let va = va\<lparr>va_lock := l\<rparr> in
     if index = -1 then Ret (None, va, m)
     else Ret (Some \<lparr>vr_start = va_start va + nat index * va_psize va, vr_npages = np,
                     vr_flags = (if alloc then VALLOC_ALLOC else 0)\<rparr>, va, m)))))"

definition valloc_deallocate :: "kenv \<Rightarrow> valloc \<Rightarrow> valloc_region \<Rightarrow> mem \<Rightarrow> (valloc \<times> mem) outcome" where
  "valloc_deallocate env va reg m =
     obind (mutex_acquire env (va_lock va)) (\<lambda>l.
     let start_index = signed_take_bit 31 (int ((vr_start reg - va_start va) div va_psize va)) in
     obind (valloc_clear_bits va start_index (vr_npages reg) m) (\<lambda>m.
     obind (mutex_release env l) (\<lambda>l. Ret (va\<lparr>va_lock := l\<rparr>, m))))"

definition valloc_split_region ::
  "kenv \<Rightarrow> valloc \<Rightarrow> valloc_region \<Rightarrow> bool \<Rightarrow> nat \<Rightarrow> (valloc_region \<times> valloc_region \<times> valloc) outcome" where
  "valloc_split_region env va reg alloc np =
     obind (mutex_acquire env (va_lock va)) (\<lambda>l.
     let old = vr_npages reg; reg = reg\<lparr>vr_npages := np\<rparr>;
         start_index_nr = (vr_start reg - va_start va) div va_psize va + np;
         nr = \<lparr>vr_start = va_start va + start_index_nr * va_psize va, vr_npages = old - np,
               vr_flags = (if alloc then VALLOC_ALLOC else 0)\<rparr> in
     obind (mutex_release env l) (\<lambda>l. Ret (nr, reg, va\<lparr>va_lock := l\<rparr>)))"

section \<open>Bits\<close>

lemma TEST_BIT_iff: "TEST_BIT s i m \<longleftrightarrow> bit (m (s + i div 8)) (i mod 8)"
  by (simp add: TEST_BIT_def push_bit_of_1 and_exp_eq_0_iff_not_bit)

lemma same_bit_iff: "i div 8 = j div 8 \<and> i mod 8 = j mod 8 \<longleftrightarrow> i = j" for i j :: nat
  by (metis mult_div_mod_eq)

lemma TEST_SET: "TEST_BIT s j (SET_BIT s i m) \<longleftrightarrow> j = i \<or> TEST_BIT s j m"
  unfolding TEST_BIT_iff SET_BIT_def using same_bit_iff [of i j]
  by (auto simp: bit_or_iff bit_exp_iff push_bit_of_1)

lemma TEST_CLEAR: "TEST_BIT s j (CLEAR_BIT s i m) \<longleftrightarrow> j \<noteq> i \<and> TEST_BIT s j m"
  unfolding TEST_BIT_iff CLEAR_BIT_def using same_bit_iff [of i j]
  by (auto simp: bit_and_iff bit_not_iff bit_exp_iff push_bit_of_1)

lemma below_SET: "a < s \<Longrightarrow> SET_BIT s i m a = m a"
  by (simp add: SET_BIT_def)

lemma below_CLEAR: "a < s \<Longrightarrow> CLEAR_BIT s i m a = m a"
  by (simp add: CLEAR_BIT_def)

lemma bitmap_eqI:
  assumes "\<And>a. a < s \<Longrightarrow> m a = m' a" "\<And>i. TEST_BIT s i m = TEST_BIT s i m'"
  shows "m = m'"
proof
  fix a
  show "m a = m' a"
  proof (cases "a < s")
    case False
    have "bit (m a) k = bit (m' a) k" if "k < 8" for k
      using assms(2) [of "8 * (a - s) + k"] that False by (simp add: TEST_BIT_iff)
    then show ?thesis
      by (intro bit_word_eqI) simp
  qed (rule assms(1))
qed

lemma TEST_fold_SET: "TEST_BIT s j (fold (SET_BIT s) [i..<n] m) \<longleftrightarrow> (i \<le> j \<and> j < n) \<or> TEST_BIT s j m"
  by (induction n) (auto simp: TEST_SET)

lemma TEST_fold_CLEAR: "TEST_BIT s j (fold (CLEAR_BIT s) [i..<n] m) \<longleftrightarrow> \<not> (i \<le> j \<and> j < n) \<and> TEST_BIT s j m"
  by (induction n) (auto simp: TEST_CLEAR)

lemma below_fold_SET: "a < s \<Longrightarrow> fold (SET_BIT s) is m a = m a"
  by (induction "is" arbitrary: m) (simp_all add: below_SET)

lemma below_fold_CLEAR: "a < s \<Longrightarrow> fold (CLEAR_BIT s) is m a = m a"
  by (induction "is" arbitrary: m) (simp_all add: below_CLEAR)

lemma upto_int_upt: "[int i..int i + int n - 1] = map int [i..<i + n]"
proof (induction n)
  case (Suc n)
  have "[int i..int i + int (Suc n) - 1] = [int i..int i + int n - 1] @ [int i + int n]"
    using upto_rec2 [of "int i" "int i + int n"] by simp
  with Suc show ?case by simp
qed simp

lemma ofold_map: "ofold f (map g xs) s = ofold (\<lambda>x. f (g x)) xs s"
proof (induction xs arbitrary: s)
  case (Cons x xs)
  then show ?case by (cases "f (g x) s") simp_all
qed simp

lemma set_bits_upt: "valloc_set_bits va (int i) n m =
    ofold (\<lambda>j m. oassert (i \<ge> va_nindex va \<longrightarrow> \<not> TEST_BIT (va_start va) j m) (Ret (SET_BIT (va_start va) j m))) [i..<i + n] m"
  unfolding valloc_set_bits_def upto_int_upt ofold_map by simp

lemma clear_bits_upt: "valloc_clear_bits va (int i) n m =
    ofold (\<lambda>j m. oassert (i \<ge> va_nindex va \<longrightarrow> TEST_BIT (va_start va) j m) (Ret (CLEAR_BIT (va_start va) j m))) [i..<i + n] m"
  unfolding valloc_clear_bits_def upto_int_upt ofold_map by simp

lemma set_bits_ok:
  assumes "\<And>j. i \<le> j \<Longrightarrow> j < i + n \<Longrightarrow> \<not> TEST_BIT (va_start va) j m"
  shows "valloc_set_bits va (int i) n m = Ret (fold (SET_BIT (va_start va)) [i..<i + n] m)"
  using assms
proof (induction n)
  case (Suc n)
  then have "valloc_set_bits va (int i) n m = Ret (fold (SET_BIT (va_start va)) [i..<i + n] m)" by simp
  moreover have "\<not> TEST_BIT (va_start va) (i + n) (fold (SET_BIT (va_start va)) [i..<i + n] m)"
    using Suc.prems by (simp add: TEST_fold_SET)
  ultimately show ?case
    by (simp add: set_bits_upt ofold_append)
qed (simp add: valloc_set_bits_def)

lemma clear_bits_ok:
  assumes "\<And>j. i \<le> j \<Longrightarrow> j < i + n \<Longrightarrow> TEST_BIT (va_start va) j m"
  shows "valloc_clear_bits va (int i) n m = Ret (fold (CLEAR_BIT (va_start va)) [i..<i + n] m)"
  using assms
proof (induction n)
  case (Suc n)
  then have "valloc_clear_bits va (int i) n m = Ret (fold (CLEAR_BIT (va_start va)) [i..<i + n] m)" by simp
  moreover have "TEST_BIT (va_start va) (i + n) (fold (CLEAR_BIT (va_start va)) [i..<i + n] m)"
    using Suc.prems by (simp add: TEST_fold_CLEAR)
  ultimately show ?case
    by (simp add: clear_bits_upt ofold_append)
qed (simp add: valloc_clear_bits_def)

section \<open>The search\<close>

text \<open>The state of the search: the current run reaches up to the cursor and is still too short.\<close>

definition scan_inv :: "valloc \<Rightarrow> mem \<Rightarrow> nat \<Rightarrow> int \<Rightarrow> nat \<Rightarrow> nat \<Rightarrow> bool" where
  "scan_inv va m np start count idx \<longleftrightarrow> idx < va_npages va \<and>
     (start = -1 \<or> 0 \<le> start \<and> start + 1 + int count = int idx \<and> count < np \<and>
        (\<forall>j. start \<le> int j \<and> j < idx \<longrightarrow> \<not> TEST_BIT (va_start va) j m)) \<and> (start = -1 \<longrightarrow> count < np)"

definition free_run :: "valloc \<Rightarrow> mem \<Rightarrow> nat \<Rightarrow> nat \<Rightarrow> bool" where
  "free_run va m i np \<longleftrightarrow> i + np < va_npages va \<and> (\<forall>j. i \<le> j \<and> j \<le> i + np \<longrightarrow> \<not> TEST_BIT (va_start va) j m)"

lemma scan_page_cases:
  assumes "scan_inv va m np start count idx" "scan_page np (TEST_BIT (va_start va) idx m) idx start count = (start', count', found)"
  shows "if found then start' \<noteq> -1 \<and> 0 \<le> start' \<and> count' = np \<and> free_run va m (nat start') np
    else idx + 1 < va_npages va \<longrightarrow> scan_inv va m np start' count' (idx + 1)"
proof -
  consider "TEST_BIT (va_start va) idx m" | "\<not> TEST_BIT (va_start va) idx m" "start = -1"
    | "\<not> TEST_BIT (va_start va) idx m" "start \<noteq> -1" by blast
  then show ?thesis
  proof cases
    case 1
    then show ?thesis using assms by (auto simp: scan_page_def scan_inv_def)
  next
    case 2
    then show ?thesis using assms by (auto simp: scan_page_def scan_inv_def less_Suc_eq)
  next
    case 3
    with assms have s: "start' = start" "count' = count + 1" "found = (count + 1 = np)"
      and i: "0 \<le> start" "start + 1 + int count = int idx" "count < np" "idx < va_npages va"
      by (auto simp: scan_page_def scan_inv_def)
    have f: "\<not> TEST_BIT (va_start va) j m" if "start \<le> int j" "j < idx + 1" for j
      using that assms(1) 3 by (cases "j = idx") (auto simp: scan_inv_def)
    show ?thesis
    proof (cases found)
      case True
      obtain k where k: "start = int k" using i(1) nonneg_int_cases by blast
      then have "idx = k + np" using True s i by linarith
      then show ?thesis using True s i(4) f k by (auto simp: free_run_def)
    next
      case False
      then show ?thesis using s i f by (auto simp: scan_inv_def)
    qed
  qed
qed

text \<open>How many pages are left before the cursor is back where it started.\<close>

definition scan_left :: "valloc \<Rightarrow> nat \<Rightarrow> nat \<Rightarrow> nat" where
  "scan_left va prev idx = (if prev \<le> idx then va_npages va - idx + prev else prev - idx)"

lemma scan_inv_wrap: "0 < np \<Longrightarrow> 0 < va_npages va \<Longrightarrow> scan_inv va m np (-1) 0 0"
  by (simp add: scan_inv_def)

lemma valloc_scan_done:
  assumes "scan_inv va m np start count idx" "prev < va_npages va" "scan_left va prev idx \<le> fuel" "0 < np"
  shows "\<exists>start' count'. valloc_scan fuel va m np prev start count idx = Ret (start', count') \<and>
    (count' < np \<or> start' \<noteq> -1 \<and> 0 \<le> start' \<and> count' = np \<and> free_run va m (nat start') np)"
  using assms(1,3)
proof (induction fuel arbitrary: start count idx)
  case 0
  then show ?case using assms(2) by (auto simp: scan_left_def scan_inv_def split: if_splits)
next
  case (Suc fuel)
  obtain start' count' found where p: "scan_page np (TEST_BIT (va_start va) idx m) idx start count = (start', count', found)"
    by (metis prod_cases3)
  note c = scan_page_cases [OF Suc.prems(1) p]
  have idx: "idx < va_npages va" using Suc.prems by (simp add: scan_inv_def)
  show ?case
  proof (cases found)
    case True
    with c p show ?thesis by simp
  next
    case False
    show ?thesis
    proof (cases "va_npages va \<le> idx + 1")
      case True
      have "scan_left va prev 0 \<le> fuel" if "prev \<noteq> 0"
        using Suc.prems(2) idx True that assms(2) by (auto simp: scan_left_def split: if_splits)
      then show ?thesis
        using Suc.IH [OF scan_inv_wrap] assms idx True False p by (cases "prev = 0") auto
    next
      case notlast: False
      then have i: "scan_inv va m np start' count' (idx + 1)" using c False by simp
      then have "count' < np" by (auto simp: scan_inv_def)
      moreover have "scan_left va prev (idx + 1) \<le> fuel" if "idx + 1 \<noteq> prev"
        using Suc.prems(2) that assms(2) notlast by (auto simp: scan_left_def split: if_splits)
      ultimately show ?thesis
        using Suc.IH [OF i] False notlast p by (cases "idx + 1 = prev") auto
    qed
  qed
qed

text \<open>A sufficient run ahead of the cursor is found, or an earlier one is.\<close>

lemma scan_run:
  assumes "scan_inv va m np start count idx" "0 < np" "free_run va m s np" "idx \<le> s + np" "prev \<le> idx \<or> s + np < prev"
    and "s \<le> idx \<Longrightarrow> start \<noteq> -1 \<and> start \<le> int s \<or> start = -1 \<and> idx = s" "s + np < idx + fuel"
  shows "\<exists>start'. valloc_scan fuel va m np prev start count idx = Ret (start', np) \<and> start' \<noteq> -1"
  using assms(1,4-)
proof (induction fuel arbitrary: start count idx)
  case (Suc fuel)
  obtain start' count' found where p: "scan_page np (TEST_BIT (va_start va) idx m) idx start count = (start', count', found)"
    by (metis prod_cases3)
  note c = scan_page_cases [OF Suc.prems(1) p]
  show ?case
  proof (cases found)
    case True
    with c p show ?thesis by auto
  next
    case False
    have free: "\<not> TEST_BIT (va_start va) idx m" if "s \<le> idx"
      using assms(3) Suc.prems(2) that by (auto simp: free_run_def)
    have lt: "idx < s + np"
    proof (rule ccontr)
      assume "\<not> idx < s + np"
      then have e: "idx = s + np" using Suc.prems(2) by simp
      with Suc.prems(1,4) assms(2) have "start \<noteq> -1" "start \<le> int s" "start + 1 + int count = int idx" "count < np"
        by (auto simp: scan_inv_def)
      with e have "start = int s" "count + 1 = np" by linarith+
      with e free False p show False by (auto simp: scan_page_def)
    qed
    then have n: "idx + 1 < va_npages va" using assms(3) by (simp add: free_run_def)
    then have i: "scan_inv va m np start' count' (idx + 1)" using c False by simp
    have s: "start' \<noteq> -1 \<and> start' \<le> int s \<or> start' = -1 \<and> idx + 1 = s" if "s \<le> idx + 1"
    proof (cases "s \<le> idx")
      case True
      then show ?thesis using Suc.prems(4) free p by (auto simp: scan_page_def split: if_splits)
    next
      case False
      with that i show ?thesis by (auto simp: scan_inv_def)
    qed
    have "idx + 1 \<noteq> prev" using Suc.prems(3) lt by auto
    then show ?thesis
      using Suc.IH [OF i _ _ s] Suc.prems lt n p False by auto
  qed
qed simp

lemma scan_wraps:
  assumes "scan_inv va m np start count idx" "0 < np" "0 < prev" "prev \<le> idx" "free_run va m s np" "s + np < prev"
    and "va_npages va - idx + (s + np) < fuel"
  shows "\<exists>start'. valloc_scan fuel va m np prev start count idx = Ret (start', np) \<and> start' \<noteq> -1"
  using assms(1,4,7)
proof (induction fuel arbitrary: start count idx)
  case (Suc fuel)
  obtain start' count' found where p: "scan_page np (TEST_BIT (va_start va) idx m) idx start count = (start', count', found)"
    by (metis prod_cases3)
  note c = scan_page_cases [OF Suc.prems(1) p]
  have idx: "idx < va_npages va" using Suc.prems by (simp add: scan_inv_def)
  show ?case
  proof (cases found)
    case True
    with c p show ?thesis by auto
  next
    case False
    show ?thesis
    proof (cases "va_npages va \<le> idx + 1")
      case True
      have "\<exists>start'. valloc_scan fuel va m np prev (-1) 0 0 = Ret (start', np) \<and> start' \<noteq> -1"
        using assms Suc.prems(3) idx by (intro scan_run [OF scan_inv_wrap _ assms(5)]) auto
      then show ?thesis using True False p assms(3) by auto
    next
      case False': False
      then have "scan_inv va m np start' count' (idx + 1)" using c False by simp
      from Suc.IH [OF this] show ?thesis
        using Suc.prems False' False p by auto
    qed
  qed
qed simp

section \<open>Allocation\<close>

definition valloc_inv :: "valloc \<Rightarrow> mem \<Rightarrow> bool" where
  "valloc_inv va m \<longleftrightarrow> mutex_free (va_lock va) \<and> va_last va < va_npages va \<and> 0 < va_psize va \<and>
     va_nindex va \<le> va_npages va \<and> (\<forall>j < va_nindex va. TEST_BIT (va_start va) j m)"

lemma get_start_index_cases:
  assumes "valloc_inv va m" "0 < np"
  obtains i where "valloc_get_start_index va np m = Ret (int i, va\<lparr>va_last := i + np\<rparr>)" "free_run va m i np"
  | "valloc_get_start_index va np m = Ret (-1, va)"
    "\<And>s. free_run va m s np \<Longrightarrow> s < va_last va \<and> va_last va \<le> s + np"
proof -
  let ?p = "va_last va"
  have p: "?p < va_npages va" using assms by (simp add: valloc_inv_def)
  have inv: "scan_inv va m np (-1) 0 ?p" using assms(2) p by (simp add: scan_inv_def)
  obtain start count where r: "valloc_scan (Suc (va_npages va)) va m np ?p (-1) 0 ?p = Ret (start, count)"
    "count < np \<or> start \<noteq> -1 \<and> 0 \<le> start \<and> count = np \<and> free_run va m (nat start) np"
    using valloc_scan_done [OF inv p _ assms(2), of "Suc (va_npages va)"] p by (auto simp: scan_left_def)
  show ?thesis
  proof (cases "count < np")
    case False
    with r obtain k where f: "start = int k" "free_run va m k np" "count = np"
      by (metis nat_0_le)
    then have "valloc_get_start_index va np m = Ret (int k, va\<lparr>va_last := k + np\<rparr>)"
      using r(1) p by (simp add: valloc_get_start_index_def free_run_def del: valloc_scan.simps)
    with f that(1) show ?thesis by blast
  next
    case True
    then have "valloc_get_start_index va np m = Ret (-1, va)"
      using r(1) p by (simp add: valloc_get_start_index_def del: valloc_scan.simps)
    moreover have "s < ?p \<and> ?p \<le> s + np" if run: "free_run va m s np" for s
    proof (rule ccontr)
      assume no: "\<not> (s < ?p \<and> ?p \<le> s + np)"
      have "\<exists>start'. valloc_scan (Suc (va_npages va)) va m np ?p (-1) 0 ?p = Ret (start', np) \<and> start' \<noteq> -1"
      proof (cases "?p \<le> s")
        case True
        then show ?thesis using run by (intro scan_run [OF inv assms(2) run]) (auto simp: free_run_def)
      next
        case False
        then show ?thesis using no p by (intro scan_wraps [OF inv assms(2) _ _ run]) auto
      qed
      with r(1) True show False by simp
    qed
    ultimately show ?thesis using that(2) by blast
  qed
qed

lemma free_run_above_index:
  assumes "valloc_inv va m" "free_run va m i np"
  shows "va_nindex va \<le> i"
proof (rule ccontr)
  assume "\<not> va_nindex va \<le> i"
  then have "TEST_BIT (va_start va) i m" using assms by (simp add: valloc_inv_def)
  then show False using assms(2) by (simp add: free_run_def)
qed

text \<open>C27: An allocation of virtual pages is sound and complete.  Either \<^verbatim>\<open>valloc_allocate\<close> returns a region of the
  requested number of pages that lie inside the managed range, behind the pages of the bitmap, and were all
  free, marks exactly these and keeps the invariant; or every run of one page more than requested crosses
  the position of the last allocation, and the call has undefined behaviour.\<close>

theorem valloc_allocate_correct:
  assumes "valloc_inv va m" "env_ok env" "0 < np"
  shows "(\<exists>i va' m'. valloc_allocate env va a np m =
        Ret (Some \<lparr>vr_start = va_start va + i * va_psize va, vr_npages = np, vr_flags = (if a then VALLOC_ALLOC else 0)\<rparr>, va', m') \<and>
        va_nindex va \<le> i \<and> i + np < va_npages va \<and> (\<forall>j. i \<le> j \<and> j < i + np \<longrightarrow> \<not> TEST_BIT (va_start va) j m) \<and>
        (\<forall>j. TEST_BIT (va_start va) j m' \<longleftrightarrow> i \<le> j \<and> j < i + np \<or> TEST_BIT (va_start va) j m) \<and> valloc_inv va' m') \<or>
    (\<forall>s. free_run va m s np \<longrightarrow> s < va_last va \<and> va_last va \<le> s + np) \<and> valloc_allocate env va a np m = Fault"
  using get_start_index_cases [OF assms(1,3)]
proof cases
  case (1 i)
  have l: "mutex_free (va_lock va)" using assms(1) by (simp add: valloc_inv_def)
  let ?m = "fold (SET_BIT (va_start va)) [i..<i + np] m"
  have set: "valloc_set_bits (va\<lparr>va_last := i + np\<rparr>) (int i) np m = Ret ?m"
    using set_bits_ok [of i np "va\<lparr>va_last := i + np\<rparr>" m] 1(2) by (simp add: free_run_def)
  have "valloc_inv (va\<lparr>va_last := i + np\<rparr>) ?m"
    using assms(1) 1(2) by (auto simp: valloc_inv_def TEST_fold_SET free_run_def)
  moreover have "valloc_allocate env va a np m =
      Ret (Some \<lparr>vr_start = va_start va + i * va_psize va, vr_npages = np, vr_flags = (if a then VALLOC_ALLOC else 0)\<rparr>,
        va\<lparr>va_last := i + np\<rparr>, ?m)"
    unfolding valloc_allocate_def using assms(2) l 1(1) set by (simp add: lock_simps)
  ultimately show ?thesis
    using 1(2) free_run_above_index [OF assms(1) 1(2)] unfolding free_run_def
    by (intro disjI1 exI [of _ i] exI [of _ "va\<lparr>va_last := i + np\<rparr>"] exI [of _ ?m]) (auto simp: TEST_fold_SET)
next
  case 2
  have l: "mutex_free (va_lock va)" using assms(1) by (simp add: valloc_inv_def)
  have "valloc_set_bits va (-1) np m = Fault"
    using assms(3) by (simp add: valloc_set_bits_def upto_rec1)
  then have "valloc_allocate env va a np m = Fault"
    unfolding valloc_allocate_def using assms(2) l 2(1) by (simp add: lock_simps)
  with 2(2) show ?thesis by blast
qed

text \<open>Eight pages, of which the first holds the bitmap and the third is taken.\<close>

definition example_va :: valloc where
  "example_va = \<lparr>va_npages = 8, va_start = 0, va_end = 32768, va_nindex = 1, va_psize = 4096,
     va_lock = mutex_create False 0, va_flags = 0, va_last = 1\<rparr>"

definition example_map :: mem where
  "example_map = (\<lambda>_. 0)(0 := 5)"

lemma example_inv: "valloc_inv example_va example_map"
  by (simp add: valloc_inv_def example_va_def example_map_def mutex_create_free TEST_BIT_def)

lemma example_run: "free_run example_va example_map 3 2"
proof -
  have "\<not> TEST_BIT (va_start example_va) j example_map" if "3 \<le> j" "j \<le> 5" for j
  proof -
    from that have "j = 3 \<or> j = 4 \<or> j = 5" by linarith
    then show ?thesis by (auto simp: example_va_def example_map_def TEST_BIT_def)
  qed
  then show ?thesis by (simp add: free_run_def example_va_def)
qed

lemma example_env: "env_ok (task_env 0)"
  by (simp add: env_ok_def task_env_def)

theorem valloc_allocate_correct_witness:
  "\<exists>i va' m'. valloc_allocate (task_env 0) example_va False 2 example_map =
      Ret (Some \<lparr>vr_start = i * 4096, vr_npages = 2, vr_flags = 0\<rparr>, va', m') \<and> valloc_inv va' m'"
proof -
  from example_run have "\<not> (\<forall>s. free_run example_va example_map s 2 \<longrightarrow> s < va_last example_va \<and> va_last example_va \<le> s + 2)"
    by (auto simp: example_va_def)
  then show ?thesis
    using valloc_allocate_correct [OF example_inv example_env, of 2 False] by (auto simp: example_va_def)
qed

text \<open>C28: Freeing undoes allocating.  Deallocating the region that \<^verbatim>\<open>valloc_allocate\<close> returned gives back the
  very memory, bitmap included, from before the allocation, and keeps the invariant.\<close>

theorem valloc_deallocate_allocate:
  assumes "valloc_inv va m" "env_ok env" "0 < np" "va_npages va < 2 ^ 31"
    and "valloc_allocate env va a np m = Ret (Some reg, va', m')"
  shows "\<exists>va''. valloc_deallocate env va' reg m' = Ret (va'', m) \<and> valloc_inv va'' m"
proof -
  have l: "mutex_free (va_lock va)" and ps: "0 < va_psize va" using assms(1) by (simp_all add: valloc_inv_def)
  from get_start_index_cases [OF assms(1,3)] show ?thesis
  proof cases
    case (1 i)
    let ?m = "fold (SET_BIT (va_start va)) [i..<i + np] m"
    have "valloc_set_bits (va\<lparr>va_last := i + np\<rparr>) (int i) np m = Ret ?m"
      using set_bits_ok [of i np "va\<lparr>va_last := i + np\<rparr>" m] 1(2) by (simp add: free_run_def)
    then have r: "reg = \<lparr>vr_start = va_start va + i * va_psize va, vr_npages = np, vr_flags = (if a then VALLOC_ALLOC else 0)\<rparr>"
      "va' = va\<lparr>va_last := i + np\<rparr>" "m' = ?m"
      using assms(2,5) l 1(1) by (auto simp: valloc_allocate_def lock_simps)
    have i: "i < 2 ^ 31" using 1(2) assms(4) by (simp add: free_run_def)
    then have "signed_take_bit 31 (int i) = int i"
      by (intro signed_take_bit_int_eq_self) simp_all
    moreover have "fold (CLEAR_BIT (va_start va)) [i..<i + np] ?m = m"
      using 1(2) by (intro bitmap_eqI [of "va_start va"])
        (auto simp: TEST_fold_CLEAR TEST_fold_SET below_fold_CLEAR below_fold_SET free_run_def)
    moreover have "valloc_clear_bits (va\<lparr>va_last := i + np\<rparr>) (int i) np ?m = Ret (fold (CLEAR_BIT (va_start va)) [i..<i + np] ?m)"
      using clear_bits_ok [of i np "va\<lparr>va_last := i + np\<rparr>" ?m] by (simp add: TEST_fold_SET)
    ultimately have "valloc_deallocate env va' reg m' = Ret (va', m)"
      using assms(2) l ps by (simp add: valloc_deallocate_def r lock_simps)
    moreover have "valloc_inv va' m"
      using assms(1) 1(2) by (auto simp: r valloc_inv_def free_run_def)
    ultimately show ?thesis by blast
  next
    case 2
    then show ?thesis using assms l by (auto simp: valloc_allocate_def lock_simps obind_eq_Ret)
  qed
qed

theorem valloc_deallocate_allocate_witness:
  "\<exists>reg va' m' va''. valloc_allocate (task_env 0) example_va True 2 example_map = Ret (Some reg, va', m') \<and>
     valloc_deallocate (task_env 0) va' reg m' = Ret (va'', example_map)"
proof -
  obtain i where "valloc_get_start_index example_va 2 example_map = Ret (int i, example_va\<lparr>va_last := i + 2\<rparr>)"
    "free_run example_va example_map i 2"
    by (rule get_start_index_cases [OF example_inv, of 2]) (use example_run in \<open>force simp: example_va_def\<close>)+
  then obtain reg va' m' where r: "valloc_allocate (task_env 0) example_va True 2 example_map = Ret (Some reg, va', m')"
    using set_bits_ok [of i 2 "example_va\<lparr>va_last := i + 2\<rparr>" example_map] example_inv example_env
    by (auto simp: valloc_allocate_def valloc_inv_def lock_simps free_run_def)
  then show ?thesis
    using valloc_deallocate_allocate [OF example_inv example_env _ _ r] by (auto simp: example_va_def)
qed

text \<open>C30: Splitting a region partitions it.  The first part keeps its start and gets the requested number of
  pages, the second starts right behind it and has the rest; the bitmap and the allocator are unchanged.\<close>

theorem valloc_split_partitions:
  assumes "valloc_inv va m" "env_ok env" "vr_start reg = va_start va + i * va_psize va" "np \<le> vr_npages reg"
  shows "\<exists>nr reg'. valloc_split_region env va reg a np = Ret (nr, reg', va) \<and> vr_start reg' = vr_start reg \<and>
    vr_start nr = vr_start reg + np * va_psize va \<and> vr_npages reg' = np \<and> vr_npages reg' + vr_npages nr = vr_npages reg"
  using assms by (auto simp: valloc_split_region_def valloc_inv_def lock_simps Let_def add_mult_distrib)

theorem valloc_split_partitions_witness:
  "\<exists>nr reg'. valloc_split_region (task_env 0) example_va \<lparr>vr_start = 12288, vr_npages = 4, vr_flags = 0\<rparr> False 1 = Ret (nr, reg', example_va) \<and>
     vr_start nr = 16384 \<and> vr_npages nr = 3"
  using valloc_split_partitions [OF example_inv example_env, of "\<lparr>vr_start = 12288, vr_npages = 4, vr_flags = 0\<rparr>" 3 1 False]
  by (auto simp: example_va_def)

section \<open>Creation\<close>

text \<open>What is relied on of the page tables: mapping a page makes it readable and zeroes it.\<close>

definition maps_zeroed :: "(nat \<Rightarrow> mem \<Rightarrow> mem) \<Rightarrow> bool" where
  "maps_zeroed f \<longleftrightarrow> (\<forall>a m x. f a m x = (if a \<le> x \<and> x < a + PAGE_SIZE then 0 else m x))"

lemma fold_zeroed:
  assumes "maps_zeroed f"
  shows "fold (\<lambda>i. f (s + i * PAGE_SIZE)) [0..<n] m x = (if s \<le> x \<and> x < s + n * PAGE_SIZE then 0 else m x)"
  using assms by (induction n) (auto simp: maps_zeroed_def)

lemma page_aligned_diff: "((of_nat (4096 * s) - of_nat (4096 * e)) AND 4095 :: u64) = 0"
proof -
  have "((of_nat (4096 * s) - of_nat (4096 * e)) AND 4095 :: u64) = take_bit 12 (push_bit 12 (of_nat s - of_nat e))"
    by (simp add: take_bit_eq_mask mask_eq_exp_minus_1 push_bit_eq_mult algebra_simps)
  then show ?thesis by (simp add: take_bit_push_bit)
qed

lemma populate_ok:
  assumes "maps_zeroed (map_page (has_flag flags VALLOC_USERMAP))" "0 < va_nindex va" "va_psize va = PAGE_SIZE"
  shows "\<exists>m'. valloc_populate_index map_page va flags m = Ret m' \<and>
    (\<forall>j < va_nindex va * PAGE_SIZE * 8. TEST_BIT (va_start va) j m' \<longleftrightarrow> j < va_nindex va)"
proof -
  let ?z = "fold (\<lambda>i. map_page (has_flag flags VALLOC_USERMAP) (va_start va + i * PAGE_SIZE)) [0..<va_nindex va] m"
  have "valloc_set_bits va (int 0) (va_nindex va) ?z = Ret (fold (SET_BIT (va_start va)) [0..<0 + va_nindex va] ?z)"
    unfolding set_bits_upt using assms(2) by (intro ofold_Ret) simp
  moreover have "\<not> TEST_BIT (va_start va) j ?z" if "j < va_nindex va * PAGE_SIZE * 8" for j
  proof -
    have "?z (va_start va + j div 8) = 0"
      unfolding fold_zeroed [OF assms(1)] using that by (simp add: less_mult_imp_div_less)
    then show ?thesis by (simp add: TEST_BIT_iff)
  qed
  ultimately show ?thesis
    using assms(3) by (auto simp: valloc_populate_index_def TEST_fold_SET Let_def)
qed



end
