(* ===== verification/Cache.thy ===== *)
theory Cache
  imports Hash Llist Bytes
begin

text \<open>
  The kernel's object cache \<^verbatim>\<open>kernel/cache/cache.c\<close>: elements found by a pair of numbers through a hash table,
  all of them on a primary list and the dirty ones on a second list, written back by a function the owner
  of the cache supplies.  The elements live in a heap of their own, and so do the nodes of the two lists.
  The record of a cache carries these heaps and the world that the write-back function changes.  Addresses
  that \<^verbatim>\<open>kmalloc\<close> returns are arguments.  The progress messages of \<^verbatim>\<open>cache_sync\<close> are left out.

  The theorems show that every operation keeps the structures consistent, that lookups return what was cached
  last, and that evictions and write-backs never change the contents seen through the cache.
\<close>

section \<open>Elements and caches\<close>

record ce_t =
  ce_id :: u64
  ce_key :: u64
  ce_dirty :: bool
  ce_data :: "u8 list"
  ce_length :: nat
  ce_acount :: u32
  ce_rwl :: rwlock
  ce_dirty_node :: ptr
  ce_list_node :: ptr

record 'w cache_t =
  c_dirty :: u32
  c_flags :: u32
  c_count :: u32
  c_acc :: u32
  c_slow :: u32
  c_syncing :: bool
  c_hash :: "hash_table option"
  c_sync :: "(ce_t \<Rightarrow> 'w \<Rightarrow> (int \<times> 'w) outcome) option"
  c_rwl :: rwlock
  c_dirty_ll :: llist
  c_primary_ll :: llist
  c_elems :: "ptr \<rightharpoonup> ce_t"
  c_dnodes :: lheap
  c_pnodes :: lheap
  c_world :: 'w

abbreviation CF_ALLOC :: u32 where "CF_ALLOC \<equiv> 1"

text \<open>The addresses of the two lists within the structure; only that they are not null matters.\<close>

abbreviation dirty_la :: ptr where "dirty_la \<equiv> 1"
abbreviation primary_la :: ptr where "primary_la \<equiv> 2"

text \<open>The key \<^verbatim>\<open>uint64_t key[2]\<close> as the hash table sees it.\<close>

definition cache_key :: "u64 \<Rightarrow> u64 \<Rightarrow> hkey" where
  "cache_key i k = \<lparr>hk_bytes = bytes_of i @ bytes_of k, hk_esz = 8, hk_len = 2\<rparr>"

text \<open>\<^verbatim>\<open>memcpy\<close> of the first bytes of a buffer: reading beyond its end is a fault.\<close>

definition copy_from :: "u8 list \<Rightarrow> nat \<Rightarrow> (u8 list \<Rightarrow> 'b outcome) \<Rightarrow> 'b outcome" where
  "copy_from buf n k = (if n \<le> length buf then k (take n buf) else Fault)"

section \<open>The operations\<close>

definition accessed_cache :: "'w cache_t \<Rightarrow> 'w cache_t" where
  "accessed_cache c = c\<lparr>c_slow := 100, c_acc := 1000\<rparr>"

text \<open>\<open>pm\<close> holds \<^verbatim>\<open>pm_used_pages\<close> and \<^verbatim>\<open>pm_num_pages\<close>.\<close>

definition should_element_be_added :: "u64 \<times> u64 \<Rightarrow> 'w cache_t \<Rightarrow> bool outcome" where
  "should_element_be_added pm c =
     (if c_count c > 100000 then Ret False
      else if snd pm = 0 then Fault
      else Ret (\<not> (fst pm * 100) div snd pm \<ge> 80))"

definition add_dlist :: "kenv \<Rightarrow> ptr \<Rightarrow> ptr \<Rightarrow> 'w cache_t \<Rightarrow> 'w cache_t outcome" where
  "add_dlist env dn p c =
     obind (ll_insert env dirty_la (c_dirty_ll c) dn p (c_dnodes c)) (\<lambda>(l, h).
     hupd (c_elems c) p (\<lambda>e. e\<lparr>ce_dirty_node := dn\<rparr>) (\<lambda>es.
     Ret (c\<lparr>c_dirty_ll := l, c_dnodes := h, c_elems := es\<rparr>)))"

definition remove_dlist :: "kenv \<Rightarrow> ptr \<Rightarrow> 'w cache_t \<Rightarrow> 'w cache_t outcome" where
  "remove_dlist env p c =
     deref (c_elems c) p (\<lambda>e.
     obind (ll_remove env dirty_la (c_dirty_ll c) (ce_dirty_node e) (c_dnodes c)) (\<lambda>(l, h).
     Ret (c\<lparr>c_dirty_ll := l, c_dnodes := h\<rparr>)))"

definition set_dirty :: "kenv \<Rightarrow> ptr \<Rightarrow> ptr \<Rightarrow> bool \<Rightarrow> 'w cache_t \<Rightarrow> (bool \<times> 'w cache_t) outcome" where
  "set_dirty env dn p dirty c =
     deref (c_elems c) p (\<lambda>e.
     let old = ce_dirty e; c = c\<lparr>c_elems := (c_elems c)(p \<mapsto> e\<lparr>ce_dirty := dirty\<rparr>)\<rparr> in
     if dirty then
       (if old \<noteq> dirty then obind (add_dlist env dn p c) (\<lambda>c. Ret (old, c\<lparr>c_dirty := c_dirty c + 1\<rparr>))
        else Ret (old, c))
     else
       (if old \<noteq> dirty then oassert (c_dirty c \<noteq> 0)
          (obind (remove_dlist env p (c\<lparr>c_dirty := c_dirty c - 1\<rparr>)) (\<lambda>c. Ret (old, c)))
        else Ret (old, c)))"

text \<open>The part of \<^verbatim>\<open>cache_create\<close> that fills in the structure; its name, used in messages only, is left out.\<close>

definition cache_init :: "kenv \<Rightarrow> bool \<Rightarrow> (ce_t \<Rightarrow> 'w \<Rightarrow> (int \<times> 'w) outcome) option \<Rightarrow> 'w \<Rightarrow> 'w cache_t outcome" where
  "cache_init env alloc sync w =
     obind (hash_table_create True 0 1) (\<lambda>h.
     obind (hash_table_resize 0 env HASH_RESIZE_MODE_IGNORE 100000 h) (\<lambda>(_, h).
     obind (hash_table_specify_function env 0 h) (\<lambda>h.
     Ret \<lparr>c_dirty = 0, c_flags = (if alloc then CF_ALLOC else 0), c_count = 0, c_acc = 0, c_slow = 1000,
          c_syncing = False, c_hash = Some h, c_sync = sync, c_rwl = rwlock_create True,
          c_dirty_ll = ll_do_create False 0, c_primary_ll = ll_do_create False 0,
          c_elems = Map.empty, c_dnodes = Map.empty, c_pnodes = Map.empty, c_world = w\<rparr>)))"

text \<open>Calls on \<^verbatim>\<open>c->hash\<close>: a null pointer makes the table routines panic.\<close>

definition on_hash :: "'w cache_t \<Rightarrow> (hash_table \<Rightarrow> ('r \<times> hash_table) outcome) \<Rightarrow> ('r \<Rightarrow> 'w cache_t \<Rightarrow> 'b outcome) \<Rightarrow> 'b outcome" where
  "on_hash c f k = (case c_hash c of None \<Rightarrow> Panic | Some h \<Rightarrow> obind (f h) (\<lambda>(r, h). k r (c\<lparr>c_hash := Some h\<rparr>)))"

definition c_lock :: "kenv \<Rightarrow> bool \<Rightarrow> 'w cache_t \<Rightarrow> 'w cache_t outcome" where
  "c_lock env locked c =
     (if locked then Ret c else obind (rwlock_acquire env (c_rwl c) RWL_WRITER) (\<lambda>l. Ret (c\<lparr>c_rwl := l\<rparr>)))"

definition c_unlock :: "kenv \<Rightarrow> bool \<Rightarrow> 'w cache_t \<Rightarrow> 'w cache_t outcome" where
  "c_unlock env locked c =
     (if locked then Ret c else obind (rwlock_release env (c_rwl c) RWL_WRITER) (\<lambda>l. Ret (c\<lparr>c_rwl := l\<rparr>)))"

definition cache_add_element :: "kenv \<Rightarrow> ptr \<Rightarrow> ptr \<Rightarrow> bool \<Rightarrow> 'w cache_t \<Rightarrow> 'w cache_t outcome" where
  "cache_add_element env ln p locked c =
     obind (c_lock env locked (accessed_cache c)) (\<lambda>c.
     deref (c_elems c) p (\<lambda>e.
     on_hash c (hash_table_set_entry env (cache_key (ce_id e) (ce_key e)) p) (\<lambda>_ c.
     obind (ll_insert env primary_la (c_primary_ll c) ln p (c_pnodes c)) (\<lambda>(l, h).
     c_unlock env locked (c\<lparr>c_primary_ll := l, c_pnodes := h, c_count := c_count c + 1,
       c_elems := (c_elems c)(p \<mapsto> e\<lparr>ce_list_node := ln, ce_acount := 1\<rparr>)\<rparr>)))))"

text \<open>A cache without hash table is left with its reader lock held.\<close>

definition cache_find_element :: "kenv \<Rightarrow> u64 \<Rightarrow> u64 \<Rightarrow> 'w cache_t \<Rightarrow> (ptr \<times> 'w cache_t) outcome" where
  "cache_find_element env i key c =
     (let c = accessed_cache c in
      obind (rwlock_acquire env (c_rwl c) RWL_READER) (\<lambda>l.
      if c_hash c = None then Ret (0, c\<lparr>c_rwl := l\<rparr>)
      else on_hash c (hash_table_get_entry env (cache_key i key)) (\<lambda>(r, v) c.
        obind (rwlock_release env l RWL_READER) (\<lambda>l. Ret (if r \<noteq> 0 then 0 else v, c\<lparr>c_rwl := l\<rparr>)))))"

definition do_cache_sync_element :: "kenv \<Rightarrow> ptr \<Rightarrow> bool \<Rightarrow> 'w cache_t \<Rightarrow> (int \<times> 'w cache_t) outcome" where
  "do_cache_sync_element env p locked c =
     obind (c_lock env locked c) (\<lambda>c.
     obind (case c_sync c of None \<Rightarrow> Ret (0, c)
            | Some f \<Rightarrow> deref (c_elems c) p (\<lambda>e. obind (f e (c_world c)) (\<lambda>(r, w). Ret (r, c\<lparr>c_world := w\<rparr>)))) (\<lambda>(r, c).
     obind (set_dirty env 0 p False c) (\<lambda>(_, c).
     obind (c_unlock env locked c) (\<lambda>c. Ret (r, c)))))"

definition cache_remove_element :: "kenv \<Rightarrow> ptr \<Rightarrow> bool \<Rightarrow> 'w cache_t \<Rightarrow> 'w cache_t outcome" where
  "cache_remove_element env p locked c =
     (if p = 0 then Ret c
      else deref (c_elems c) p (\<lambda>e.
      if ce_dirty e then Panic
      else obind (c_lock env locked c) (\<lambda>c.
      oassert (c_count c \<noteq> 0)
      (obind (ll_remove env primary_la (c_primary_ll c) (ce_list_node e) (c_pnodes c)) (\<lambda>(l, h).
       let c = c\<lparr>c_count := c_count c - 1, c_primary_ll := l, c_pnodes := h\<rparr> in
       obind (if c_hash c = None then Ret c
              else on_hash c (hash_table_delete_entry env (cache_key (ce_id e) (ce_key e))) (\<lambda>_ c. Ret c)) (\<lambda>c.
       obind (rwlock_destroy env (ce_rwl e)) (\<lambda>_.
       c_unlock env locked (c\<lparr>c_elems := (c_elems c)(p := None)\<rparr>))))))))"

text \<open>The two statements with which elements are dropped: write back when dirty, then remove.\<close>

definition cache_drop_element :: "kenv \<Rightarrow> ptr \<Rightarrow> 'w cache_t \<Rightarrow> 'w cache_t outcome" where
  "cache_drop_element env p c =
     deref (c_elems c) p (\<lambda>e.
     obind (if ce_dirty e then obind (do_cache_sync_element env p True c) (\<lambda>(_, c). Ret c) else Ret c)
       (cache_remove_element env p True))"

text \<open>The part of \<^verbatim>\<open>do_cache_object\<close> that evicts the first element of the hash table when memory is short.\<close>

definition cache_make_room :: "kenv \<Rightarrow> u64 \<times> u64 \<Rightarrow> 'w cache_t \<Rightarrow> 'w cache_t outcome" where
  "cache_make_room env pm c =
     obind (should_element_be_added pm c) (\<lambda>add.
     if add then Ret c
     else on_hash c (hash_table_enumerate_entries env 0) (\<lambda>r c.
       case r of None \<Rightarrow> Ret c
       | Some n \<Rightarrow> cache_drop_element env (hn_entry n) c))"

definition do_cache_object ::
  "kenv \<Rightarrow> u64 \<times> u64 \<Rightarrow> ptr \<times> ptr \<times> ptr \<Rightarrow> u64 \<Rightarrow> u64 \<Rightarrow> nat \<Rightarrow> u8 list \<Rightarrow> bool \<Rightarrow> 'w cache_t \<Rightarrow> (int \<times> 'w cache_t) outcome" where
  "do_cache_object env pm ps i key sz buf dirty c =
     (let (p, dn, ln) = ps in
      obind (c_lock env False (accessed_cache c)) (\<lambda>c.
      on_hash c (hash_table_get_entry env (cache_key i key)) (\<lambda>(r, obj) c.
      if r = 0 \<and> obj \<noteq> 0 then
        deref (c_elems c) obj (\<lambda>e.
        copy_from buf (ce_length e) (\<lambda>d.
        obind (set_dirty env dn obj dirty (c\<lparr>c_elems := (c_elems c)(obj \<mapsto> e\<lparr>ce_data := d\<rparr>)\<rparr>)) (\<lambda>(_, c).
        obind (c_unlock env False c) (\<lambda>c. Ret (0, c)))))
      else
        obind (cache_make_room env pm c) (\<lambda>c.
        copy_from buf sz (\<lambda>d.
        let c = c\<lparr>c_elems := (c_elems c)(p \<mapsto> \<lparr>ce_id = i, ce_key = key, ce_dirty = False, ce_data = d, ce_length = sz,
              ce_acount = 0, ce_rwl = rwlock_create True, ce_dirty_node = 0, ce_list_node = 0\<rparr>)\<rparr> in
        obind (set_dirty env dn p dirty c) (\<lambda>(_, c).
        obind (cache_add_element env ln p True c) (\<lambda>c.
        obind (c_unlock env False c) (\<lambda>c. Ret (0, c)))))))))"

definition cache_sync_element :: "kenv \<Rightarrow> ptr \<Rightarrow> 'w cache_t \<Rightarrow> (int \<times> 'w cache_t) outcome" where
  "cache_sync_element env p c = do_cache_sync_element env p False c"

text \<open>
  The loop of \<^verbatim>\<open>cache_sync\<close>; \<open>sig i\<close> says whether a signal is pending after the \<open>i\<close>-th element, which ends the
  routine at once.  The first result says whether it did.
\<close>

fun cache_sync_loop :: "nat \<Rightarrow> kenv \<Rightarrow> (nat \<Rightarrow> bool) \<Rightarrow> nat \<Rightarrow> 'w cache_t \<Rightarrow> (bool \<times> 'w cache_t) outcome" where
  "cache_sync_loop 0 env sig i c = Block"
| "cache_sync_loop (Suc fuel) env sig i c =
     (if c_dirty c = 0 then Ret (False, c)
      else obind (c_lock env False c) (\<lambda>c.
      oassert (ll_head (c_dirty_ll c) \<noteq> 0)
      (deref (c_dnodes c) (ll_head (c_dirty_ll c)) (\<lambda>n.
       obind (do_cache_sync_element env (ln_entry n) True c) (\<lambda>(_, c).
       obind (c_unlock env False c) (\<lambda>c.
       if sig i then Ret (True, c) else cache_sync_loop fuel env sig (i + 1) c))))))"

definition cache_sync :: "nat \<Rightarrow> kenv \<Rightarrow> (nat \<Rightarrow> bool) \<Rightarrow> 'w cache_t \<Rightarrow> 'w cache_t outcome" where
  "cache_sync fuel env sig c =
     (if c_dirty c = 0 \<or> c_sync c = None then Ret c
      else obind (cache_sync_loop fuel env sig 1 ((accessed_cache c)\<lparr>c_syncing := True\<rparr>)) (\<lambda>(stopped, c).
        Ret (if stopped then c else c\<lparr>c_syncing := False\<rparr>)))"

text \<open>The loop of \<^verbatim>\<open>ll_for_each_entry_safe\<close> over the primary list: \<^verbatim>\<open>next\<close> is read before the body runs.\<close>

fun primary_loop :: "nat \<Rightarrow> (ptr \<Rightarrow> 'w cache_t \<Rightarrow> 'w cache_t outcome) \<Rightarrow> ptr \<Rightarrow> 'w cache_t \<Rightarrow> 'w cache_t outcome" where
  "primary_loop 0 body cur c = Block"
| "primary_loop (Suc fuel) body cur c =
     (if cur = 0 then Ret c
      else deref (c_pnodes c) cur (\<lambda>n.
        if ln_entry n = 0 then Ret c
        else obind (body (ln_entry n) c) (primary_loop fuel body (ln_next n))))"

definition destroy_body :: "kenv \<Rightarrow> u64 \<Rightarrow> ptr \<Rightarrow> 'w cache_t \<Rightarrow> 'w cache_t outcome" where
  "destroy_body env i p c = deref (c_elems c) p (\<lambda>e. if ce_id e = i then cache_drop_element env p c else Ret c)"

definition cache_destroy_all_id :: "nat \<Rightarrow> kenv \<Rightarrow> u64 \<Rightarrow> 'w cache_t \<Rightarrow> (int \<times> 'w cache_t) outcome" where
  "cache_destroy_all_id fuel env i c =
     obind (c_lock env False c) (\<lambda>c.
     obind (primary_loop fuel (destroy_body env i) (ll_head (c_primary_ll c)) c) (\<lambda>c.
     obind (c_unlock env False c) (\<lambda>c. Ret (0, c))))"

section \<open>All caches\<close>

text \<open>\<^verbatim>\<open>cache_list\<close> and the caches on it; the world is handed from one cache to the next.\<close>

record 'w caches =
  cl_list :: llist
  cl_nodes :: lheap
  cl_caches :: "ptr \<rightharpoonup> 'w cache_t"

definition init_cache :: "'w caches" where
  "init_cache = \<lparr>cl_list = ll_do_create True 0, cl_nodes = Map.empty, cl_caches = Map.empty\<rparr>"

abbreviation cache_list_la :: ptr where "cache_list_la \<equiv> 3"

text \<open>\<open>p\<close> is the address of the cache and \<open>n\<close> that of its node on the list.\<close>

definition cache_create ::
  "kenv \<Rightarrow> ptr \<Rightarrow> ptr \<Rightarrow> bool \<Rightarrow> (ce_t \<Rightarrow> 'w \<Rightarrow> (int \<times> 'w) outcome) option \<Rightarrow> 'w \<Rightarrow> 'w caches \<Rightarrow> 'w caches outcome" where
  "cache_create env p n alloc sync w s =
     obind (cache_init env alloc sync w) (\<lambda>c.
     obind (ll_insert env cache_list_la (cl_list s) n p (cl_nodes s)) (\<lambda>(l, h).
     Ret (s\<lparr>cl_list := l, cl_nodes := h, cl_caches := (cl_caches s)(p \<mapsto> c)\<rparr>)))"

definition cache_destroy :: "nat \<Rightarrow> kenv \<Rightarrow> (nat \<Rightarrow> bool) \<Rightarrow> ptr \<Rightarrow> 'w caches \<Rightarrow> 'w caches outcome" where
  "cache_destroy fuel env sig p s =
     deref (cl_caches s) p (\<lambda>c.
     obind (c_lock env False c) (\<lambda>c.
     let h = c_hash c in
     obind (cache_sync fuel env sig (c\<lparr>c_hash := None\<rparr>)) (\<lambda>c.
     obind (case h of None \<Rightarrow> Panic | Some h \<Rightarrow> hash_table_destroy fuel env h) (\<lambda>_.
     obind (primary_loop fuel (\<lambda>p c. cache_remove_element env p True c) (ll_head (c_primary_ll c)) c) (\<lambda>c.
     obind (ll_destroy env dirty_la (c_dirty_ll c)) (\<lambda>(dl, _).
     obind (ll_destroy env primary_la (c_primary_ll c)) (\<lambda>(pl, _).
     obind (ll_remove_entry fuel env cache_list_la (cl_list s) p (cl_nodes s)) (\<lambda>(l, n).
     obind (c_unlock env False (c\<lparr>c_dirty_ll := dl, c_primary_ll := pl\<rparr>)) (\<lambda>c.
     obind (rwlock_destroy env (c_rwl c)) (\<lambda>(lk, _).
     Ret (s\<lparr>cl_list := l, cl_nodes := n,
            cl_caches := (cl_caches s)(p := if has_flag (c_flags c) CF_ALLOC then None
                                            else Some (c\<lparr>c_rwl := lk\<rparr>))\<rparr>)))))))))))"

definition cache_sync_all :: "nat \<Rightarrow> kenv \<Rightarrow> (nat \<Rightarrow> bool) \<Rightarrow> 'w caches \<times> 'w \<Rightarrow> ('w caches \<times> 'w) outcome" where
  "cache_sync_all fuel env sig = (\<lambda>(s, w).
     obind (rwlock_acquire env (ll_rwl (cl_list s)) RWL_READER) (\<lambda>l.
     obind (ll_for_each_entry fuel (cl_nodes s) (ll_head (cl_list s))) (\<lambda>xs.
     obind (ofold (\<lambda>p (cs, w). deref cs p (\<lambda>c. obind (cache_sync fuel env sig (c\<lparr>c_world := w\<rparr>)) (\<lambda>c.
         Ret (cs(p \<mapsto> c), c_world c)))) (map snd xs) (cl_caches s, w)) (\<lambda>(cs, w).
     obind (rwlock_release env l RWL_READER) (\<lambda>l.
     Ret (s\<lparr>cl_list := (cl_list s)\<lparr>ll_rwl := l\<rparr>, cl_caches := cs\<rparr>, w))))))"

section \<open>The index\<close>

lemma cache_key_inj [simp]: "cache_key i k = cache_key i' k' \<longleftrightarrow> i = i' \<and> k = k'"
proof -
  have "bytes_of v = bytes_of w \<longleftrightarrow> v = w" for v w
    using word_of_bytes [of v] word_of_bytes [of w] by auto
  moreover have "length (bytes_of v) = 8" for v by (simp add: bytes_of_def)
  ultimately show ?thesis by (simp add: cache_key_def)
qed

lemma cache_key_ok [simp]: "key_ok (cache_key i k)"
  by (simp add: key_ok_def cache_key_def bytes_of_def)

lemma hash_get_rel:
  assumes "hash_rel env h m"
  shows "\<exists>h'. hash_table_get_entry env (cache_key i k) h =
       Ret (case m (cache_key i k) of None \<Rightarrow> (- ENOENT, 0) | Some v \<Rightarrow> (0, v), h') \<and> hash_rel env h' m"
  using hsim.simulates [OF assms, of "HGet (cache_key i k)"] by simp

lemma hash_set_rel:
  assumes "hash_rel env h m" "v \<noteq> 0" "m (cache_key i k) = None"
  shows "\<exists>h'. hash_table_set_entry env (cache_key i k) v h = Ret (0, h') \<and> hash_rel env h' (m(cache_key i k \<mapsto> v))"
  using hsim.simulates [OF assms(1), of "HSet (cache_key i k) v"] assms(2,3) by (auto simp: outcome_simps)

lemma hash_del_rel:
  assumes "hash_rel env h m" "m (cache_key i k) = Some v"
  shows "\<exists>h'. hash_table_delete_entry env (cache_key i k) h = Ret (0, h') \<and> hash_rel env h' (m(cache_key i k := None))"
  using hsim.simulates [OF assms(1), of "HDel (cache_key i k)"] assms(2) by (auto simp: outcome_simps)

lemma hash_first_rel:
  assumes "hash_rel env h m" "card (dom m) < 2 ^ 64"
  shows "\<exists>r. hash_table_enumerate_entries env 0 h = Ret (r, h) \<and>
     (case r of None \<Rightarrow> m = Map.empty | Some n \<Rightarrow> m (hn_key n) = Some (hn_entry n))"
proof -
  obtain t where t: "env_ok env" "rw_free (ht_lock h)" "ht_magic h = HASH_MAGIC" "ht_entries h = Some t"
      "tbl_ok t" "tmap t = m"
    using assms by (auto simp: hash_rel_def)
  let ?es = "concat t"
  have d: "distinct (map fst (pairs ?es))" and m: "map_of (pairs ?es) = m"
    using tbl_distinct [OF t(5)] tmap_concat [OF t(5)] t(6) by simp_all
  have "dom m = set (map fst (pairs ?es))" unfolding m [symmetric] by (simp only: dom_map_of_conv_image_fst set_map)
  then have "card (dom m) = length (map fst (pairs ?es))" by (simp only: distinct_card [OF d])
  then have "length ?es < 2 ^ 64" using assms(2) by simp
  then have "hash_chain_enumerate t 0 = Ret (if 0 < length ?es then Some (?es ! 0) else None)"
    using enumerate_nth [OF tbl_ok_heads [OF t(5)], of 0] by (simp del: length_concat)
  moreover have "m (hn_key (?es ! 0)) = Some (hn_entry (?es ! 0))" if "0 < length ?es"
    using that unfolding m [symmetric] by (cases "?es") (auto simp del: length_concat)
  moreover have "m = Map.empty" if "\<not> 0 < length ?es"
  proof -
    have "?es = []" using that by (metis length_greater_0_conv)
    then show ?thesis using m by (metis map_of.simps(1) pairs_simps(1))
  qed
  ultimately show ?thesis
    using t(1-4) by (auto simp: hash_table_enumerate_entries_def lock_simps simp del: length_concat)
qed

section \<open>Consistency\<close>

text \<open>What identifies an element.\<close>

abbreviation eid :: "ce_t \<Rightarrow> u64 \<times> u64" where "eid e \<equiv> (ce_id e, ce_key e)"

text \<open>
  The dirty list holds exactly the dirty elements, each with the node it remembers; the index finds exactly the
  elements of \<open>S\<close>; the primary list holds exactly these.
\<close>

definition dirty_ok :: "kenv \<Rightarrow> 'w cache_t \<Rightarrow> (ptr \<times> ptr) list \<Rightarrow> bool" where
  "dirty_ok env c ds \<longleftrightarrow> ll_rel env dirty_la (c_dirty_ll c, c_dnodes c) ds \<and> distinct (map snd ds) \<and>
     (\<forall>n p. (n, p) \<in> set ds \<longleftrightarrow> (\<exists>e. c_elems c p = Some e \<and> ce_dirty e \<and> ce_dirty_node e = n)) \<and>
     c_dirty c = of_nat (length ds) \<and> finite (dom (c_elems c)) \<and> card (dom (c_elems c)) < 2 ^ 32"

definition index_ok :: "kenv \<Rightarrow> 'w cache_t \<Rightarrow> ptr set \<Rightarrow> bool" where
  "index_ok env c S \<longleftrightarrow> (\<exists>h m. c_hash c = Some h \<and> hash_rel env h m \<and>
     (\<forall>k p. m k = Some p \<longleftrightarrow> p \<in> S \<and> (\<exists>e. c_elems c p = Some e \<and> cache_key (ce_id e) (ce_key e) = k)))"

definition primary_ok :: "kenv \<Rightarrow> 'w cache_t \<Rightarrow> ptr set \<Rightarrow> (ptr \<times> ptr) list \<Rightarrow> bool" where
  "primary_ok env c S ps \<longleftrightarrow> ll_rel env primary_la (c_primary_ll c, c_pnodes c) ps \<and> distinct (map snd ps) \<and>
     snd ` set ps = S \<and> (\<forall>n p. (n, p) \<in> set ps \<longrightarrow> (\<exists>e. c_elems c p = Some e \<and> ce_list_node e = n)) \<and>
     c_count c = of_nat (length ps) \<and> length ps < 2 ^ 32"

lemma dirty_length:
  assumes "dirty_ok env c ds"
  shows "length ds \<le> card (dom (c_elems c))" "length ds < 2 ^ 32"
proof -
  have "snd ` set ds \<subseteq> dom (c_elems c)" using assms by (fastforce simp: dirty_ok_def)
  then have "card (snd ` set ds) \<le> card (dom (c_elems c))" using assms by (intro card_mono) (auto simp: dirty_ok_def)
  moreover have "length ds = card (set (map snd ds))"
    using assms distinct_card [of "map snd ds"] by (simp add: dirty_ok_def)
  ultimately show "length ds \<le> card (dom (c_elems c))" by simp
  then show "length ds < 2 ^ 32" using assms by (simp add: dirty_ok_def)
qed

lemma dirty_split:
  assumes "dirty_ok env c ds" "c_elems c p = Some e" "ce_dirty e"
  obtains us vs where "ds = us @ (ce_dirty_node e, p) # vs" "p \<notin> snd ` set us" "p \<notin> snd ` set vs"
proof -
  have "(ce_dirty_node e, p) \<in> set ds" using assms by (auto simp: dirty_ok_def)
  then obtain us vs where "ds = us @ (ce_dirty_node e, p) # vs" by (auto simp: in_set_conv_decomp)
  moreover have "distinct (map snd ds)" using assms by (simp add: dirty_ok_def)
  ultimately show ?thesis using that by auto
qed

text \<open>\<^verbatim>\<open>set_dirty\<close> changes nothing but the flag and the node of the element and the dirty list.\<close>

lemma set_dirty_on:
  assumes ok: "dirty_ok env c ds" and e: "c_elems c p = Some e"
    and fresh: "ce_dirty e \<or> dn \<noteq> 0 \<and> dn \<notin> fst ` set ds"
  obtains c' dl dh dc nd ds' where
    "c' = c\<lparr>c_elems := (c_elems c)(p \<mapsto> e\<lparr>ce_dirty := True, ce_dirty_node := nd\<rparr>),
            c_dirty := dc, c_dirty_ll := dl, c_dnodes := dh\<rparr>"
    "set_dirty env dn p True c = Ret (ce_dirty e, c')" "dirty_ok env c' ds'"
proof (cases "ce_dirty e")
  case True
  then have "e\<lparr>ce_dirty := True, ce_dirty_node := ce_dirty_node e\<rparr> = e" by simp
  with True e ok show ?thesis
    by (intro that [where ds' = ds and nd = "ce_dirty_node e" and c' = c and dc = "c_dirty c" and dl = "c_dirty_ll c" and dh = "c_dnodes c"])
       (simp_all add: set_dirty_def Let_def map_upd_triv)
next
  case False
  have rel: "ll_rel env dirty_la (c_dirty_ll c, c_dnodes c) ds" using ok by (simp add: dirty_ok_def)
  obtain dl dh where ins: "ll_insert env dirty_la (c_dirty_ll c) dn p (c_dnodes c) = Ret (dl, dh)"
      "ll_rel env dirty_la (dl, dh) ((dn, p) # ds)"
    using ll_insert_rel [OF rel, of dn p] fresh False by auto
  let ?c = "c\<lparr>c_elems := (c_elems c)(p \<mapsto> e\<lparr>ce_dirty := True, ce_dirty_node := dn\<rparr>), c_dirty := c_dirty c + 1,
      c_dirty_ll := dl, c_dnodes := dh\<rparr>"
  have run: "set_dirty env dn p True c = Ret (ce_dirty e, ?c)"
    using False e ins by (simp add: set_dirty_def add_dlist_def)
  have "p \<notin> snd ` set ds" using ok e False by (auto simp: dirty_ok_def)
  then have "dirty_ok env ?c ((dn, p) # ds)"
    using ok e False ins(2) by (auto simp: dirty_ok_def insert_absorb domIff)
  then show ?thesis by (rule that [OF refl run])
qed

lemma set_dirty_off:
  assumes ok: "dirty_ok env c ds" and e: "c_elems c p = Some e"
  obtains c' dl dh dc ds' where
    "c' = c\<lparr>c_elems := (c_elems c)(p \<mapsto> e\<lparr>ce_dirty := False\<rparr>),
            c_dirty := dc, c_dirty_ll := dl, c_dnodes := dh\<rparr>"
    "set_dirty env dn p False c = Ret (ce_dirty e, c')" "dirty_ok env c' ds'"
    "set ds' \<subseteq> set ds" "length ds' + of_bool (ce_dirty e) = length ds"
proof (cases "ce_dirty e")
  case False
  then have "e\<lparr>ce_dirty := False\<rparr> = e" by simp
  with False e ok show ?thesis
    by (intro that [where ds' = ds and c' = c and dc = "c_dirty c" and dl = "c_dirty_ll c" and dh = "c_dnodes c"])
       (simp_all add: set_dirty_def Let_def map_upd_triv)
next
  case True
  obtain us vs where ds: "ds = us @ (ce_dirty_node e, p) # vs" "p \<notin> snd ` set us" "p \<notin> snd ` set vs"
    using dirty_split [OF ok e True] .
  have rel: "ll_rel env dirty_la (c_dirty_ll c, c_dnodes c) (us @ (ce_dirty_node e, p) # vs)"
    using ok ds by (simp add: dirty_ok_def)
  obtain dl dh where rm: "ll_remove env dirty_la (c_dirty_ll c) (ce_dirty_node e) (c_dnodes c) = Ret (dl, dh)"
      "ll_rel env dirty_la (dl, dh) (us @ vs)"
    using ll_remove_rel [OF rel] by auto
  let ?c = "c\<lparr>c_elems := (c_elems c)(p \<mapsto> e\<lparr>ce_dirty := False\<rparr>), c_dirty := c_dirty c - 1,
      c_dirty_ll := dl, c_dnodes := dh\<rparr>"
  have "length ds < 2 ^ 32" "0 < length ds" using dirty_length [OF ok] ds by auto
  then have "c_dirty c \<noteq> 0" using ok by (simp add: dirty_ok_def word_of_nat_eq_0_iff nat_dvd_not_less)
  then have run: "set_dirty env dn p False c = Ret (ce_dirty e, ?c)"
    using True e rm by (simp add: set_dirty_def remove_dlist_def)
  have "(n, q) \<in> set (us @ vs) \<longleftrightarrow> q \<noteq> p \<and> (n, q) \<in> set ds" for n q
    using ds by force
  then have "dirty_ok env ?c (us @ vs)"
    using ok e rm(2) ds by (auto simp: dirty_ok_def insert_absorb domIff)
  then show ?thesis by (rule that [OF refl run]) (use ds True in auto)
qed

lemma set_dirty_any:
  assumes "dirty_ok env c ds" "c_elems c p = Some e" "ce_dirty e \<or> dn \<noteq> 0 \<and> dn \<notin> fst ` set ds"
  shows "\<exists>r c' nd dc dl dh ds'. set_dirty env dn p dirty c = Ret (r, c') \<and> dirty_ok env c' ds' \<and>
      c' = c\<lparr>c_elems := (c_elems c)(p \<mapsto> e\<lparr>ce_dirty := dirty, ce_dirty_node := nd\<rparr>),
        c_dirty := dc, c_dirty_ll := dl, c_dnodes := dh\<rparr>"
proof (cases dirty)
  case True
  obtain c' dl dh dc nd ds' where
    "c' = c\<lparr>c_elems := (c_elems c)(p \<mapsto> e\<lparr>ce_dirty := True, ce_dirty_node := nd\<rparr>),
            c_dirty := dc, c_dirty_ll := dl, c_dnodes := dh\<rparr>"
    "set_dirty env dn p True c = Ret (ce_dirty e, c')" "dirty_ok env c' ds'"
    by (rule set_dirty_on [OF assms])
  then have "set_dirty env dn p True c = Ret (ce_dirty e, c') \<and> dirty_ok env c' ds' \<and> c' = c\<lparr>c_elems :=
      (c_elems c)(p \<mapsto> e\<lparr>ce_dirty := True, ce_dirty_node := nd\<rparr>), c_dirty := dc, c_dirty_ll := dl, c_dnodes := dh\<rparr>"
    by (intro conjI)
  with True show ?thesis by (simp only:) blast
next
  case False
  obtain c' dl dh dc ds' where
    "c' = c\<lparr>c_elems := (c_elems c)(p \<mapsto> e\<lparr>ce_dirty := False\<rparr>),
            c_dirty := dc, c_dirty_ll := dl, c_dnodes := dh\<rparr>"
    "set_dirty env dn p False c = Ret (ce_dirty e, c')" "dirty_ok env c' ds'"
    by (rule set_dirty_off [OF assms(1,2)])
  then have "set_dirty env dn p False c = Ret (ce_dirty e, c') \<and> dirty_ok env c' ds' \<and> c' = c\<lparr>c_elems :=
      (c_elems c)(p \<mapsto> e\<lparr>ce_dirty := False, ce_dirty_node := ce_dirty_node e\<rparr>), c_dirty := dc, c_dirty_ll := dl, c_dnodes := dh\<rparr>"
    by simp
  with False show ?thesis by (simp only:) blast
qed

text \<open>What the three structures depend on.\<close>

lemma dirty_ok_frame [simp]:
  "dirty_ok env (c\<lparr>c_world := w\<rparr>) ds = dirty_ok env c ds"
  "dirty_ok env (c\<lparr>c_rwl := l\<rparr>) ds = dirty_ok env c ds"
  "dirty_ok env (c\<lparr>c_hash := h\<rparr>) ds = dirty_ok env c ds"
  "dirty_ok env (c\<lparr>c_syncing := b\<rparr>) ds = dirty_ok env c ds"
  "dirty_ok env (accessed_cache c) ds = dirty_ok env c ds"
  by (simp_all add: dirty_ok_def accessed_cache_def)

lemma index_ok_frame [simp]:
  "index_ok env (c\<lparr>c_world := w\<rparr>) S = index_ok env c S"
  "index_ok env (c\<lparr>c_rwl := l\<rparr>) S = index_ok env c S"
  "index_ok env (c\<lparr>c_syncing := b\<rparr>) S = index_ok env c S"
  "index_ok env (accessed_cache c) S = index_ok env c S"
  by (simp_all add: index_ok_def accessed_cache_def)

lemma primary_ok_frame [simp]:
  "primary_ok env (c\<lparr>c_world := w\<rparr>) S ps = primary_ok env c S ps"
  "primary_ok env (c\<lparr>c_rwl := l\<rparr>) S ps = primary_ok env c S ps"
  "primary_ok env (c\<lparr>c_hash := h\<rparr>) S ps = primary_ok env c S ps"
  "primary_ok env (c\<lparr>c_syncing := b\<rparr>) S ps = primary_ok env c S ps"
  "primary_ok env (accessed_cache c) S ps = primary_ok env c S ps"
  by (simp_all add: primary_ok_def accessed_cache_def)

lemma dirty_ok_upd:
  assumes "dirty_ok env c ds" "c_elems c p = Some e" "ce_dirty e' = ce_dirty e" "ce_dirty_node e' = ce_dirty_node e"
  shows "dirty_ok env (c\<lparr>c_elems := (c_elems c)(p \<mapsto> e')\<rparr>) ds"
  using assms by (auto simp: dirty_ok_def insert_absorb domIff)

lemma index_ok_upd:
  assumes "index_ok env c S" "\<And>q. q \<in> S \<Longrightarrow> map_option eid (c_elems c' q) = map_option eid (c_elems c q)"
    "c_hash c' = c_hash c"
  shows "index_ok env c' S"
proof -
  have *: "(\<exists>e. c_elems c' q = Some e \<and> cache_key (ce_id e) (ce_key e) = k) \<longleftrightarrow>
      (\<exists>e. c_elems c q = Some e \<and> cache_key (ce_id e) (ce_key e) = k)" if "q \<in> S" for q k
    using assms(2) [OF that] by (cases "c_elems c' q"; cases "c_elems c q") auto
  obtain h m where hm: "c_hash c = Some h" "hash_rel env h m"
    "\<forall>k p. m k = Some p \<longleftrightarrow> p \<in> S \<and> (\<exists>e. c_elems c p = Some e \<and> cache_key (ce_id e) (ce_key e) = k)"
    using assms(1) by (auto simp: index_ok_def)
  have "\<forall>k p. m k = Some p \<longleftrightarrow> p \<in> S \<and> (\<exists>e. c_elems c' p = Some e \<and> cache_key (ce_id e) (ce_key e) = k)"
    using hm(3) * by blast
  with hm(1,2) assms(3) show ?thesis by (auto simp: index_ok_def)
qed

lemma primary_ok_upd:
  assumes "primary_ok env c S ps"
    "\<And>q. q \<in> S \<Longrightarrow> map_option ce_list_node (c_elems c' q) = map_option ce_list_node (c_elems c q)"
    "c_primary_ll c' = c_primary_ll c" "c_pnodes c' = c_pnodes c" "c_count c' = c_count c"
  shows "primary_ok env c' S ps"
proof -
  have "\<exists>e. c_elems c' p = Some e \<and> ce_list_node e = n" if np: "(n, p) \<in> set ps" for n p
  proof -
    have "p \<in> S" using assms(1) np by (force simp: primary_ok_def)
    moreover obtain e where "c_elems c p = Some e" "ce_list_node e = n" using assms(1) np by (auto simp: primary_ok_def)
    ultimately show ?thesis using assms(2) [of p] by auto
  qed
  with assms(1,3-5) show ?thesis by (simp add: primary_ok_def)
qed

definition cache_ok :: "kenv \<Rightarrow> 'w cache_t \<Rightarrow> (ptr \<times> ptr) list \<Rightarrow> (ptr \<times> ptr) list \<Rightarrow> bool" where
  "cache_ok env c ds ps \<longleftrightarrow> dirty_ok env c ds \<and> index_ok env c (dom (c_elems c)) \<and>
     primary_ok env c (dom (c_elems c)) ps \<and> length ps \<le> 100001 \<and>
     (\<forall>p e. c_elems c p = Some e \<longrightarrow> p \<noteq> 0 \<and> rw_free (ce_rwl e) \<and> length (ce_data e) = ce_length e)"

lemma cache_ok_frame [simp]:
  "cache_ok env (c\<lparr>c_world := w\<rparr>) ds ps = cache_ok env c ds ps"
  "cache_ok env (c\<lparr>c_rwl := l\<rparr>) ds ps = cache_ok env c ds ps"
  "cache_ok env (c\<lparr>c_syncing := b\<rparr>) ds ps = cache_ok env c ds ps"
  "cache_ok env (accessed_cache c) ds ps = cache_ok env c ds ps"
  by (simp_all add: cache_ok_def) (simp add: accessed_cache_def)

lemma cache_ok_upd:
  assumes "cache_ok env c ds ps" "c_elems c p = Some e" "eid e' = eid e" "ce_list_node e' = ce_list_node e"
    "rw_free (ce_rwl e')" "length (ce_data e') = ce_length e'"
    "c' = c\<lparr>c_elems := (c_elems c)(p \<mapsto> e'), c_dirty := dc, c_dirty_ll := dl, c_dnodes := dh\<rparr>" "dirty_ok env c' ds'"
  shows "cache_ok env c' ds' ps"
proof -
  have dom: "dom (c_elems c') = dom (c_elems c)" using assms(2,7) by (auto simp: domIff)
  have "index_ok env c' (dom (c_elems c))"
    by (rule index_ok_upd [where c = c]) (use assms in \<open>auto simp: cache_ok_def\<close>)
  moreover have "primary_ok env c' (dom (c_elems c)) ps"
    by (rule primary_ok_upd [where c = c]) (use assms in \<open>auto simp: cache_ok_def\<close>)
  ultimately show ?thesis using assms unfolding cache_ok_def dom by (auto split: if_splits)
qed

lemma cache_ok_card:
  assumes "cache_ok env c ds ps"
  shows "card (dom (c_elems c)) = length ps" "finite (dom (c_elems c))"
proof -
  have p: "snd ` set ps = dom (c_elems c)" "distinct (map snd ps)"
    using assms by (simp_all add: cache_ok_def primary_ok_def)
  have "card (set (map snd ps)) = length ps" using distinct_card [OF p(2)] by simp
  then show "card (dom (c_elems c)) = length ps" using p(1) by simp
  show "finite (dom (c_elems c))" unfolding p(1) [symmetric] by simp
qed

text \<open>Two elements never have the same identification.\<close>

lemma cache_ok_unique:
  assumes "cache_ok env c ds ps" "c_elems c p = Some e" "c_elems c q = Some e'" "eid e = eid e'"
  shows "p = q"
proof -
  obtain m where m: "\<forall>k p. m k = Some p \<longleftrightarrow> p \<in> dom (c_elems c) \<and> (\<exists>e. c_elems c p = Some e \<and> cache_key (ce_id e) (ce_key e) = k)"
    using assms(1) unfolding cache_ok_def index_ok_def by blast
  have "m (cache_key (ce_id e) (ce_key e)) = Some p" "m (cache_key (ce_id e) (ce_key e)) = Some q"
    using m assms(2-4) by auto
  then show ?thesis by simp
qed

section \<open>Locking, lookup, removal and insertion\<close>

lemma cache_ok_env: "cache_ok env c ds ps \<Longrightarrow> env_ok env"
  by (simp add: cache_ok_def dirty_ok_def ll_rel_def)

abbreviation c_held :: "'w cache_t \<Rightarrow> 'w cache_t" where
  "c_held c \<equiv> c\<lparr>c_rwl := (c_rwl c)\<lparr>rw_locks := 1\<rparr>\<rparr>"

lemma c_lock_free: "env_ok env \<Longrightarrow> rw_free (c_rwl c) \<Longrightarrow> c_lock env False c = Ret (c_held c)"
  by (simp add: c_lock_def lock_simps)

lemma c_unlock_held:
  "env_ok env \<Longrightarrow> rw_free l \<Longrightarrow> c_rwl c = l\<lparr>rw_locks := 1\<rparr> \<Longrightarrow> c_unlock env False c = Ret (c\<lparr>c_rwl := l\<rparr>)"
  by (simp add: c_unlock_def lock_simps)

lemma c_locked [simp]: "c_lock env True c = Ret c" "c_unlock env True c = Ret c"
  by (simp_all add: c_lock_def c_unlock_def)

lemma rwlock_destroy_free: "rw_free lk \<Longrightarrow> \<exists>r. rwlock_destroy env lk = Ret r"
  by (simp add: rwlock_destroy_def rw_free_def del: split_paired_Ex)

text \<open>The element with a given identification, if there is one.\<close>

definition found :: "'w cache_t \<Rightarrow> u64 \<Rightarrow> u64 \<Rightarrow> ptr \<Rightarrow> bool" where
  "found c i k p \<longleftrightarrow> (if p = 0 then \<forall>q e. c_elems c q = Some e \<longrightarrow> eid e \<noteq> (i, k)
                     else \<exists>e. c_elems c p = Some e \<and> eid e = (i, k))"

lemma hash_lookup:
  assumes "cache_ok env c ds ps" "c_hash c = Some h"
  shows "\<exists>r v h'. hash_table_get_entry env (cache_key i k) h = Ret ((r, v), h') \<and>
     found c i k (if r = 0 then v else 0) \<and> cache_ok env (c\<lparr>c_hash := Some h'\<rparr>) ds ps"
proof -
  obtain m where m: "hash_rel env h m"
    "\<forall>k p. m k = Some p \<longleftrightarrow> p \<in> dom (c_elems c) \<and> (\<exists>e. c_elems c p = Some e \<and> cache_key (ce_id e) (ce_key e) = k)"
    using assms unfolding cache_ok_def index_ok_def by auto
  obtain h' where h': "hash_table_get_entry env (cache_key i k) h =
       Ret (case m (cache_key i k) of None \<Rightarrow> (- ENOENT, 0) | Some v \<Rightarrow> (0, v), h')" "hash_rel env h' m"
    using hash_get_rel [OF m(1)] by blast
  have ok: "cache_ok env (c\<lparr>c_hash := Some h'\<rparr>) ds ps"
    using assms(1) h'(2) m(2) unfolding cache_ok_def index_ok_def by auto
  show ?thesis
  proof (cases "m (cache_key i k)")
    case None
    have "m (cache_key i k) = Some q" if "c_elems c q = Some e" "eid e = (i, k)" for q e
      using m(2) that by auto
    then have "found c i k 0" using None by (force simp: found_def)
    with None h' ok show ?thesis by auto
  next
    case (Some v)
    then obtain e where e: "c_elems c v = Some e" "eid e = (i, k)" using m(2) by auto
    then have "v \<noteq> 0" using assms(1) by (auto simp: cache_ok_def)
    then have "found c i k v" using e by (simp add: found_def)
    with Some h' ok show ?thesis by auto
  qed
qed

lemma cache_find_element_ok:
  assumes "cache_ok env c ds ps" "rw_free (c_rwl c)"
  shows "\<exists>p h. cache_find_element env i k c = Ret (p, (accessed_cache c)\<lparr>c_hash := Some h\<rparr>) \<and> found c i k p \<and>
     cache_ok env (c\<lparr>c_hash := Some h\<rparr>) ds ps"
proof -
  obtain h where h: "c_hash c = Some h" using assms by (auto simp: cache_ok_def index_ok_def)
  obtain r v h' where get: "hash_table_get_entry env (cache_key i k) h = Ret ((r, v), h')"
      "found c i k (if r = 0 then v else 0)" "cache_ok env (c\<lparr>c_hash := Some h'\<rparr>) ds ps"
    using hash_lookup [OF assms(1) h] by blast
  have "cache_find_element env i k c = Ret (if r \<noteq> 0 then 0 else v, (accessed_cache c)\<lparr>c_hash := Some h'\<rparr>)"
    using get(1) h assms cache_ok_env [OF assms(1)]
    by (simp add: cache_find_element_def on_hash_def accessed_cache_def lock_simps Let_def)
  with get(2,3) show ?thesis by (auto split: if_splits)
qed

lemma primary_elem:
  assumes "cache_ok env c ds ps" "(n, q) \<in> set ps"
  shows "\<exists>e. c_elems c q = Some e \<and> ce_list_node e = n \<and> q \<noteq> 0"
proof -
  obtain e where "c_elems c q = Some e" "ce_list_node e = n"
    using assms unfolding cache_ok_def primary_ok_def by blast
  with assms(1) show ?thesis by (auto simp: cache_ok_def)
qed

lemma primary_split:
  assumes "cache_ok env c ds ps" "c_elems c p = Some e"
  obtains us vs where "ps = us @ (ce_list_node e, p) # vs" "p \<notin> snd ` set us" "p \<notin> snd ` set vs"
proof -
  have "p \<in> snd ` set ps" using assms by (auto simp: cache_ok_def primary_ok_def)
  then obtain n where "(n, p) \<in> set ps" by auto
  moreover from this obtain e' where "c_elems c p = Some e'" "ce_list_node e' = n"
    using assms(1) unfolding cache_ok_def primary_ok_def by blast
  ultimately have "(ce_list_node e, p) \<in> set ps" using assms(2) by simp
  then obtain us vs where "ps = us @ (ce_list_node e, p) # vs" by (auto simp: in_set_conv_decomp)
  moreover have "distinct (map snd ps)" using assms by (simp add: cache_ok_def primary_ok_def)
  ultimately show ?thesis using that by auto
qed

lemma cache_remove_element_ok:
  assumes ok: "cache_ok env c ds ps" and e: "c_elems c p = Some e" "\<not> ce_dirty e"
  obtains c' cn pl ph h us vs where
    "c' = c\<lparr>c_count := cn, c_primary_ll := pl, c_pnodes := ph, c_hash := Some h, c_elems := (c_elems c)(p := None)\<rparr>"
    "cache_remove_element env p True c = Ret c'" "cache_ok env c' ds (us @ vs)" "ps = us @ (ce_list_node e, p) # vs"
proof -
  have d: "dirty_ok env c ds" and pr: "primary_ok env c (dom (c_elems c)) ps"
    and el: "p \<noteq> 0" "rw_free (ce_rwl e)" and len: "length ps \<le> 100001"
    using ok e by (auto simp: cache_ok_def)
  obtain us vs where ps: "ps = us @ (ce_list_node e, p) # vs" "p \<notin> snd ` set us" "p \<notin> snd ` set vs"
    using primary_split [OF ok e(1)] .
  have rel: "ll_rel env primary_la (c_primary_ll c, c_pnodes c) (us @ (ce_list_node e, p) # vs)"
    using pr ps by (simp add: primary_ok_def)
  obtain pl ph where rm: "ll_remove env primary_la (c_primary_ll c) (ce_list_node e) (c_pnodes c) = Ret (pl, ph)"
      "ll_rel env primary_la (pl, ph) (us @ vs)"
    using ll_remove_rel [OF rel] by auto
  obtain h m where hm: "c_hash c = Some h" "hash_rel env h m"
    "\<forall>k p. m k = Some p \<longleftrightarrow> p \<in> dom (c_elems c) \<and> (\<exists>e. c_elems c p = Some e \<and> cache_key (ce_id e) (ce_key e) = k)"
    using ok by (auto simp: cache_ok_def index_ok_def)
  have mp: "m (cache_key (ce_id e) (ce_key e)) = Some p" using hm(3) e by auto
  obtain h' where h': "hash_table_delete_entry env (cache_key (ce_id e) (ce_key e)) h = Ret (0, h')"
      "hash_rel env h' (m(cache_key (ce_id e) (ce_key e) := None))"
    using hash_del_rel [OF hm(2) mp] by blast
  let ?c = "c\<lparr>c_count := c_count c - 1, c_primary_ll := pl, c_pnodes := ph, c_hash := Some h',
      c_elems := (c_elems c)(p := None)\<rparr>"
  have "length ps < 2 ^ 32" "0 < length ps" using len ps by auto
  then have "c_count c \<noteq> 0" using pr by (simp add: primary_ok_def word_of_nat_eq_0_iff nat_dvd_not_less)
  moreover obtain l where "rwlock_destroy env (ce_rwl e) = Ret l"
    using rwlock_destroy_free [OF el(2)] by blast
  ultimately have run: "cache_remove_element env p True c = Ret ?c"
    using e el(1) rm(1) hm(1) h'(1) by (simp add: cache_remove_element_def on_hash_def Let_def)
  have "dirty_ok env ?c ds"
    using d e by (auto simp: dirty_ok_def card_Diff_singleton_if split: if_splits)
  moreover have "primary_ok env ?c (dom (c_elems ?c)) (us @ vs)"
  proof -
    have "snd ` set (us @ vs) = dom (c_elems c) - {p}" using pr ps by (auto simp: primary_ok_def)
    moreover have "(n, p) \<notin> set us \<and> (n, p) \<notin> set vs" for n using ps by force
    ultimately show ?thesis using pr rm(2) ps by (auto simp: primary_ok_def)
  qed
  moreover have "index_ok env ?c (dom (c_elems ?c))"
  proof -
    have uq: "q = p" if "c_elems c q = Some e'" "ce_id e' = ce_id e" "ce_key e' = ce_key e" for q e'
      using cache_ok_unique [OF ok that(1) e(1)] that by simp
    have "(m(cache_key (ce_id e) (ce_key e) := None)) k = Some q \<longleftrightarrow>
        q \<in> dom (c_elems ?c) \<and> (\<exists>e. c_elems ?c q = Some e \<and> cache_key (ce_id e) (ce_key e) = k)" for k q
      using hm(3) e(1) by (auto dest: uq)
    with h'(2) show ?thesis unfolding index_ok_def
      by (intro exI [of _ h'] exI [of _ "m(cache_key (ce_id e) (ce_key e) := None)"] conjI allI) (simp, assumption, assumption)
  qed
  ultimately have "cache_ok env ?c ds (us @ vs)"
    using ok ps by (auto simp: cache_ok_def)
  then show ?thesis using ps(1) by (rule that [OF refl run])
qed

lemma cache_add_element_ok:
  assumes d: "dirty_ok env c ds" and idx: "index_ok env c (dom (c_elems c) - {p})"
    and pr: "primary_ok env c (dom (c_elems c) - {p}) ps"
    and el: "\<forall>q e. c_elems c q = Some e \<longrightarrow> q \<noteq> 0 \<and> rw_free (ce_rwl e) \<and> length (ce_data e) = ce_length e"
    and e: "c_elems c p = Some e" and new: "\<forall>q e'. c_elems c q = Some e' \<longrightarrow> q \<noteq> p \<longrightarrow> eid e' \<noteq> eid e"
    and ln: "ln \<noteq> 0" "ln \<notin> fst ` set ps" and len: "length ps \<le> 100000"
  obtains c' cn pl ph h where
    "c' = (accessed_cache c)\<lparr>c_hash := Some h, c_primary_ll := pl, c_pnodes := ph, c_count := cn,
            c_elems := (c_elems c)(p \<mapsto> e\<lparr>ce_list_node := ln, ce_acount := 1\<rparr>)\<rparr>"
    "cache_add_element env ln p True c = Ret c'" "cache_ok env c' ds ((ln, p) # ps)"
proof -
  obtain h m where hm: "c_hash c = Some h" "hash_rel env h m" "\<forall>k q. m k = Some q \<longleftrightarrow>
      q \<in> dom (c_elems c) - {p} \<and> (\<exists>e. c_elems c q = Some e \<and> cache_key (ce_id e) (ce_key e) = k)"
    using idx by (auto simp: index_ok_def)
  have mp: "m (cache_key (ce_id e) (ce_key e)) = None"
    using hm(3) new by (cases "m (cache_key (ce_id e) (ce_key e))") auto
  have p: "p \<noteq> 0" using el e by auto
  obtain h' where h': "hash_table_set_entry env (cache_key (ce_id e) (ce_key e)) p h = Ret (0, h')"
      "hash_rel env h' (m(cache_key (ce_id e) (ce_key e) \<mapsto> p))"
    using hash_set_rel [OF hm(2) p mp] by blast
  have rel: "ll_rel env primary_la (c_primary_ll c, c_pnodes c) ps" using pr by (simp add: primary_ok_def)
  obtain pl ph where ins: "ll_insert env primary_la (c_primary_ll c) ln p (c_pnodes c) = Ret (pl, ph)"
      "ll_rel env primary_la (pl, ph) ((ln, p) # ps)"
    using ll_insert_rel [OF rel ln, of p] by auto
  let ?e = "e\<lparr>ce_list_node := ln, ce_acount := 1\<rparr>"
  let ?c = "(accessed_cache c)\<lparr>c_hash := Some h', c_primary_ll := pl, c_pnodes := ph, c_count := c_count c + 1,
      c_elems := (c_elems c)(p \<mapsto> ?e)\<rparr>"
  have run: "cache_add_element env ln p True c = Ret ?c"
    using e hm(1) h'(1) ins(1) by (simp add: cache_add_element_def on_hash_def accessed_cache_def)
  have "dirty_ok env ((accessed_cache c)\<lparr>c_elems := (c_elems c)(p \<mapsto> ?e)\<rparr>) ds"
    using dirty_ok_upd [OF d e, of ?e] by (simp add: accessed_cache_def dirty_ok_def)
  then have "dirty_ok env ?c ds" by (simp add: dirty_ok_def)
  moreover have dom: "dom (c_elems ?c) = dom (c_elems c)" using e by auto
  moreover have "primary_ok env ?c (dom (c_elems c)) ((ln, p) # ps)"
  proof -
    have "snd ` set ps = dom (c_elems c) - {p}" using pr by (simp add: primary_ok_def)
    moreover from this have "(n, p) \<notin> set ps" for n by force
    ultimately show ?thesis using pr ins(2) len e by (auto simp: primary_ok_def)
  qed
  moreover have "index_ok env ?c (dom (c_elems c))"
  proof -
    have "(m(cache_key (ce_id e) (ce_key e) \<mapsto> p)) k = Some q \<longleftrightarrow>
        q \<in> dom (c_elems c) \<and> (\<exists>e. c_elems ?c q = Some e \<and> cache_key (ce_id e) (ce_key e) = k)" for k q
      using hm(3) mp e new by auto
    with h'(2) show ?thesis unfolding index_ok_def
      by (intro exI [of _ h'] exI [of _ "m(cache_key (ce_id e) (ce_key e) \<mapsto> p)"] conjI allI) (simp, assumption, assumption)
  qed
  ultimately have "cache_ok env ?c ds ((ln, p) # ps)"
    unfolding cache_ok_def dom using el e len by auto
  then show ?thesis by (rule that [OF refl run])
qed

lemma ll_node:
  assumes "ll_rel env la (l, h) (us @ (n, e) # vs)"
  shows "\<exists>c. h n = Some c \<and> ln_entry c = e \<and> n \<noteq> 0 \<and> ln_next c = (if vs = [] then 0 else fst (hd vs))"
proof -
  obtain b where "dseg ln_next ln_prev h (ll_head l) 0 (map fst us @ n # map fst vs) 0 b" "entries_at ln_entry h (us @ (n, e) # vs)"
    using assms by (auto simp: ll_rel_def ll_inv_def)
  then show ?thesis by (cases vs) (auto simp: heap_simps entries_at_def)
qed

section \<open>The contents seen through the cache\<close>

text \<open>
  \<open>cview content c v\<close>: seen through the cache, the contents are \<open>v\<close>.  Every element holds its part of \<open>v\<close>, and the
  world differs from \<open>v\<close> only where an element is dirty.
\<close>

definition cview :: "('w \<Rightarrow> u64 \<times> u64 \<Rightarrow> u8 list) \<Rightarrow> 'w cache_t \<Rightarrow> (u64 \<times> u64 \<Rightarrow> u8 list) \<Rightarrow> bool" where
  "cview content c v \<longleftrightarrow> (\<forall>p e. c_elems c p = Some e \<longrightarrow> v (eid e) = ce_data e) \<and>
     (\<forall>x. v x \<noteq> content (c_world c) x \<longrightarrow> (\<exists>p e. c_elems c p = Some e \<and> ce_dirty e \<and> eid e = x))"

lemma cview_remove:
  assumes "cview content c v" "c_elems c p = Some e" "\<not> ce_dirty e"
    "c_elems c' = (c_elems c)(p := None)" "c_world c' = c_world c"
  shows "cview content c' v"
  unfolding cview_def
proof (intro conjI allI impI)
  fix q e' assume "c_elems c' q = Some e'"
  then have "c_elems c q = Some e'" using assms(4) by (auto split: if_splits)
  then show "v (eid e') = ce_data e'" using assms(1) by (auto simp: cview_def)
next
  fix x assume "v x \<noteq> content (c_world c') x"
  then obtain q e' where q: "c_elems c q = Some e'" "ce_dirty e'" "eid e' = x"
    using assms(1,5) unfolding cview_def by metis
  then have "q \<noteq> p" using assms(2,3) by auto
  with q show "\<exists>p e. c_elems c' p = Some e \<and> ce_dirty e \<and> eid e = x" using assms(4) by auto
qed

lemma cview_put:
  assumes "cview content c v" "c_elems c' = (c_elems c)(p \<mapsto> e)" "c_world c' = c_world c"
    "\<And>q e'. c_elems c q = Some e' \<Longrightarrow> q = p \<longleftrightarrow> eid e' = eid e"
    "ce_dirty e \<or> content (c_world c) (eid e) = ce_data e"
  shows "cview content c' (v(eid e := ce_data e))"
  unfolding cview_def
proof (intro conjI allI impI)
  fix q e' assume q: "c_elems c' q = Some e'"
  show "(v(eid e := ce_data e)) (eid e') = ce_data e'"
  proof (cases "q = p")
    case True
    with q assms(2) show ?thesis by simp
  next
    case False
    with q assms(2) have "c_elems c q = Some e'" by simp
    then show ?thesis using assms(1) assms(4) [of q e'] False unfolding cview_def by auto
  qed
next
  fix x assume x: "(v(eid e := ce_data e)) x \<noteq> content (c_world c') x"
  show "\<exists>p e. c_elems c' p = Some e \<and> ce_dirty e \<and> eid e = x"
  proof (cases "x = eid e")
    case True
    with x assms(2,3,5) show ?thesis by (intro exI [of _ p] exI [of _ e]) auto
  next
    case False
    with x assms(1,3) obtain q e' where q: "c_elems c q = Some e'" "ce_dirty e'" "eid e' = x"
      unfolding cview_def by (metis fun_upd_other)
    with False assms(4) [of q e'] have "q \<noteq> p" by auto
    with q assms(2) show ?thesis by auto
  qed
qed

lemma cview_clean:
  assumes "cview content c v" "c_elems c p = Some e"
    "c_elems c' = (c_elems c)(p \<mapsto> e\<lparr>ce_dirty := False\<rparr>)"
    "content (c_world c') = (if ce_dirty e then (content (c_world c))(eid e := ce_data e) else content (c_world c))"
  shows "cview content c' v"
  unfolding cview_def
proof (intro conjI allI impI)
  fix q e' assume "c_elems c' q = Some e'"
  then obtain e'' where "c_elems c q = Some e''" "eid e'' = eid e'" "ce_data e'' = ce_data e'"
    using assms(2,3) by (auto split: if_splits)
  then show "v (eid e') = ce_data e'" using assms(1) unfolding cview_def by metis
next
  fix x assume x: "v x \<noteq> content (c_world c') x"
  have d: "v (eid e) = ce_data e" using assms(1,2) by (auto simp: cview_def)
  have "v x \<noteq> content (c_world c) x" "ce_dirty e \<longrightarrow> x \<noteq> eid e"
    using x d unfolding assms(4) by (auto split: if_splits)
  moreover from this(1) obtain q e' where q: "c_elems c q = Some e'" "ce_dirty e'" "eid e' = x"
    using assms(1) unfolding cview_def by metis
  ultimately have "q \<noteq> p" using assms(2) by auto
  with q show "\<exists>p e. c_elems c' p = Some e \<and> ce_dirty e \<and> eid e = x" using assms(3) by auto
qed

definition cache_rel ::
  "(ce_t \<Rightarrow> 'w \<Rightarrow> (int \<times> 'w) outcome) \<Rightarrow> ('w \<Rightarrow> u64 \<times> u64 \<Rightarrow> u8 list) \<Rightarrow> (u64 \<times> u64 \<Rightarrow> nat \<Rightarrow> 'w \<Rightarrow> bool) \<Rightarrow>
   kenv \<Rightarrow> 'w cache_t \<Rightarrow> (ptr \<times> ptr) list \<Rightarrow> (ptr \<times> ptr) list \<Rightarrow> (u64 \<times> u64 \<Rightarrow> u8 list) \<Rightarrow> bool" where
  "cache_rel sync content ok env c ds ps v \<longleftrightarrow> cache_ok env c ds ps \<and> c_sync c = Some sync \<and> cview content c v \<and>
     (\<forall>p e. c_elems c p = Some e \<longrightarrow> ok (eid e) (ce_length e) (c_world c))"

text \<open>
  What a cache needs of its write-back function: it writes the data of a dirty element to the place with its
  identification and nothing else, and it leaves the world alone for a clean one.  \<open>ok x n w\<close> says that \<open>n\<close> bytes
  can be written at \<open>x\<close>.
\<close>

locale backing_store =
  fixes sync :: "ce_t \<Rightarrow> 'w \<Rightarrow> (int \<times> 'w) outcome"
    and content :: "'w \<Rightarrow> u64 \<times> u64 \<Rightarrow> u8 list"
    and ok :: "u64 \<times> u64 \<Rightarrow> nat \<Rightarrow> 'w \<Rightarrow> bool"
  assumes write_back: "ok (eid e) (ce_length e) w \<Longrightarrow> length (ce_data e) = ce_length e \<Longrightarrow> ce_dirty e \<Longrightarrow>
      \<exists>r w'. sync e w = Ret (r, w') \<and> content w' = (content w)(eid e := ce_data e) \<and> (\<forall>x n. ok x n w \<longrightarrow> ok x n w')"
    and clean: "\<not> ce_dirty e \<Longrightarrow> \<exists>r. sync e w = Ret (r, w)"
    and one_size: "ok x n w \<Longrightarrow> ok x n' w \<Longrightarrow> n = n'"
begin

abbreviation rel where "rel \<equiv> cache_rel sync content ok"

lemma rel_frame [simp]:
  "rel env (c\<lparr>c_rwl := l\<rparr>) ds ps v = rel env c ds ps v"
  "rel env (c\<lparr>c_syncing := b\<rparr>) ds ps v = rel env c ds ps v"
  "rel env (accessed_cache c) ds ps v = rel env c ds ps v"
  by (simp_all add: cache_rel_def cview_def) (simp_all add: accessed_cache_def)

lemma sync_element:
  assumes rel: "rel env c ds ps v" and e: "c_elems c p = Some e"
  obtains r c' dl dh dc w ds' where
    "c' = c\<lparr>c_world := w, c_elems := (c_elems c)(p \<mapsto> e\<lparr>ce_dirty := False\<rparr>),
            c_dirty := dc, c_dirty_ll := dl, c_dnodes := dh\<rparr>"
    "do_cache_sync_element env p True c = Ret (r, c')" "rel env c' ds' ps v"
    "set ds' \<subseteq> set ds" "length ds' + of_bool (ce_dirty e) = length ds" "\<forall>x n. ok x n (c_world c) \<longrightarrow> ok x n w"
    "\<forall>x. content (c_world c) x = v x \<longrightarrow> content w x = v x"
proof -
  have ok: "cache_ok env c ds ps" "dirty_ok env c ds" and s: "c_sync c = Some sync" and v: "cview content c v"
    and w: "\<forall>p e. c_elems c p = Some e \<longrightarrow> ok (eid e) (ce_length e) (c_world c)"
    and len: "length (ce_data e) = ce_length e"
    using rel e by (auto simp: cache_rel_def cache_ok_def)
  obtain r w' where sy: "sync e (c_world c) = Ret (r, w')"
      "content w' = (if ce_dirty e then (content (c_world c))(eid e := ce_data e) else content (c_world c))"
      "\<forall>x n. ok x n (c_world c) \<longrightarrow> ok x n w'"
    using write_back [of e "c_world c"] clean [of e "c_world c"] w e len by (cases "ce_dirty e") auto
  have d: "dirty_ok env (c\<lparr>c_world := w'\<rparr>) ds" "c_elems (c\<lparr>c_world := w'\<rparr>) p = Some e" using ok(2) e by simp_all
  obtain c' dl dh dc ds' where sd: "c' = c\<lparr>c_world := w', c_elems := (c_elems c)(p \<mapsto> e\<lparr>ce_dirty := False\<rparr>),
        c_dirty := dc, c_dirty_ll := dl, c_dnodes := dh\<rparr>" "set_dirty env 0 p False (c\<lparr>c_world := w'\<rparr>) = Ret (ce_dirty e, c')"
      "dirty_ok env c' ds'" "set ds' \<subseteq> set ds" "length ds' + of_bool (ce_dirty e) = length ds"
    by (rule set_dirty_off [OF d, of 0]) simp
  have "do_cache_sync_element env p True c = Ret (r, c')"
    using s e sy(1) sd(2) by (simp add: do_cache_sync_element_def)
  moreover have "cache_ok env c' ds' ps"
    by (rule cache_ok_upd [of env "c\<lparr>c_world := w'\<rparr>" ds ps p e "e\<lparr>ce_dirty := False\<rparr>"])
       (use ok(1) e sd(1,3) in \<open>auto simp: cache_ok_def\<close>)
  moreover have "cview content c' v"
    by (rule cview_clean [OF v e]) (simp_all add: sd(1) sy(2))
  moreover have "\<forall>p e. c_elems c' p = Some e \<longrightarrow> ok (eid e) (ce_length e) (c_world c')"
    using w e sy(3) sd(1) by auto
  ultimately have "do_cache_sync_element env p True c = Ret (r, c')" "rel env c' ds' ps v"
    using s sd(1) by (simp_all add: cache_rel_def)
  moreover have "v (eid e) = ce_data e" using v e by (auto simp: cview_def)
  then have "\<forall>x. content (c_world c) x = v x \<longrightarrow> content w' x = v x" using sy(2) by auto
  ultimately show ?thesis using sd(1,4,5) sy(3) by (intro that)
qed

lemma remove_clean:
  assumes rel: "rel env c ds ps v" and e: "c_elems c p = Some e" "\<not> ce_dirty e"
  obtains c' cn pl ph h us vs where
    "c' = c\<lparr>c_count := cn, c_primary_ll := pl, c_pnodes := ph, c_hash := Some h, c_elems := (c_elems c)(p := None)\<rparr>"
    "cache_remove_element env p True c = Ret c'" "rel env c' ds (us @ vs) v" "ps = us @ (ce_list_node e, p) # vs"
proof -
  have ok: "cache_ok env c ds ps" using rel by (simp add: cache_rel_def)
  obtain c' cn pl ph h us vs where rm:
    "c' = c\<lparr>c_count := cn, c_primary_ll := pl, c_pnodes := ph, c_hash := Some h, c_elems := (c_elems c)(p := None)\<rparr>"
    "cache_remove_element env p True c = Ret c'" "cache_ok env c' ds (us @ vs)" "ps = us @ (ce_list_node e, p) # vs"
    using cache_remove_element_ok [OF ok e] .
  have "cview content c' v" by (rule cview_remove [OF _ e]) (use rel rm(1) in \<open>simp_all add: cache_rel_def\<close>)
  then have "rel env c' ds (us @ vs) v" using rel rm(1,3) by (simp add: cache_rel_def)
  with rm(1,2,4) show ?thesis by (intro that)
qed

text \<open>
  Making room leaves at most 100000 elements and keeps the contents; where the world agreed with them, it still
  does.
\<close>

definition shrinks :: "'w cache_t \<Rightarrow> 'w cache_t \<Rightarrow> bool" where
  "shrinks c c' \<longleftrightarrow> c_rwl c' = c_rwl c \<and>
     (\<forall>q e'. c_elems c' q = Some e' \<longrightarrow> (\<exists>e. c_elems c q = Some e \<and> eid e = eid e'))"

lemma shrinks_refl: "shrinks c c"
  by (simp add: shrinks_def)

lemma evict:
  assumes rel: "rel env c ds ps v" and q: "c_elems c q = Some e"
  shows "\<exists>c' ds' us vs. cache_drop_element env q c = Ret c' \<and> rel env c' ds' (us @ vs) v \<and> set ds' \<subseteq> set ds \<and>
     ps = us @ (ce_list_node e, q) # vs \<and> shrinks c c' \<and> dom (c_elems c') = dom (c_elems c) - {q} \<and>
     (\<forall>x n. ok x n (c_world c) \<longrightarrow> ok x n (c_world c')) \<and>
     (\<forall>x. content (c_world c) x = v x \<longrightarrow> content (c_world c') x = v x)"
proof (cases "ce_dirty e")
  case True
  obtain r c1 dl dh dc w ds1 where c1: "c1 = c\<lparr>c_world := w, c_elems := (c_elems c)(q \<mapsto> e\<lparr>ce_dirty := False\<rparr>),
        c_dirty := dc, c_dirty_ll := dl, c_dnodes := dh\<rparr>" "do_cache_sync_element env q True c = Ret (r, c1)"
      "rel env c1 ds1 ps v" "set ds1 \<subseteq> set ds" "\<forall>x n. ok x n (c_world c) \<longrightarrow> ok x n w"
      "\<forall>x. content (c_world c) x = v x \<longrightarrow> content w x = v x"
    by (rule sync_element [OF rel q])
  have e1: "c_elems c1 q = Some (e\<lparr>ce_dirty := False\<rparr>)" "\<not> ce_dirty (e\<lparr>ce_dirty := False\<rparr>)" using c1(1) by simp_all
  obtain c2 cn pl ph h us vs where c2: "c2 = c1\<lparr>c_count := cn, c_primary_ll := pl, c_pnodes := ph, c_hash := Some h,
        c_elems := (c_elems c1)(q := None)\<rparr>" "cache_remove_element env q True c1 = Ret c2" "rel env c2 ds1 (us @ vs) v"
      "ps = us @ (ce_list_node (e\<lparr>ce_dirty := False\<rparr>), q) # vs"
    by (rule remove_clean [OF c1(3) e1])
  have "shrinks c c2" using c1(1) c2(1) by (auto simp: shrinks_def split: if_splits)
  moreover have "dom (c_elems c2) = dom (c_elems c) - {q}" using c1(1) c2(1) by auto
  moreover have "c_world c2 = w" using c1(1) c2(1) by simp
  ultimately show ?thesis using True q c1(2,4-6) c2(2-4) by (auto simp: cache_drop_element_def)
next
  case False
  obtain c2 cn pl ph h us vs where c2: "c2 = c\<lparr>c_count := cn, c_primary_ll := pl, c_pnodes := ph, c_hash := Some h,
        c_elems := (c_elems c)(q := None)\<rparr>" "cache_remove_element env q True c = Ret c2" "rel env c2 ds (us @ vs) v"
      "ps = us @ (ce_list_node e, q) # vs"
    by (rule remove_clean [OF rel q False])
  have "shrinks c c2" using c2(1) by (auto simp: shrinks_def split: if_splits)
  with False q c2 show ?thesis by (auto simp: cache_drop_element_def)
qed

lemma make_room:
  assumes rel: "rel env c ds ps v" and pm: "snd pm \<noteq> 0"
  shows "\<exists>c' ds' ps'. cache_make_room env pm c = Ret c' \<and> rel env c' ds' ps' v \<and> set ds' \<subseteq> set ds \<and>
     set ps' \<subseteq> set ps \<and> length ps' \<le> 100000 \<and> shrinks c c' \<and> (\<forall>x n. ok x n (c_world c) \<longrightarrow> ok x n (c_world c')) \<and>
     (\<forall>x. content (c_world c) x = v x \<longrightarrow> content (c_world c') x = v x)"
proof -
  have ok: "cache_ok env c ds ps" and len: "length ps \<le> 100001" and cnt: "c_count c = of_nat (length ps)"
    using rel by (auto simp: cache_rel_def cache_ok_def primary_ok_def)
  have big: "c_count c > 100000 \<longleftrightarrow> length ps > 100000" using len cnt by (simp add: word_less_nat_alt unat_of_nat)
  show ?thesis
  proof (cases "should_element_be_added pm c = Ret True")
    case True
    then have "length ps \<le> 100000" using big by (auto simp: should_element_be_added_def split: if_splits)
    with True rel show ?thesis
      by (intro exI [of _ c] exI [of _ ds] exI [of _ ps]) (simp add: cache_make_room_def shrinks_refl)
  next
    case False
    then have no: "should_element_be_added pm c = Ret False"
      using pm by (auto simp: should_element_be_added_def split: if_splits)
    obtain h m where hm: "c_hash c = Some h" "hash_rel env h m" "\<forall>k p. m k = Some p \<longleftrightarrow>
        p \<in> dom (c_elems c) \<and> (\<exists>e. c_elems c p = Some e \<and> cache_key (ce_id e) (ce_key e) = k)"
      using ok by (auto simp: cache_ok_def index_ok_def)
    have "dom m \<subseteq> (\<lambda>p. case c_elems c p of Some e \<Rightarrow> cache_key (ce_id e) (ce_key e)) ` dom (c_elems c)"
      using hm(3) by (force simp: image_iff)
    moreover have "finite (dom (c_elems c))" "card (dom (c_elems c)) < 2 ^ 32"
      using ok by (auto simp: cache_ok_def dirty_ok_def)
    ultimately have "card (dom m) < 2 ^ 64" using surj_card_le [of "dom (c_elems c)" "dom m"] by force
    then obtain r where r: "hash_table_enumerate_entries env 0 h = Ret (r, h)"
        "case r of None \<Rightarrow> m = Map.empty | Some n \<Rightarrow> m (hn_key n) = Some (hn_entry n)"
      using hash_first_rel [OF hm(2)] by blast
    have [simp]: "c\<lparr>c_hash := Some h\<rparr> = c" using hm(1) by simp
    show ?thesis
    proof (cases r)
      case None
      then have "dom (c_elems c) = {}" using r(2) hm(3) by fastforce
      then have "ps = []" using ok by (auto simp: cache_ok_def primary_ok_def)
      with None no hm(1) r(1) rel show ?thesis
        by (intro exI [of _ c] exI [of _ ds] exI [of _ ps]) (simp add: cache_make_room_def on_hash_def shrinks_refl)
    next
      case (Some n)
      then obtain e where e: "c_elems c (hn_entry n) = Some e" using r(2) hm(3) by auto
      then obtain c' ds' us vs where c': "cache_drop_element env (hn_entry n) c = Ret c'" "rel env c' ds' (us @ vs) v" "set ds' \<subseteq> set ds"
          "ps = us @ (ce_list_node e, hn_entry n) # vs" "shrinks c c'" "\<forall>x n. ok x n (c_world c) \<longrightarrow> ok x n (c_world c')"
          "\<forall>x. content (c_world c) x = v x \<longrightarrow> content (c_world c') x = v x"
        using evict [OF rel e] by blast
      have "cache_make_room env pm c = Ret c'"
        using no hm(1) r(1) Some c'(1) by (simp add: cache_make_room_def on_hash_def)
      moreover have "set (us @ vs) \<subseteq> set ps" "length (us @ vs) \<le> 100000" using c'(4) len by auto
      ultimately show ?thesis using c'(2,3,5-7) by blast
    qed
  qed
qed

lemma cache_new:
  assumes rel: "rel env c ds ps v" and len: "length ps \<le> 100000" and new: "\<forall>q e. c_elems c q = Some e \<longrightarrow> eid e \<noteq> (i, k)"
    and p: "p \<noteq> 0" "c_elems c p = None" and dn: "dn \<noteq> 0" "dn \<notin> fst ` set ds" and ln: "ln \<noteq> 0" "ln \<notin> fst ` set ps"
    and okx: "ok (i, k) n (c_world c)" and buf: "length buf = n" "dirty \<or> content (c_world c) (i, k) = buf"
    and e: "e = \<lparr>ce_id = i, ce_key = k, ce_dirty = False, ce_data = buf, ce_length = n, ce_acount = 0,
              ce_rwl = rwlock_create True, ce_dirty_node = 0, ce_list_node = 0\<rparr>"
  shows "\<exists>r c1 c2 ds' ps'. set_dirty env dn p dirty (c\<lparr>c_elems := (c_elems c)(p \<mapsto> e)\<rparr>) = Ret (r, c1) \<and>
     cache_add_element env ln p True c1 = Ret c2 \<and> rel env c2 ds' ps' (v((i, k) := buf)) \<and> c_rwl c2 = c_rwl c \<and>
     c_world c2 = c_world c"
proof -
  have ok: "cache_ok env c ds ps" and d: "dirty_ok env c ds" and cv: "cview content c v" using rel by (auto simp: cache_rel_def cache_ok_def)
  have small: "card (dom (c_elems c)) \<le> 100000" "finite (dom (c_elems c))" using cache_ok_card [OF ok] len by auto
  let ?c = "c\<lparr>c_elems := (c_elems c)(p \<mapsto> e)\<rparr>"
  have "dirty_ok env ?c ds"
    using d p(2) e small by (auto simp: dirty_ok_def card_insert_if domIff)
  then have "\<exists>r c1 nd dc dl dh ds'. set_dirty env dn p dirty ?c = Ret (r, c1) \<and> dirty_ok env c1 ds' \<and>
      c1 = c\<lparr>c_elems := (c_elems c)(p \<mapsto> e\<lparr>ce_dirty := dirty, ce_dirty_node := nd\<rparr>),
        c_dirty := dc, c_dirty_ll := dl, c_dnodes := dh\<rparr>"
    using set_dirty_any [of env ?c ds p e dn dirty] dn by simp
  then obtain r c1 nd dc dl dh ds' where c1: "set_dirty env dn p dirty ?c = Ret (r, c1)" "dirty_ok env c1 ds'"
      "c1 = c\<lparr>c_elems := (c_elems c)(p \<mapsto> e\<lparr>ce_dirty := dirty, ce_dirty_node := nd\<rparr>),
        c_dirty := dc, c_dirty_ll := dl, c_dnodes := dh\<rparr>" by blast
  let ?e = "e\<lparr>ce_dirty := dirty, ce_dirty_node := nd\<rparr>"
  have dom: "dom (c_elems c1) - {p} = dom (c_elems c)" using c1(3) p(2) by auto
  have a1: "index_ok env c1 (dom (c_elems c1) - {p})" unfolding dom
    by (rule index_ok_upd [where c = c]) (use ok c1(3) p(2) in \<open>auto simp: cache_ok_def\<close>)
  have a2: "primary_ok env c1 (dom (c_elems c1) - {p}) ps" unfolding dom
    by (rule primary_ok_upd [where c = c]) (use ok c1(3) p(2) in \<open>auto simp: cache_ok_def\<close>)
  have a3: "\<forall>q e. c_elems c1 q = Some e \<longrightarrow> q \<noteq> 0 \<and> rw_free (ce_rwl e) \<and> length (ce_data e) = ce_length e"
    using ok c1(3) p(1) e buf(1) by (auto simp: cache_ok_def rwlock_create_free)
  have a4: "c_elems c1 p = Some ?e" using c1(3) by simp
  have a5: "\<forall>q e'. c_elems c1 q = Some e' \<longrightarrow> q \<noteq> p \<longrightarrow> eid e' \<noteq> eid ?e" using new c1(3) e by auto
  obtain c2 cn pl ph h where c2: "c2 = (accessed_cache c1)\<lparr>c_hash := Some h, c_primary_ll := pl, c_pnodes := ph,
        c_count := cn, c_elems := (c_elems c1)(p \<mapsto> ?e\<lparr>ce_list_node := ln, ce_acount := 1\<rparr>)\<rparr>"
      "cache_add_element env ln p True c1 = Ret c2" "cache_ok env c2 ds' ((ln, p) # ps)"
    by (rule cache_add_element_ok [OF c1(2) a1 a2 a3 a4 a5 ln len])
  let ?e2 = "?e\<lparr>ce_list_node := ln, ce_acount := 1\<rparr>"
  have f: "c_elems c2 = (c_elems c)(p \<mapsto> ?e2)" "c_world c2 = c_world c" "c_rwl c2 = c_rwl c" "c_sync c2 = c_sync c"
    using c2(1) c1(3) by (simp_all add: accessed_cache_def)
  have "cview content c2 (v(eid ?e2 := ce_data ?e2))"
    by (rule cview_put [OF cv f(1,2)]) (use new p e buf(2) in \<open>auto\<close>)
  then have "rel env c2 ds' ((ln, p) # ps) (v((i, k) := buf))"
    using rel c2(3) f okx e by (auto simp: cache_rel_def)
  with c1(1) c2(2) f(2,3) show ?thesis by blast
qed

lemma rel_hash:
  assumes "rel env c ds ps v" "cache_ok env (c\<lparr>c_hash := h\<rparr>) ds ps"
  shows "rel env (c\<lparr>c_hash := h\<rparr>) ds ps v"
  using assms by (auto simp: cache_rel_def cview_def)

lemma cache_hit:
  assumes rel: "rel env c ds ps v" and q: "c_elems c q = Some e" "eid e = (i, k)"
    and dn: "dn \<noteq> 0" "dn \<notin> fst ` set ds" and buf: "length buf = ce_length e" "dirty \<or> content (c_world c) (i, k) = buf"
  shows "\<exists>r c' ds'. set_dirty env dn q dirty (c\<lparr>c_elems := (c_elems c)(q \<mapsto> e\<lparr>ce_data := buf\<rparr>)\<rparr>) = Ret (r, c') \<and>
     rel env c' ds' ps (v((i, k) := buf)) \<and> c_rwl c' = c_rwl c \<and> c_world c' = c_world c"
proof -
  have ok: "cache_ok env c ds ps" and d: "dirty_ok env c ds" and cv: "cview content c v"
    using rel by (auto simp: cache_rel_def cache_ok_def)
  let ?e = "e\<lparr>ce_data := buf\<rparr>" and ?c = "c\<lparr>c_elems := (c_elems c)(q \<mapsto> e\<lparr>ce_data := buf\<rparr>)\<rparr>"
  have d: "dirty_ok env ?c ds" by (rule dirty_ok_upd [OF d q(1)]) simp_all
  have e1: "c_elems ?c q = Some ?e" "ce_dirty ?e \<or> dn \<noteq> 0 \<and> dn \<notin> fst ` set ds" using dn by simp_all
  obtain r c' nd dc dl dh ds' where c': "set_dirty env dn q dirty ?c = Ret (r, c')" "dirty_ok env c' ds'"
      "c' = c\<lparr>c_elems := (c_elems c)(q \<mapsto> ?e\<lparr>ce_dirty := dirty, ce_dirty_node := nd\<rparr>),
        c_dirty := dc, c_dirty_ll := dl, c_dnodes := dh\<rparr>"
    using set_dirty_any [OF d e1, of dirty] by auto
  let ?e' = "?e\<lparr>ce_dirty := dirty, ce_dirty_node := nd\<rparr>"
  have f: "c_elems c' = (c_elems c)(q \<mapsto> ?e')" "c_world c' = c_world c" "c_rwl c' = c_rwl c" "c_sync c' = c_sync c"
    using c'(3) by simp_all
  have "cache_ok env c' ds' ps"
    by (rule cache_ok_upd [OF ok q(1) _ _ _ _ c'(3) c'(2)]) (use ok q(1) buf(1) in \<open>auto simp: cache_ok_def\<close>)
  moreover have "cview content c' (v(eid ?e' := ce_data ?e'))"
  proof (rule cview_put [OF cv f(1,2)])
    show "ce_dirty ?e' \<or> content (c_world c) (eid ?e') = ce_data ?e'" using buf(2) q(2) by auto
    show "q' = q \<longleftrightarrow> eid e'' = eid ?e'" if "c_elems c q' = Some e''" for q' e''
      using cache_ok_unique [OF ok that q(1)] that q by auto
  qed
  moreover have "\<forall>p e. c_elems c' p = Some e \<longrightarrow> ok (eid e) (ce_length e) (c_world c')"
    using rel q(1) f(1,2) by (auto simp: cache_rel_def)
  ultimately have "rel env c' ds' ps (v((i, k) := buf))"
    using rel q(2) f(4) by (auto simp: cache_rel_def)
  with c'(1) f(2,3) show ?thesis by blast
qed

text \<open>Caching an object replaces its part of the contents, or caches what the world holds.\<close>

lemma cache_object:
  assumes rel: "rel env c ds ps v" and free: "rw_free (c_rwl c)" and pm: "snd pm \<noteq> 0"
    and p: "p \<noteq> 0" "c_elems c p = None" and dn: "dn \<noteq> 0" "dn \<notin> fst ` set ds" and ln: "ln \<noteq> 0" "ln \<notin> fst ` set ps"
    and okx: "ok (i, k) n (c_world c)" and src: "n \<le> length src"
    and buf: "buf = take n src" "dirty \<or> content (c_world c) (i, k) = buf"
  shows "\<exists>c' ds' ps'. do_cache_object env pm (p, dn, ln) i k n src dirty c = Ret (0, c') \<and>
     rel env c' ds' ps' (v((i, k) := buf)) \<and> c_rwl c' = c_rwl c \<and>
     (\<forall>x n. ok x n (c_world c) \<longrightarrow> ok x n (c_world c')) \<and>
     (\<forall>x. content (c_world c) x = v x \<longrightarrow> content (c_world c') x = v x)"
proof -
  have len: "length buf = n" using src buf(1) by simp
  let ?l = "(c_rwl c)\<lparr>rw_locks := 1\<rparr>" and ?c = "c_held (accessed_cache c)"
  have relc: "rel env ?c ds ps v" using rel by simp
  then have ok: "cache_ok env ?c ds ps" by (simp only: cache_rel_def)
  then have env: "env_ok env" by (rule cache_ok_env)
  obtain h where h: "c_hash ?c = Some h" using ok by (auto simp: cache_ok_def index_ok_def)
  obtain r q h' where get: "hash_table_get_entry env (cache_key i k) h = Ret ((r, q), h')"
      "found ?c i k (if r = 0 then q else 0)" "cache_ok env (?c\<lparr>c_hash := Some h'\<rparr>) ds ps"
    using hash_lookup [OF ok h] by blast
  let ?d = "?c\<lparr>c_hash := Some h'\<rparr>"
  have reld: "rel env ?d ds ps v" using rel_hash [OF relc get(3)] .
  have lock: "c_lock env False (accessed_cache c) = Ret ?c"
    using c_lock_free [OF env, of "accessed_cache c"] free by (simp add: accessed_cache_def)
  have unlock: "c_unlock env False c' = Ret (c'\<lparr>c_rwl := c_rwl c\<rparr>)" if "c_rwl c' = ?l" for c' :: "'a cache_t"
    using c_unlock_held [OF env free that] .
  have f: "c_elems ?d = c_elems c" "c_world ?d = c_world c" "c_rwl ?d = ?l" by (simp_all add: accessed_cache_def)
  show ?thesis
  proof (cases "r = 0 \<and> q \<noteq> 0")
    case True
    then obtain e where e: "c_elems ?d q = Some e" "eid e = (i, k)" using get(2) by (auto simp: found_def)
    have "ok (i, k) (ce_length e) (c_world c)" using reld e f by (auto simp: cache_rel_def)
    then have le: "ce_length e = n" using one_size okx by blast
    then obtain s c' ds' where c': "set_dirty env dn q dirty (?d\<lparr>c_elems := (c_elems ?d)(q \<mapsto> e\<lparr>ce_data := buf\<rparr>)\<rparr>) = Ret (s, c')"
        "rel env c' ds' ps (v((i, k) := buf))" "c_rwl c' = ?l" "c_world c' = c_world c"
      using cache_hit [OF reld e dn, of buf dirty] len buf(2) f by auto
    have "do_cache_object env pm (p, dn, ln) i k n src dirty c = Ret (0, c'\<lparr>c_rwl := c_rwl c\<rparr>)"
      using True lock h get(1) e(1) le src buf(1) c'(1) unlock [OF c'(3)]
      by (simp add: do_cache_object_def on_hash_def copy_from_def)
    with c'(2,4) show ?thesis by (intro exI [of _ "c'\<lparr>c_rwl := c_rwl c\<rparr>"] exI) auto
  next
    case False
    then have "found ?c i k 0" using get(2) by (auto split: if_splits)
    then have new: "\<forall>q e. c_elems c q = Some e \<longrightarrow> eid e \<noteq> (i, k)" by (simp add: found_def accessed_cache_def)
    obtain c1 ds1 ps1 where c1: "cache_make_room env pm ?d = Ret c1" "rel env c1 ds1 ps1 v" "set ds1 \<subseteq> set ds"
        "set ps1 \<subseteq> set ps" "length ps1 \<le> 100000" "shrinks ?d c1" "\<forall>x n. ok x n (c_world c) \<longrightarrow> ok x n (c_world c1)"
        "\<forall>x. content (c_world c) x = v x \<longrightarrow> content (c_world c1) x = v x"
      using make_room [OF reld pm] unfolding f by blast
    have sub: "\<exists>e. c_elems c q = Some e \<and> eid e = eid e'" if "c_elems c1 q = Some e'" for q e'
      using c1(6) f(1) that unfolding shrinks_def by metis
    have new1: "\<forall>q e. c_elems c1 q = Some e \<longrightarrow> eid e \<noteq> (i, k)" using new sub by metis
    have p1: "c_elems c1 p = None" using p(2) sub [of p] by (cases "c_elems c1 p") auto
    have dn1: "dn \<notin> fst ` set ds1" and ln1: "ln \<notin> fst ` set ps1" using dn(2) ln(2) c1(3,4) by auto
    have ok1: "ok (i, k) n (c_world c1)" using c1(7) okx by blast
    have "v (i, k) = content (c_world c) (i, k)" using rel new unfolding cache_rel_def cview_def by metis
    then have buf1: "dirty \<or> content (c_world c1) (i, k) = buf" using c1(8) buf(2) by metis
    obtain s c2 c3 ds3 ps3 where c3: "set_dirty env dn p dirty (c1\<lparr>c_elems := (c_elems c1)(p \<mapsto>
        \<lparr>ce_id = i, ce_key = k, ce_dirty = False, ce_data = buf, ce_length = n, ce_acount = 0,
              ce_rwl = rwlock_create True, ce_dirty_node = 0, ce_list_node = 0\<rparr>)\<rparr>) = Ret (s, c2)"
        "cache_add_element env ln p True c2 = Ret c3" "rel env c3 ds3 ps3 (v((i, k) := buf))" "c_rwl c3 = c_rwl c1"
        "c_world c3 = c_world c1"
      using cache_new [OF c1(2,5) new1 p(1) p1 dn(1) dn1 ln(1) ln1 ok1 len buf1 refl] by blast
    have "c_rwl c3 = ?l" using c3(4) c1(6) f(3) by (simp add: shrinks_def)
    then have "do_cache_object env pm (p, dn, ln) i k n src dirty c = Ret (0, c3\<lparr>c_rwl := c_rwl c\<rparr>)"
      using False lock h get(1) src buf(1) c1(1) c3(1,2) unlock [of c3]
      by (auto simp: do_cache_object_def on_hash_def copy_from_def)
    moreover have "rel env (c3\<lparr>c_rwl := c_rwl c\<rparr>) ds3 ps3 (v((i, k) := buf))"
      "c_rwl (c3\<lparr>c_rwl := c_rwl c\<rparr>) = c_rwl c" using c3(3) by simp_all
    moreover have "\<forall>x n. ok x n (c_world c) \<longrightarrow> ok x n (c_world (c3\<lparr>c_rwl := c_rwl c\<rparr>))"
      "\<forall>x. content (c_world c) x = v x \<longrightarrow> content (c_world (c3\<lparr>c_rwl := c_rwl c\<rparr>)) x = v x"
      using c1(7,8) c3(5) by simp_all
    ultimately show ?thesis by blast
  qed
qed

text \<open>A cache without dirty elements agrees with the world.\<close>

lemma synced: "rel env c [] ps v \<Longrightarrow> content (c_world c) = v"
proof (rule ccontr)
  assume rel: "rel env c [] ps v" and "content (c_world c) \<noteq> v"
  then obtain x where "v x \<noteq> content (c_world c) x" using ext [of v "content (c_world c)"] by metis
  then obtain p e where "c_elems c p = Some e" "ce_dirty e" using rel unfolding cache_rel_def cview_def by metis
  then show False using rel by (auto simp: cache_rel_def cache_ok_def dirty_ok_def)
qed

lemma sync_loop:
  assumes "rel env c ds ps v" "rw_free (c_rwl c)" "length ds < fuel"
  shows "\<exists>b c' ds'. cache_sync_loop fuel env sig i c = Ret (b, c') \<and> rel env c' ds' ps v \<and> c_rwl c' = c_rwl c \<and>
     (b \<and> (\<exists>j. sig j) \<or> \<not> b \<and> ds' = [])"
  using assms
proof (induction fuel arbitrary: i c ds)
  case (Suc fuel)
  have ok: "cache_ok env c ds ps" "dirty_ok env c ds" using Suc.prems(1) by (simp_all add: cache_rel_def cache_ok_def)
  have env: "env_ok env" using cache_ok_env [OF ok(1)] .
  have zero: "c_dirty c = 0 \<longleftrightarrow> ds = []"
    using ok(2) dirty_length(2) [OF ok(2)] by (auto simp: dirty_ok_def word_of_nat_eq_0_iff nat_dvd_not_less)
  show ?case
  proof (cases ds)
    case Nil
    with zero Suc.prems(1) show ?thesis by auto
  next
    case (Cons d ds0)
    obtain n q where d: "d = (n, q)" by (cases d)
    have ll: "ll_inv dirty_la (c_dirty_ll c) (c_dnodes c) ds" using ok(2) by (simp add: dirty_ok_def ll_rel_def)
    obtain nd where nd: "c_dnodes c (ll_head (c_dirty_ll c)) = Some nd" "ln_entry nd = q" "ll_head (c_dirty_ll c) \<noteq> 0"
      using ll Cons d by (auto simp: ll_inv_def)
    obtain e where e: "c_elems c q = Some e" "ce_dirty e"
      using ok(2) Cons d unfolding dirty_ok_def by (metis list.set_intros(1))
    have rel: "rel env (c_held c) ds ps v" and eh: "c_elems (c_held c) q = Some e" using Suc.prems(1) e by simp_all
    obtain r c' dl dh dc w ds' where c': "c' = (c_held c)\<lparr>c_world := w, c_elems := (c_elems (c_held c))(q \<mapsto> e\<lparr>ce_dirty := False\<rparr>),
            c_dirty := dc, c_dirty_ll := dl, c_dnodes := dh\<rparr>" "do_cache_sync_element env q True (c_held c) = Ret (r, c')"
        "rel env c' ds' ps v" "length ds' + of_bool (ce_dirty e) = length ds"
      by (rule sync_element [OF rel eh])
    have lk: "c_lock env False c = Ret (c_held c)" using c_lock_free [OF env Suc.prems(2)] .
    have ul: "c_unlock env False c' = Ret (c'\<lparr>c_rwl := c_rwl c\<rparr>)"
      by (rule c_unlock_held [OF env Suc.prems(2)]) (simp add: c'(1))
    have step: "cache_sync_loop (Suc fuel) env sig i c =
        (if sig i then Ret (True, c'\<lparr>c_rwl := c_rwl c\<rparr>) else cache_sync_loop fuel env sig (i + 1) (c'\<lparr>c_rwl := c_rwl c\<rparr>))"
      using zero Cons lk nd c'(2) ul by simp
    have "\<exists>b c'' ds'. cache_sync_loop fuel env sig (i + 1) (c'\<lparr>c_rwl := c_rwl c\<rparr>) = Ret (b, c'') \<and> rel env c'' ds' ps v \<and>
        c_rwl c'' = c_rwl (c'\<lparr>c_rwl := c_rwl c\<rparr>) \<and> (b \<and> (\<exists>j. sig j) \<or> \<not> b \<and> ds' = [])"
      by (rule Suc.IH [of _ ds']) (use Suc.prems(2,3) c'(3,4) e(2) in simp_all)
    then show ?thesis unfolding step using c'(3) by auto
  qed
qed simp

lemma sync_all:
  assumes "rel env c ds ps v" "rw_free (c_rwl c)" "length ds < fuel" "\<forall>j. \<not> sig j"
  shows "\<exists>c'. cache_sync fuel env sig c = Ret c' \<and> rel env c' [] ps v \<and> c_rwl c' = c_rwl c \<and> content (c_world c') = v"
proof -
  have ok: "dirty_ok env c ds" "c_sync c \<noteq> None" using assms(1) by (simp_all add: cache_rel_def cache_ok_def)
  have zero: "c_dirty c = 0 \<longleftrightarrow> ds = []"
    using ok(1) dirty_length(2) [OF ok(1)] by (auto simp: dirty_ok_def word_of_nat_eq_0_iff nat_dvd_not_less)
  show ?thesis
  proof (cases "ds = []")
    case True
    then have "cache_sync fuel env sig c = Ret c" using zero by (simp add: cache_sync_def)
    then show ?thesis using assms(1) True synced by auto
  next
    case False
    let ?c = "(accessed_cache c)\<lparr>c_syncing := True\<rparr>"
    have rel: "rel env ?c ds ps v" using assms(1) by simp
    have f: "rw_free (c_rwl ?c)" "c_rwl ?c = c_rwl c" using assms(2) by (simp_all add: accessed_cache_def)
    obtain c' where c': "cache_sync_loop fuel env sig 1 ?c = Ret (False, c')" "rel env c' [] ps v" "c_rwl c' = c_rwl c"
      using sync_loop [OF rel f(1) assms(3), of sig 1] assms(4) f(2) by auto
    have "cache_sync fuel env sig c = Ret (c'\<lparr>c_syncing := False\<rparr>)"
      using False zero ok(2) c'(1) by (auto simp: cache_sync_def)
    then show ?thesis using c'(2,3) synced [of env "c'\<lparr>c_syncing := False\<rparr>" ps v] by simp
  qed
qed

text \<open>The traversal of the primary list removes exactly the elements of one identification.\<close>

lemma destroy_loop:
  assumes "rel env c ds (us @ vs) v" "length vs < fuel"
    "\<forall>q e. c_elems c q = Some e \<longrightarrow> ce_id e = i \<longrightarrow> q \<in> snd ` set vs"
  shows "\<exists>c' ds' ps'. primary_loop fuel (destroy_body env i) (if vs = [] then 0 else fst (hd vs)) c = Ret c' \<and>
     rel env c' ds' ps' v \<and> c_rwl c' = c_rwl c \<and> (\<forall>q e. c_elems c' q = Some e \<longrightarrow> ce_id e \<noteq> i) \<and>
     (\<forall>x n. ok x n (c_world c) \<longrightarrow> ok x n (c_world c')) \<and> (vs = [] \<longrightarrow> c' = c)"
  using assms
proof (induction vs arbitrary: fuel us c ds)
  case Nil
  then show ?case by (cases fuel) auto
next
  case (Cons x vs)
  obtain n q where x: "x = (n, q)" by (cases x)
  obtain f where fuel: "fuel = Suc f" "length vs < f" using Cons.prems(2) by (cases fuel) auto
  have ok: "cache_ok env c ds (us @ x # vs)" using Cons.prems(1) by (simp add: cache_rel_def)
  have pr: "ll_rel env primary_la (c_primary_ll c, c_pnodes c) (us @ x # vs)" "distinct (map snd (us @ x # vs))"
    using ok by (auto simp: cache_ok_def primary_ok_def)
  obtain nd where nd: "c_pnodes c n = Some nd" "ln_entry nd = q" "n \<noteq> 0"
      "ln_next nd = (if vs = [] then 0 else fst (hd vs))"
    using ll_node [OF pr(1) [unfolded x]] by blast
  obtain e where e: "c_elems c q = Some e" "ce_list_node e = n" "q \<noteq> 0"
    using primary_elem [OF ok, of n q] x by auto
  show ?case
  proof (cases "ce_id e = i")
    case True
    obtain c1 ds1 us1 vs1 where c1: "cache_drop_element env q c = Ret c1" "rel env c1 ds1 (us1 @ vs1) v" "us @ x # vs = us1 @ (ce_list_node e, q) # vs1"
        "shrinks c c1" "dom (c_elems c1) = dom (c_elems c) - {q}" "\<forall>x n. ok x n (c_world c) \<longrightarrow> ok x n (c_world c1)"
      using evict [OF Cons.prems(1) e(1)] by (elim exE conjE) (rule that)
    have "x \<notin> set us" "x \<notin> set vs" using pr(2) by auto
    then have eq: "us1 = us" "vs1 = vs" using c1(3) x e(2) append_Cons_eq_iff [of x us vs us1 vs1] by auto
    have "\<forall>q e. c_elems c1 q = Some e \<longrightarrow> ce_id e = i \<longrightarrow> q \<in> snd ` set vs"
    proof (intro allI impI)
      fix q' e' assume q': "c_elems c1 q' = Some e'" "ce_id e' = i"
      then obtain e'' where "c_elems c q' = Some e''" "ce_id e'' = i" using c1(4) unfolding shrinks_def by (metis prod.inject)
      then have "q' \<in> snd ` set (x # vs)" using Cons.prems(3) by blast
      moreover have "q' \<noteq> q" using q'(1) c1(5) by auto
      ultimately show "q' \<in> snd ` set vs" using x by auto
    qed
    from Cons.IH [OF c1(2) [unfolded eq] fuel(2) this] obtain c' ds' ps' where
        c': "primary_loop f (destroy_body env i) (if vs = [] then 0 else fst (hd vs)) c1 = Ret c'" "rel env c' ds' ps' v"
          "c_rwl c' = c_rwl c1" "\<forall>q e. c_elems c' q = Some e \<longrightarrow> ce_id e \<noteq> i" "\<forall>x n. ok x n (c_world c1) \<longrightarrow> ok x n (c_world c')"
      by (elim exE conjE) (rule that)
    have "primary_loop fuel (destroy_body env i) (if x # vs = [] then 0 else fst (hd (x # vs))) c = Ret c'"
      using nd e True c1(1) c'(1) fuel(1) x by (simp add: destroy_body_def)
    moreover have "c_rwl c' = c_rwl c" "\<forall>x n. ok x n (c_world c) \<longrightarrow> ok x n (c_world c')"
      using c1(4,6) c'(3,5) by (simp_all add: shrinks_def)
    ultimately show ?thesis using c'(2,4) by auto
  next
    case False
    have "rel env c ds ((us @ [x]) @ vs) v" using Cons.prems(1) by simp
    moreover have "\<forall>q e. c_elems c q = Some e \<longrightarrow> ce_id e = i \<longrightarrow> q \<in> snd ` set vs"
    proof (intro allI impI)
      fix q' e' assume q': "c_elems c q' = Some e'" "ce_id e' = i"
      then have "q' \<in> snd ` set (x # vs)" using Cons.prems(3) by blast
      moreover have "q' \<noteq> q" using q' e(1) False by auto
      ultimately show "q' \<in> snd ` set vs" using x by auto
    qed
    ultimately have "\<exists>c' ds' ps'. primary_loop f (destroy_body env i) (if vs = [] then 0 else fst (hd vs)) c = Ret c' \<and>
     rel env c' ds' ps' v \<and> c_rwl c' = c_rwl c \<and> (\<forall>q e. c_elems c' q = Some e \<longrightarrow> ce_id e \<noteq> i) \<and>
     (\<forall>x n. ok x n (c_world c) \<longrightarrow> ok x n (c_world c')) \<and> (vs = [] \<longrightarrow> c' = c)"
      by (rule Cons.IH [OF _ fuel(2)])
    moreover have "destroy_body env i q c = Ret c" using e False by (simp add: destroy_body_def)
    then have "primary_loop fuel (destroy_body env i) (if x # vs = [] then 0 else fst (hd (x # vs))) c =
        primary_loop f (destroy_body env i) (if vs = [] then 0 else fst (hd vs)) c"
      using fuel(1) nd e(3) x by simp
    ultimately show ?thesis by (elim exE conjE) auto
  qed
qed

lemma destroy_id:
  assumes "rel env c ds ps v" "rw_free (c_rwl c)" "length ps < fuel"
  shows "\<exists>c' ds' ps'. cache_destroy_all_id fuel env i c = Ret (0, c') \<and> rel env c' ds' ps' v \<and> c_rwl c' = c_rwl c \<and>
     (\<forall>q e. c_elems c' q = Some e \<longrightarrow> ce_id e \<noteq> i) \<and> (\<forall>x n. ok x n (c_world c) \<longrightarrow> ok x n (c_world c')) \<and>
     (ps = [] \<longrightarrow> c_world c' = c_world c)"
proof -
  have ok: "cache_ok env c ds ps" using assms(1) by (simp add: cache_rel_def)
  then have env: "env_ok env" by (rule cache_ok_env)
  have hd: "ll_head (c_primary_ll c) = (if ps = [] then 0 else fst (hd ps))"
    using ok ll_inv_head by (auto simp: cache_ok_def primary_ok_def ll_rel_def)
  have rel: "rel env (c_held c) ds ([] @ ps) v" using assms(1) by simp
  have "\<forall>q e. c_elems (c_held c) q = Some e \<longrightarrow> ce_id e = i \<longrightarrow> q \<in> snd ` set ps"
    using ok by (auto simp: cache_ok_def primary_ok_def)
  from destroy_loop [OF rel assms(3) this] obtain c' ds' ps' where c': "primary_loop fuel (destroy_body env i) (ll_head (c_primary_ll c)) (c_held c) = Ret c'" "rel env c' ds' ps' v"
      "c_rwl c' = c_rwl (c_held c)" "\<forall>q e. c_elems c' q = Some e \<longrightarrow> ce_id e \<noteq> i"
      "\<forall>x n. ok x n (c_world (c_held c)) \<longrightarrow> ok x n (c_world c')" "ps = [] \<longrightarrow> c' = c_held c"
    unfolding hd [symmetric] by (elim exE conjE) (rule that)
  have held: "c_rwl c' = (c_rwl c)\<lparr>rw_locks := 1\<rparr>" using c'(3) by simp
  have "cache_destroy_all_id fuel env i c = Ret (0, c'\<lparr>c_rwl := c_rwl c\<rparr>)"
    using c_lock_free [OF env assms(2)] c'(1) c_unlock_held [OF env assms(2) held]
    by (simp add: cache_destroy_all_id_def)
  moreover have "\<forall>x n. ok x n (c_world c) \<longrightarrow> ok x n (c_world (c'\<lparr>c_rwl := c_rwl c\<rparr>))"
    "ps = [] \<longrightarrow> c_world (c'\<lparr>c_rwl := c_rwl c\<rparr>) = c_world c" using c'(5,6) by simp_all
  moreover have "rel env (c'\<lparr>c_rwl := c_rwl c\<rparr>) ds' ps' v" using c'(2) by simp
  ultimately show ?thesis using c'(4) by (intro exI [of _ "c'\<lparr>c_rwl := c_rwl c\<rparr>"] exI [of _ ds'] exI [of _ ps']) simp
qed

lemma find_element:
  assumes "rel env c ds ps v" "rw_free (c_rwl c)"
  shows "\<exists>p c'. cache_find_element env i k c = Ret (p, c') \<and> rel env c' ds ps v \<and> c_rwl c' = c_rwl c \<and>
     c_elems c' = c_elems c \<and> c_world c' = c_world c \<and> found c' i k p \<and>
     (if p = 0 then content (c_world c) (i, k) = v (i, k)
      else \<exists>e. c_elems c p = Some e \<and> ce_data e = v (i, k) \<and> ok (i, k) (ce_length e) (c_world c))"
proof -
  have ok: "cache_ok env c ds ps" using assms(1) by (simp add: cache_rel_def)
  obtain p h where ph: "cache_find_element env i k c = Ret (p, (accessed_cache c)\<lparr>c_hash := Some h\<rparr>)" "found c i k p"
      "cache_ok env (c\<lparr>c_hash := Some h\<rparr>) ds ps"
    using cache_find_element_ok [OF ok assms(2)] by blast
  let ?c = "(accessed_cache c)\<lparr>c_hash := Some h\<rparr>"
  have "rel env (c\<lparr>c_hash := Some h\<rparr>) ds ps v" using rel_hash [OF assms(1) ph(3)] .
  then have "rel env (accessed_cache (c\<lparr>c_hash := Some h\<rparr>)) ds ps v" by simp
  moreover have "accessed_cache (c\<lparr>c_hash := Some h\<rparr>) = ?c" by (cases c) (simp add: accessed_cache_def)
  ultimately have "rel env ?c ds ps v" by simp
  moreover have "c_rwl ?c = c_rwl c" "c_elems ?c = c_elems c" "c_world ?c = c_world c" by (simp_all add: accessed_cache_def)
  moreover have "found ?c i k p" using ph(2) by (cases "p = 0") (simp_all add: found_def accessed_cache_def)
  moreover have "if p = 0 then content (c_world c) (i, k) = v (i, k)
      else \<exists>e. c_elems c p = Some e \<and> ce_data e = v (i, k) \<and> ok (i, k) (ce_length e) (c_world c)"
  proof (cases "p = 0")
    case True
    then have "\<forall>q e. c_elems c q = Some e \<longrightarrow> eid e \<noteq> (i, k)" using ph(2) by (simp add: found_def)
    then have "v (i, k) = content (c_world c) (i, k)" using assms(1) unfolding cache_rel_def cview_def by metis
    with True show ?thesis by simp
  next
    case False
    then obtain e where e: "c_elems c p = Some e" "eid e = (i, k)" using ph(2) by (auto simp: found_def)
    then have "v (eid e) = ce_data e" "ok (eid e) (ce_length e) (c_world c)"
      using assms(1) unfolding cache_rel_def cview_def by metis+
    with False e show ?thesis by simp
  qed
  ultimately show ?thesis using ph(1) by blast
qed

lemma init_rel:
  assumes "env_ok env"
  shows "\<exists>c. cache_init env alloc (Some sync) w = Ret c \<and> rel env c [] [] (content w) \<and> rw_free (c_rwl c) \<and>
     c_elems c = Map.empty \<and> c_world c = w"
proof -
  have fr: "rw_free (rwlock_create b)" for b by (rule rwlock_create_free)
  obtain h where h: "obind (hash_table_create True 0 1) (\<lambda>h.
     obind (hash_table_resize 0 env HASH_RESIZE_MODE_IGNORE 100000 h) (\<lambda>(_, h). hash_table_specify_function env 0 h)) = Ret h"
      "hash_rel env h Map.empty"
    using fr [of False] assms tbl_ok_empty [of 100000]
    by (simp add: hash_table_create_def hash_table_resize_def hash_table_specify_function_def lock_simps hash_rel_def Let_def)
  have ll: "ll_rel env la (ll_do_create False 0, Map.empty) []" if "la \<noteq> 0" for la
    using that assms ll_create_inv [of la Map.empty] by (simp add: ll_rel_def ll_create_free)
  let ?c = "\<lparr>c_dirty = 0, c_flags = (if alloc then CF_ALLOC else 0), c_count = 0, c_acc = 0, c_slow = 1000,
          c_syncing = False, c_hash = Some h, c_sync = Some sync, c_rwl = rwlock_create True,
          c_dirty_ll = ll_do_create False 0, c_primary_ll = ll_do_create False 0,
          c_elems = Map.empty, c_dnodes = Map.empty, c_pnodes = Map.empty, c_world = w\<rparr>"
  have "cache_init env alloc (Some sync) w = Ret ?c"
    using h(1) by (auto simp: cache_init_def outcome_simps)
  moreover have "rel env ?c [] [] (content w)"
    using ll h(2) by (auto simp: cache_rel_def cache_ok_def dirty_ok_def index_ok_def primary_ok_def cview_def)
  ultimately show ?thesis using fr by auto
qed

end

section \<open>Destroying a dirty cache\<close>

lemma rwlock_acquire_held:
  "env_ok env \<Longrightarrow> rw_free lk \<Longrightarrow> rwlock_acquire env (lk\<lparr>rw_locks := 1\<rparr>) RWL_WRITER = Block"
  by (simp add: rwlock_acquire_def env_ok_def rw_free_def bts_atomic_0)

text \<open>A cache whose count of dirty elements is one.\<close>

definition dirty_cache :: "nat cache_t" where
  "dirty_cache = \<lparr>c_dirty = 1, c_flags = CF_ALLOC, c_count = 1, c_acc = 0, c_slow = 1000, c_syncing = False, c_hash = None,
     c_sync = Some (\<lambda>e w. Ret (1, w + ce_length e)), c_rwl = rwlock_create True, c_dirty_ll = ll_do_create False 0,
     c_primary_ll = ll_do_create False 0, c_elems = Map.empty, c_dnodes = Map.empty, c_pnodes = Map.empty, c_world = 0\<rparr>"

text \<open>C31: \<^verbatim>\<open>cache_destroy\<close> never returns on a cache with dirty elements and a write-back function: it holds the
  cache's lock as a writer when it calls \<^verbatim>\<open>cache_sync\<close>, which waits for the same lock.\<close>

theorem cache_destroy_deadlock:
  assumes "env_ok env" "cl_caches s p = Some c" "rw_free (c_rwl c)" "c_dirty c \<noteq> 0" "c_sync c \<noteq> None"
  shows "cache_destroy fuel env sig p s = Block"
proof -
  let ?c = "(accessed_cache ((c_held c)\<lparr>c_hash := None\<rparr>))\<lparr>c_syncing := True\<rparr>"
  have "c_lock env False ?c = Block" "c_dirty ?c \<noteq> 0"
    using rwlock_acquire_held [OF assms(1,3)] assms(4) by (simp_all add: c_lock_def accessed_cache_def)
  then have "cache_sync_loop fuel env sig 1 ?c = Block" by (cases fuel) simp_all
  then have "cache_sync fuel env sig ((c_held c)\<lparr>c_hash := None\<rparr>) = Block"
    using assms(4,5) by (auto simp: cache_sync_def)
  then show ?thesis using assms(2) c_lock_free [OF assms(1,3)] by (simp add: cache_destroy_def Let_def)
qed

theorem cache_destroy_deadlock_witness:
  "cache_destroy 5 (task_env 1) (\<lambda>_. False) 9
     \<lparr>cl_list = ll_do_create True 0, cl_nodes = Map.empty, cl_caches = [9 \<mapsto> dirty_cache]\<rparr> = Block"
  by (rule cache_destroy_deadlock [where c = dirty_cache])
     (simp_all add: env_ok_def task_env_def rwlock_create_free dirty_cache_def)

end
