(* ===== verification/Device.thy ===== *)
theory Device
  imports Mutex "HOL-Library.Signed_Division"
begin

text \<open>
  The device tables \<^verbatim>\<open>kernel/dm/dev.c\<close>: per type a table of 64 chains, indexed by the major number modulo 64 and
  searched for its quotient.  A chain is the list of its entries.  A routine that does not find an entry goes on to
  read through the null pointer, which is \<open>Fault\<close>.

  The lemmas show that the tables implement a map from types and major numbers to the device structures, which
  registering and removing update, and that enumerating visits every registered device.
\<close>

abbreviation NUM_DT :: int where "NUM_DT \<equiv> 4"
abbreviation DT_CHAR :: int where "DT_CHAR \<equiv> 0"
abbreviation DT_BLOCK :: int where "DT_BLOCK \<equiv> 1"
abbreviation DH_SZ :: int where "DH_SZ \<equiv> 64"

record device_t =
  dv_ptr :: ptr
  dv_beta :: int

record devhash =
  dh_devs :: "device_t list list"
  dh_lock :: mutex

type_synonym devtab = "devhash list"

text \<open>\<^verbatim>\<open>MAJOR\<close> and \<^verbatim>\<open>MINOR\<close> of a device number.\<close>

definition MAJOR :: "int \<Rightarrow> int" where
  "MAJOR a = (a mod 2 ^ 32) div 2 ^ 16"

definition MINOR :: "int \<Rightarrow> int" where
  "MINOR a = a mod 2 ^ 16"

definition GETDEV :: "int \<Rightarrow> int \<Rightarrow> int" where
  "GETDEV maj mi = (maj mod 2 ^ 16) * 2 ^ 16 + mi mod 2 ^ 16"

definition dm_init_tables :: devtab where
  "dm_init_tables = replicate 4 \<lparr>dh_devs = replicate 64 [], dh_lock = mutex_create False 0\<rparr>"

text \<open>
  The common frame: the index is \<^verbatim>\<open>major % DH_SZ\<close>, negative for a negative number that is no multiple of 64, and
  the table is locked around the work.  \<open>f\<close> gets the chains, the index and the quotient.
\<close>

definition with_table ::
  "kenv \<Rightarrow> int \<Rightarrow> int \<Rightarrow> devtab \<Rightarrow> (device_t list list \<Rightarrow> nat \<Rightarrow> int \<Rightarrow> ('r \<times> device_t list list) outcome) \<Rightarrow> ('r \<times> devtab) outcome" where
  "with_table env type major t f =
     (let alpha = major smod DH_SZ; beta = major sdiv DH_SZ in
      if type < 0 \<or> alpha < 0 then Fault
      else obind (mutex_acquire env (dh_lock (t ! nat type))) (\<lambda>m.
        obind (f (dh_devs (t ! nat type)) (nat alpha) beta) (\<lambda>(r, devs).
        obind (mutex_release env m) (\<lambda>m.
        Ret (r, t[nat type := \<lparr>dh_devs = devs, dh_lock = m\<rparr>])))))"

text \<open>Both lookups end in \<^verbatim>\<open>if(!dt->ptr) return 0; return dt;\<close>.\<close>

definition checked :: "device_t option \<Rightarrow> device_t option outcome" where
  "checked dt = (case dt of None \<Rightarrow> Fault | Some d \<Rightarrow> Ret (if dv_ptr d = 0 then None else Some d))"

definition dm_get_device :: "kenv \<Rightarrow> int \<Rightarrow> int \<Rightarrow> devtab \<Rightarrow> (device_t option \<times> devtab) outcome" where
  "dm_get_device env type major t =
     (if type \<ge> NUM_DT then Ret (None, t)
      else obind (with_table env type major t (\<lambda>devs a b. Ret (find (\<lambda>d. dv_beta d = b) (devs ! a), devs))) (\<lambda>(dt, t).
        obind (checked dt) (\<lambda>r. Ret (r, t))))"

text \<open>
  The nested loops of the enumeration: \<open>n\<close> counts down along the chains.  A negative \<open>n\<close> never reaches zero, so every
  chain is run to its end.
\<close>

fun enum_chains :: "device_t list list \<Rightarrow> int \<Rightarrow> device_t option" where
  "enum_chains [] n = None"
| "enum_chains (c # cs) n =
     (if 0 \<le> n \<and> n < int (length c) then Some (c ! nat n) else enum_chains cs (n - int (length c)))"

definition dm_get_enumerated_device :: "kenv \<Rightarrow> int \<Rightarrow> int \<Rightarrow> devtab \<Rightarrow> (device_t option \<times> devtab) outcome" where
  "dm_get_enumerated_device env type n t =
     (if type \<ge> NUM_DT then Ret (None, t)
      else obind (with_table env type 0 t (\<lambda>devs _ _. Ret (enum_chains devs n, devs))) (\<lambda>(dt, t).
        obind (checked dt) (\<lambda>r. Ret (r, t))))"

definition dm_add_device :: "kenv \<Rightarrow> int \<Rightarrow> int \<Rightarrow> ptr \<Rightarrow> devtab \<Rightarrow> (int \<times> devtab) outcome" where
  "dm_add_device env type major str t =
     (if type \<ge> NUM_DT then Ret (- 1, t)
      else with_table env type major t (\<lambda>devs a b.
        Ret (0, devs[a := \<lparr>dv_ptr = str, dv_beta = b\<rparr> # devs ! a])))"

fun unlink_device :: "int \<Rightarrow> device_t list \<Rightarrow> device_t list" where
  "unlink_device b [] = []"
| "unlink_device b (d # ds) = (if dv_beta d \<noteq> b then d # unlink_device b ds else ds)"

definition dm_remove_device :: "kenv \<Rightarrow> int \<Rightarrow> int \<Rightarrow> devtab \<Rightarrow> (int \<times> devtab) outcome" where
  "dm_remove_device env type major t =
     (if type \<ge> NUM_DT then Ret (- 1, t)
      else with_table env type major t (\<lambda>devs a b. Ret (0, devs[a := unlink_device b (devs ! a)])))"

section \<open>Registrations\<close>

definition tab_ok :: "devtab \<Rightarrow> bool" where
  "tab_ok t \<longleftrightarrow> length t = 4 \<and> (\<forall>h \<in> set t. length (dh_devs h) = 64 \<and> mutex_free (dh_lock h))"

text \<open>What is registered under a type and a major number, the latest first.\<close>

definition registered :: "devtab \<Rightarrow> int \<Rightarrow> int \<Rightarrow> ptr list" where
  "registered t ty mj =
     map dv_ptr (filter (\<lambda>d. dv_beta d = mj div DH_SZ) (dh_devs (t ! nat ty) ! nat (mj mod DH_SZ)))"

lemma tab_init: "tab_ok dm_init_tables" "0 \<le> ty \<Longrightarrow> ty < NUM_DT \<Longrightarrow> registered dm_init_tables ty mj = []"
proof -
  show "tab_ok dm_init_tables" by (auto simp: tab_ok_def dm_init_tables_def mutex_create_free)
  assume ty: "0 \<le> ty" "ty < NUM_DT"
  then have "nat ty < 4" "nat (mj mod DH_SZ) < 64" by (auto simp: nat_less_iff)
  then show "registered dm_init_tables ty mj = []" by (simp add: registered_def dm_init_tables_def)
qed

lemma tab_ok_nth: "tab_ok t \<Longrightarrow> 0 \<le> ty \<Longrightarrow> ty < NUM_DT \<Longrightarrow>
    nat ty < length t \<and> length (dh_devs (t ! nat ty)) = 64 \<and> mutex_free (dh_lock (t ! nat ty))"
  by (auto simp: tab_ok_def nat_less_iff)

text \<open>Where a non-negative major number leads, and what the frame does on a good table.\<close>

lemma major_split:
  assumes "0 \<le> (mj :: int)"
  shows "mj smod DH_SZ = mj mod DH_SZ" "mj sdiv DH_SZ = mj div DH_SZ"
  using assms by (cases "mj = 0"; simp add: signed_modulo_int_def signed_divide_int_def)+

lemma with_table_ok:
  assumes "env_ok env" "tab_ok t" "0 \<le> ty" "ty < NUM_DT" "0 \<le> mj"
    "f (dh_devs (t ! nat ty)) (nat (mj mod DH_SZ)) (mj div DH_SZ) = Ret (r, devs)" "length devs = 64"
  shows "with_table env ty mj t f = Ret (r, t[nat ty := (t ! nat ty)\<lparr>dh_devs := devs\<rparr>])"
    and "tab_ok (t[nat ty := (t ! nat ty)\<lparr>dh_devs := devs\<rparr>])"
proof -
  have n: "mutex_free (dh_lock (t ! nat ty))" using tab_ok_nth [OF assms(2-4)] by simp
  have eq: "(t ! nat ty)\<lparr>dh_devs := devs\<rparr> = \<lparr>dh_devs = devs, dh_lock = dh_lock (t ! nat ty)\<rparr>" by (cases "t ! nat ty") simp
  show "with_table env ty mj t f = Ret (r, t[nat ty := (t ! nat ty)\<lparr>dh_devs := devs\<rparr>])"
    unfolding eq using n assms major_split [OF assms(5)]
    by (simp add: with_table_def Let_def lock_simps not_less)
  show "tab_ok (t[nat ty := (t ! nat ty)\<lparr>dh_devs := devs\<rparr>])"
    using assms(2,7) n by (auto simp: tab_ok_def dest!: set_update_subset_insert [THEN subsetD])
qed

lemma find_filter: "find P xs = (case filter P xs of [] \<Rightarrow> None | x # _ \<Rightarrow> Some x)"
  by (induction xs) auto

lemma filter_unlink: "filter (\<lambda>d. dv_beta d = b) (unlink_device b' ds) =
    (if b = b' then tl (filter (\<lambda>d. dv_beta d = b) ds) else filter (\<lambda>d. dv_beta d = b) ds)"
  by (induction ds) auto

text \<open>Changing one chain changes the registrations of the numbers that lead to it.\<close>

lemma registered_update:
  assumes "tab_ok t" "0 \<le> ty" "ty < NUM_DT" "0 \<le> ty'" "ty' < NUM_DT"
  shows "registered (t[nat ty := (t ! nat ty)\<lparr>dh_devs := (dh_devs (t ! nat ty))[nat (mj mod DH_SZ) := c]\<rparr>]) ty' mj' =
     (if ty' = ty \<and> mj' mod DH_SZ = mj mod DH_SZ then map dv_ptr (filter (\<lambda>d. dv_beta d = mj' div DH_SZ) c)
      else registered t ty' mj')"
proof -
  have "nat ty < length t" "length (dh_devs (t ! nat ty)) = 64" "nat (mj mod DH_SZ) < 64"
    using tab_ok_nth [OF assms(1-3)] by (simp_all add: nat_less_iff)
  moreover have "nat ty = nat ty' \<longleftrightarrow> ty' = ty" using assms(2,4) by auto
  moreover have "nat (mj mod DH_SZ) = nat (mj' mod DH_SZ) \<longleftrightarrow> mj' mod DH_SZ = mj mod DH_SZ" by (auto simp: eq_nat_nat_iff)
  ultimately show ?thesis by (simp add: registered_def nth_list_update)
qed

lemma same_major: "0 \<le> (a :: int) \<Longrightarrow> 0 \<le> b \<Longrightarrow> a mod DH_SZ = b mod DH_SZ \<and> a div DH_SZ = b div DH_SZ \<longleftrightarrow> a = b"
  by (metis div_mult_mod_eq)

definition dev_key :: "int \<Rightarrow> int \<Rightarrow> bool" where
  "dev_key ty mj \<longleftrightarrow> 0 \<le> ty \<and> ty < NUM_DT \<and> 0 \<le> mj"

lemma get_device_registered:
  assumes "env_ok env" "tab_ok t" "dev_key ty mj" "registered t ty mj = p # ps" "p \<noteq> 0"
  shows "\<exists>d. dm_get_device env ty mj t = Ret (Some d, t) \<and> dv_ptr d = p"
proof -
  let ?c = "dh_devs (t ! nat ty) ! nat (mj mod DH_SZ)"
  have k: "0 \<le> ty" "ty < NUM_DT" "0 \<le> mj" using assms(3) by (simp_all add: dev_key_def)
  obtain d ds where d: "filter (\<lambda>d. dv_beta d = mj div DH_SZ) ?c = d # ds" "dv_ptr d = p"
    using assms(4) by (auto simp: registered_def)
  have "with_table env ty mj t (\<lambda>devs a b. Ret (find (\<lambda>d. dv_beta d = b) (devs ! a), devs)) =
      Ret (Some d, t[nat ty := (t ! nat ty)\<lparr>dh_devs := dh_devs (t ! nat ty)\<rparr>])"
    by (rule with_table_ok(1)) (use assms k tab_ok_nth [OF assms(2) k(1,2)] d(1) in \<open>simp_all add: find_filter\<close>)
  then show ?thesis using assms(5) d(2) k(2) by (simp add: dm_get_device_def checked_def)
qed

lemma get_device_missing:
  assumes "env_ok env" "tab_ok t" "dev_key ty mj" "registered t ty mj = []"
  shows "dm_get_device env ty mj t = Fault"
proof -
  have k: "0 \<le> ty" "ty < NUM_DT" "0 \<le> mj" using assms(3) by (simp_all add: dev_key_def)
  have "with_table env ty mj t (\<lambda>devs a b. Ret (find (\<lambda>d. dv_beta d = b) (devs ! a), devs)) =
      Ret (None, t[nat ty := (t ! nat ty)\<lparr>dh_devs := dh_devs (t ! nat ty)\<rparr>])"
    by (rule with_table_ok(1))
       (use assms k tab_ok_nth [OF assms(2) k(1,2)] in \<open>simp_all add: find_filter registered_def\<close>)
  then show ?thesis using k(2) by (simp add: dm_get_device_def checked_def)
qed

section \<open>The tables as a map\<close>

datatype dvop = DGet int int | DAdd int int ptr | DRemove int int

fun dv_step :: "kenv \<Rightarrow> dvop \<Rightarrow> devtab \<Rightarrow> (ptr \<times> devtab) outcome" where
  "dv_step env (DGet ty mj) t = obind (dm_get_device env ty mj t) (\<lambda>(d, t). Ret (case d of None \<Rightarrow> 0 | Some d \<Rightarrow> dv_ptr d, t))"
| "dv_step env (DAdd ty mj p) t = obind (dm_add_device env ty mj p t) (\<lambda>(_, t). Ret (0, t))"
| "dv_step env (DRemove ty mj) t = obind (dm_remove_device env ty mj t) (\<lambda>(_, t). Ret (0, t))"

text \<open>The specification: a stack of registrations for every type and major number.\<close>

fun stacks_step :: "dvop \<Rightarrow> (int \<times> int \<Rightarrow> ptr list) \<Rightarrow> (ptr \<times> (int \<times> int \<Rightarrow> ptr list)) option" where
  "stacks_step (DGet ty mj) a = (if dev_key ty mj \<and> a (ty, mj) \<noteq> [] then Some (hd (a (ty, mj)), a) else None)"
| "stacks_step (DAdd ty mj p) a = (if dev_key ty mj \<and> p \<noteq> 0 then Some (0, a((ty, mj) := p # a (ty, mj))) else None)"
| "stacks_step (DRemove ty mj) a = (if dev_key ty mj then Some (0, a((ty, mj) := tl (a (ty, mj)))) else None)"

definition dv_rel :: "kenv \<Rightarrow> devtab \<Rightarrow> (int \<times> int \<Rightarrow> ptr list) \<Rightarrow> bool" where
  "dv_rel env t a \<longleftrightarrow> env_ok env \<and> tab_ok t \<and>
     (\<forall>ty mj. dev_key ty mj \<longrightarrow> a (ty, mj) = registered t ty mj \<and> 0 \<notin> set (a (ty, mj)))"

lemma add_device_ok:
  assumes "env_ok env" "tab_ok t" "dev_key ty mj"
  shows "\<exists>t'. dm_add_device env ty mj p t = Ret (0, t') \<and> tab_ok t' \<and>
     (\<forall>ty' mj'. dev_key ty' mj' \<longrightarrow> registered t' ty' mj' =
       (if ty' = ty \<and> mj' = mj then p # registered t ty mj else registered t ty' mj'))"
proof -
  have k: "0 \<le> ty" "ty < NUM_DT" "0 \<le> mj" using assms(3) by (simp_all add: dev_key_def)
  let ?a = "nat (mj mod DH_SZ)"
  let ?devs = "(dh_devs (t ! nat ty))[?a := \<lparr>dv_ptr = p, dv_beta = mj div DH_SZ\<rparr> # dh_devs (t ! nat ty) ! ?a]"
  let ?t = "t[nat ty := (t ! nat ty)\<lparr>dh_devs := ?devs\<rparr>]"
  have len: "length ?devs = 64" using tab_ok_nth [OF assms(2) k(1,2)] by simp
  have "dm_add_device env ty mj p t = Ret (0, ?t)" "tab_ok ?t"
    using with_table_ok [OF assms(1,2) k, of "\<lambda>devs a b. Ret (0 :: int, devs[a := \<lparr>dv_ptr = p, dv_beta = b\<rparr> # devs ! a])", OF refl len] k(2)
    by (simp_all add: dm_add_device_def)
  moreover have "registered ?t ty' mj' = (if ty' = ty \<and> mj' = mj then p # registered t ty mj else registered t ty' mj')"
    if "dev_key ty' mj'" for ty' mj'
  proof -
    have "registered ?t ty' mj' = (if ty' = ty \<and> mj' mod DH_SZ = mj mod DH_SZ \<and> mj' div DH_SZ = mj div DH_SZ
        then p # registered t ty mj else registered t ty' mj')"
      using that registered_update [OF assms(2) k(1,2), of ty' mj _ mj'] by (auto simp: dev_key_def registered_def)
    then show ?thesis using that same_major [of mj' mj] k(3) by (auto simp: dev_key_def)
  qed
  ultimately show ?thesis by blast
qed

lemma remove_device_ok:
  assumes "env_ok env" "tab_ok t" "dev_key ty mj"
  shows "\<exists>t'. dm_remove_device env ty mj t = Ret (0, t') \<and> tab_ok t' \<and>
     (\<forall>ty' mj'. dev_key ty' mj' \<longrightarrow> registered t' ty' mj' =
       (if ty' = ty \<and> mj' = mj then tl (registered t ty mj) else registered t ty' mj'))"
proof -
  have k: "0 \<le> ty" "ty < NUM_DT" "0 \<le> mj" using assms(3) by (simp_all add: dev_key_def)
  let ?a = "nat (mj mod DH_SZ)"
  let ?devs = "(dh_devs (t ! nat ty))[?a := unlink_device (mj div DH_SZ) (dh_devs (t ! nat ty) ! ?a)]"
  let ?t = "t[nat ty := (t ! nat ty)\<lparr>dh_devs := ?devs\<rparr>]"
  have len: "length ?devs = 64" using tab_ok_nth [OF assms(2) k(1,2)] by simp
  have "dm_remove_device env ty mj t = Ret (0, ?t)" "tab_ok ?t"
    using with_table_ok [OF assms(1,2) k, of "\<lambda>devs a b. Ret (0 :: int, devs[a := unlink_device b (devs ! a)])", OF refl len] k(2)
    by (simp_all add: dm_remove_device_def)
  moreover have "registered ?t ty' mj' = (if ty' = ty \<and> mj' = mj then tl (registered t ty mj) else registered t ty' mj')"
    if "dev_key ty' mj'" for ty' mj'
  proof -
    have "registered ?t ty' mj' = (if ty' = ty \<and> mj' mod DH_SZ = mj mod DH_SZ \<and> mj' div DH_SZ = mj div DH_SZ
        then tl (registered t ty mj) else registered t ty' mj')"
      using that registered_update [OF assms(2) k(1,2), of ty' mj _ mj']
      by (auto simp: dev_key_def registered_def filter_unlink map_tl)
    then show ?thesis using that same_major [of mj' mj] k(3) by (auto simp: dev_key_def)
  qed
  ultimately show ?thesis by blast
qed

interpretation dvsim: simulation "dv_step env" stacks_step "dv_rel env" for env
proof unfold_locales
  fix t a x r a'
  assume rel: "dv_rel env t a" and step: "stacks_step x a = Some (r, a')"
  have t: "env_ok env" "tab_ok t" and reg: "\<And>ty mj. dev_key ty mj \<Longrightarrow> a (ty, mj) = registered t ty mj \<and> 0 \<notin> set (a (ty, mj))"
    using rel unfolding dv_rel_def by blast+
  then have reg0: "\<And>ty mj. dev_key ty mj \<Longrightarrow> a (ty, mj) = registered t ty mj" "\<And>ty mj. dev_key ty mj \<Longrightarrow> 0 \<notin> set (registered t ty mj)"
    by metis+
  show "\<exists>t'. dv_step env x t = Ret (r, t') \<and> dv_rel env t' a'"
  proof (cases x)
    case (DGet ty mj)
    with step have k: "dev_key ty mj" "a (ty, mj) \<noteq> []" "r = hd (a (ty, mj))" "a' = a" by (auto split: if_splits)
    then obtain p ps where "a (ty, mj) = p # ps" by (cases "a (ty, mj)") auto
    then have p: "registered t ty mj = p # ps" "p \<noteq> 0" using reg [OF k(1)] by auto
    obtain d where "dm_get_device env ty mj t = Ret (Some d, t)" "dv_ptr d = p"
      using get_device_registered [OF t k(1) p] by blast
    with DGet k p rel reg [of ty mj] show ?thesis by simp
  next
    case (DAdd ty mj p)
    with step have k: "dev_key ty mj" "p \<noteq> 0" "r = 0" "a' = a((ty, mj) := p # a (ty, mj))" by (auto split: if_splits)
    obtain t' where t': "dm_add_device env ty mj p t = Ret (0, t')" "tab_ok t'"
        "\<forall>ty' mj'. dev_key ty' mj' \<longrightarrow> registered t' ty' mj' = (if ty' = ty \<and> mj' = mj then p # registered t ty mj else registered t ty' mj')"
      using add_device_ok [OF t k(1)] by blast
    have "dv_rel env t' a'" using t t' k by (auto simp: dv_rel_def reg0)
    with DAdd t'(1) k(3) show ?thesis by simp
  next
    case (DRemove ty mj)
    with step have k: "dev_key ty mj" "r = 0" "a' = a((ty, mj) := tl (a (ty, mj)))" by (auto split: if_splits)
    obtain t' where t': "dm_remove_device env ty mj t = Ret (0, t')" "tab_ok t'"
        "\<forall>ty' mj'. dev_key ty' mj' \<longrightarrow> registered t' ty' mj' = (if ty' = ty \<and> mj' = mj then tl (registered t ty mj) else registered t ty' mj')"
      using remove_device_ok [OF t k(1)] by blast
    have "0 \<notin> set (tl (a (ty, mj)))" using reg [OF k(1)] list.set_sel(2) [of "a (ty, mj)" 0] by (cases "a (ty, mj) = []") auto
    then have "dv_rel env t' a'" using t t' k by (auto simp: dv_rel_def reg0)
    with DRemove t'(1) k(2) show ?thesis by simp
  qed
qed

text \<open>C32: The device tables implement a stack of registrations for every device type and major number.  From the
  initial tables, every sequence of registrations of non-null structures, removals and lookups of registered numbers
  returns without a failed assertion, a lookup gives the structure registered last and not yet removed, and the
  numbers that share a chain do not disturb each other.\<close>

theorem devices_refine_stacks:
  assumes "env_ok env" "run_abs stacks_step ops (\<lambda>_. []) = Some (rs, a)"
  shows "\<exists>t. run_ops (dv_step env) ops dm_init_tables = Ret (rs, t) \<and> dv_rel env t a"
proof -
  have "dv_rel env dm_init_tables (\<lambda>_. [])" using assms(1) tab_init by (auto simp: dv_rel_def dev_key_def)
  then show ?thesis using dvsim.run_simulates [OF _ assms(2)] by blast
qed

theorem devices_refine_stacks_witness:
  "\<exists>t. run_ops (dv_step (task_env 1)) [DAdd DT_BLOCK 3 40, DAdd DT_BLOCK 67 50, DAdd DT_BLOCK 3 60, DGet DT_BLOCK 3,
      DRemove DT_BLOCK 3, DGet DT_BLOCK 3, DGet DT_BLOCK 67] dm_init_tables = Ret ([0, 0, 0, 60, 0, 40, 50], t) \<and>
    dv_rel (task_env 1) t (((\<lambda>_. [])((1, 3) := [40]))((1, 67) := [50]))"
  by (rule devices_refine_stacks) (auto simp: env_ok_def task_env_def dev_key_def fun_eq_iff)

text \<open>C33: Looking up a number under which nothing is registered does not give a null pointer: the lookup reads through
  it, for every type and every non-negative number of a well-formed table.\<close>

theorem dm_get_device_missing:
  assumes "env_ok env" "tab_ok t" "0 \<le> ty" "ty < NUM_DT" "0 \<le> mj" "registered t ty mj = []"
  shows "dm_get_device env ty mj t = Fault"
  using assms by (intro get_device_missing) (simp_all add: dev_key_def)

theorem dm_get_device_missing_witness: "dm_get_device (task_env 1) DT_BLOCK 10 dm_init_tables = Fault"
  by (rule dm_get_device_missing) (simp_all add: env_ok_def task_env_def tab_init)

end
