(* ===== verification/Block.thy ===== *)
theory Block
  imports Device Cache
begin

text \<open>
  Block devices \<^verbatim>\<open>kernel/dm/block.c\<close> and their cache \<^verbatim>\<open>kernel/dm/block_cache.c\<close>.  A driver is a record of functions
  that act on a state of their own, \<open>'d\<close>.  The state of the layer is the block cache, whose world holds the device
  tables, the registered block devices and the state of the drivers.  A buffer is the list of the bytes from its
  address on; what lies beyond its end must not be touched.

  Arguments stand for \<^verbatim>\<open>kmalloc\<close> (\<open>al\<close>, the addresses of a cache element and of its two list nodes), for the page
  counts (\<open>pm\<close>) and for the uninitialised bytes of the buffers on the stack (\<open>stk\<close>).
\<close>

section \<open>Devices\<close>

abbreviation READ :: int where "READ \<equiv> 2"
abbreviation WRITE :: int where "WRITE \<equiv> 3"
abbreviation BCACHE_READ :: u8 where "BCACHE_READ \<equiv> 1"
abbreviation BCACHE_WRITE :: u8 where "BCACHE_WRITE \<equiv> 2"
abbreviation ENXIO :: int where "ENXIO \<equiv> 6"

type_synonym 'd io_fn = "u8 list \<Rightarrow> 'd \<Rightarrow> ((int \<times> u8 list) \<times> 'd) outcome"

record 'd blockdevice =
  bd_blksz :: int
  bd_rw :: "(int \<Rightarrow> int \<Rightarrow> u64 \<Rightarrow> 'd io_fn) option"
  bd_rw_multiple :: "(int \<Rightarrow> int \<Rightarrow> u64 \<Rightarrow> int \<Rightarrow> 'd io_fn) option"
  bd_ioctl :: "(int \<Rightarrow> int \<Rightarrow> int \<Rightarrow> 'd \<Rightarrow> (int \<times> 'd) outcome) option"
  bd_select :: "(int \<Rightarrow> int \<Rightarrow> 'd \<Rightarrow> (int \<times> 'd) outcome) option"
  bd_cache :: u8
  bd_acl :: mutex

record 'd dmstate =
  dm_devs :: devtab
  dm_bds :: "ptr \<rightharpoonup> 'd blockdevice"
  dm_search_lock :: mutex
  dm_drv :: 'd

type_synonym 'd blk = "'d dmstate cache_t"

definition ioctl_stub :: "int \<Rightarrow> int \<Rightarrow> int \<Rightarrow> 'd \<Rightarrow> (int \<times> 'd) outcome" where
  "ioctl_stub a b c d = Ret (- 1, d)"

definition dm_lookup :: "kenv \<Rightarrow> int \<Rightarrow> 'd dmstate \<Rightarrow> (device_t option \<times> 'd dmstate) outcome" where
  "dm_lookup env major s = obind (dm_get_device env DT_BLOCK major (dm_devs s)) (\<lambda>(d, t). Ret (d, s\<lparr>dm_devs := t\<rparr>))"

text \<open>\<open>p\<close> is the address of the new structure.\<close>

definition dm_set_block_device ::
  "kenv \<Rightarrow> ptr \<Rightarrow> int \<Rightarrow> (int \<Rightarrow> int \<Rightarrow> u64 \<Rightarrow> 'd io_fn) option \<Rightarrow> int \<Rightarrow> (int \<Rightarrow> int \<Rightarrow> int \<Rightarrow> 'd \<Rightarrow> (int \<times> 'd) outcome) option \<Rightarrow>
   (int \<Rightarrow> int \<Rightarrow> u64 \<Rightarrow> int \<Rightarrow> 'd io_fn) option \<Rightarrow> (int \<Rightarrow> int \<Rightarrow> 'd \<Rightarrow> (int \<times> 'd) outcome) option \<Rightarrow> 'd dmstate \<Rightarrow> 'd dmstate outcome" where
  "dm_set_block_device env p maj f bs c m sl s =
     (let bd = \<lparr>bd_blksz = bs, bd_rw = f, bd_rw_multiple = m, bd_ioctl = (if c = None then Some ioctl_stub else c),
                bd_select = sl, bd_cache = BCACHE_WRITE OR BCACHE_READ, bd_acl = mutex_create False 0\<rparr>;
          s = s\<lparr>dm_bds := (dm_bds s)(p \<mapsto> bd)\<rparr> in
      obind (dm_add_device env DT_BLOCK maj p (dm_devs s)) (\<lambda>(_, t). Ret (s\<lparr>dm_devs := t\<rparr>)))"

text \<open>
  The search for a free number; \<^verbatim>\<open>int i\<close> becomes negative when it passes \<open>2\<^sup>3\<^sup>1 - 1\<close>, which ends the loop.
\<close>

fun find_major :: "nat \<Rightarrow> kenv \<Rightarrow> int \<Rightarrow> 'd dmstate \<Rightarrow> (int \<times> 'd dmstate) outcome" where
  "find_major 0 env i s = Block"
| "find_major (Suc fuel) env i s =
     (if i \<le> 0 then Ret (i, s)
      else obind (dm_lookup env i s) (\<lambda>(d, s). case d of None \<Rightarrow> Ret (i, s)
        | Some _ \<Rightarrow> find_major fuel env (if i + 1 \<ge> 2 ^ 31 then i + 1 - 2 ^ 32 else i + 1) s))"

definition dm_set_available_block_device ::
  "nat \<Rightarrow> kenv \<Rightarrow> ptr \<Rightarrow> (int \<Rightarrow> int \<Rightarrow> u64 \<Rightarrow> 'd io_fn) option \<Rightarrow> int \<Rightarrow> (int \<Rightarrow> int \<Rightarrow> int \<Rightarrow> 'd \<Rightarrow> (int \<times> 'd) outcome) option \<Rightarrow>
   (int \<Rightarrow> int \<Rightarrow> u64 \<Rightarrow> int \<Rightarrow> 'd io_fn) option \<Rightarrow> (int \<Rightarrow> int \<Rightarrow> 'd \<Rightarrow> (int \<times> 'd) outcome) option \<Rightarrow> 'd dmstate \<Rightarrow>
   (int \<times> 'd dmstate) outcome" where
  "dm_set_available_block_device fuel env p f bs c m sl s =
     obind (mutex_acquire env (dm_search_lock s)) (\<lambda>l.
     obind (find_major fuel env 10 (s\<lparr>dm_search_lock := l\<rparr>)) (\<lambda>(i, s).
     obind (if i > 0 then dm_set_block_device env p i f bs c m sl s else Ret s) (\<lambda>s.
     obind (mutex_release env (dm_search_lock s)) (\<lambda>l.
     Ret (if i < 0 then - EINVAL else i, s\<lparr>dm_search_lock := l\<rparr>)))))"

text \<open>\<^verbatim>\<open>dev->ptr\<close> is read once more after \<^verbatim>\<open>dm_remove_device\<close> has freed the entry; the value is the one read before.\<close>

definition dm_unregister_block_device :: "kenv \<Rightarrow> int \<Rightarrow> 'd dmstate \<Rightarrow> 'd dmstate outcome" where
  "dm_unregister_block_device env n s =
     obind (mutex_acquire env (dm_search_lock s)) (\<lambda>l.
     obind (dm_lookup env n (s\<lparr>dm_search_lock := l\<rparr>)) (\<lambda>(d, s).
     case d of
       None \<Rightarrow> obind (mutex_release env (dm_search_lock s)) (\<lambda>l. Ret (s\<lparr>dm_search_lock := l\<rparr>))
     | Some d \<Rightarrow>
         obind (dm_remove_device env DT_BLOCK n (dm_devs s)) (\<lambda>(_, t).
         obind (mutex_release env (dm_search_lock s)) (\<lambda>l.
         deref (dm_bds s) (dv_ptr d) (\<lambda>bd.
         obind (mutex_destroy env (bd_acl bd)) (\<lambda>_.
         Ret (s\<lparr>dm_devs := t, dm_search_lock := l, dm_bds := (dm_bds s)(dv_ptr d := None)\<rparr>)))))))"

section \<open>Calling the driver\<close>

text \<open>The device structure at \<open>p\<close>, or the one registered for \<open>dev\<close> when \<open>p\<close> is null; none gives \<^verbatim>\<open>-ENXIO\<close>.\<close>

definition with_bd ::
  "kenv \<Rightarrow> int \<Rightarrow> ptr \<Rightarrow> u8 list \<Rightarrow> 'd dmstate \<Rightarrow> (ptr \<Rightarrow> 'd dmstate \<Rightarrow> ((int \<times> u8 list) \<times> 'd dmstate) outcome) \<Rightarrow>
   ((int \<times> u8 list) \<times> 'd dmstate) outcome" where
  "with_bd env dev p buf s k =
     (if p \<noteq> 0 then k p s
      else obind (dm_lookup env (MAJOR dev) s) (\<lambda>(d, s). case d of None \<Rightarrow> Ret ((- ENXIO, buf), s) | Some d \<Rightarrow> k (dv_ptr d) s))"

text \<open>A call of a driver function under the device's mutex.\<close>

definition locked_io :: "kenv \<Rightarrow> ptr \<Rightarrow> 'd blockdevice \<Rightarrow> 'd io_fn \<Rightarrow> u8 list \<Rightarrow> 'd dmstate \<Rightarrow> ((int \<times> u8 list) \<times> 'd dmstate) outcome" where
  "locked_io env p bd f buf s =
     obind (mutex_acquire env (bd_acl bd)) (\<lambda>l.
     obind (f buf (dm_drv s)) (\<lambda>(r, d).
     obind (mutex_release env l) (\<lambda>l.
     Ret (r, s\<lparr>dm_drv := d, dm_bds := (dm_bds s)(p \<mapsto> bd\<lparr>bd_acl := l\<rparr>)\<rparr>))))"

definition dm_do_block_rw ::
  "kenv \<Rightarrow> int \<Rightarrow> int \<Rightarrow> u64 \<Rightarrow> u8 list \<Rightarrow> ptr \<Rightarrow> 'd dmstate \<Rightarrow> ((int \<times> u8 list) \<times> 'd dmstate) outcome" where
  "dm_do_block_rw env rw dev blk buf bd s =
     (let dev = (if dev < 0 then - dev else dev) in
      with_bd env dev bd buf s (\<lambda>p s. deref (dm_bds s) p (\<lambda>b.
        case bd_rw b of None \<Rightarrow> Ret ((- EIO, buf), s)
        | Some f \<Rightarrow> locked_io env p b (f rw (MINOR dev) blk) buf s)))"

definition dm_do_block_rw_multiple ::
  "kenv \<Rightarrow> int \<Rightarrow> int \<Rightarrow> u64 \<Rightarrow> u8 list \<Rightarrow> int \<Rightarrow> ptr \<Rightarrow> 'd dmstate \<Rightarrow> ((int \<times> u8 list) \<times> 'd dmstate) outcome" where
  "dm_do_block_rw_multiple env rw dev blk buf count bd s =
     (let dev = (if dev < 0 then - dev else dev) in
      with_bd env dev bd buf s (\<lambda>p s. deref (dm_bds s) p (\<lambda>b.
        case bd_rw_multiple b of None \<Rightarrow> Ret ((- EIO, buf), s)
        | Some f \<Rightarrow> locked_io env p b (f rw (MINOR dev) blk count) buf s)))"

section \<open>The cache of blocks\<close>

text \<open>A 64-bit identification passed as a \<^verbatim>\<open>dev_t\<close>, a signed 32-bit number.\<close>

definition as_dev :: "u64 \<Rightarrow> int" where
  "as_dev w = (let x = uint w mod 2 ^ 32 in if x \<ge> 2 ^ 31 then x - 2 ^ 32 else x)"

definition dm_block_cache_sync :: "kenv \<Rightarrow> ce_t \<Rightarrow> 'd dmstate \<Rightarrow> (int \<times> 'd dmstate) outcome" where
  "dm_block_cache_sync env e s =
     (if ce_dirty e then obind (dm_do_block_rw env WRITE (as_dev (ce_id e)) (ce_key e) (ce_data e) 0 s) (\<lambda>(_, s). Ret (1, s))
      else Ret (1, s))"

definition dm_disconnect_block_cache :: "nat \<Rightarrow> kenv \<Rightarrow> int \<Rightarrow> 'd blk \<Rightarrow> (int \<times> 'd blk) outcome" where
  "dm_disconnect_block_cache fuel env dev c = cache_destroy_all_id fuel env (word_of_int dev) c"

text \<open>A block that is not cached makes \<^verbatim>\<open>dm_block_cache_sync\<close> read through the null pointer.\<close>

definition dm_write_block_cache :: "kenv \<Rightarrow> int \<Rightarrow> u64 \<Rightarrow> 'd blk \<Rightarrow> (int \<times> 'd blk) outcome" where
  "dm_write_block_cache env dev blk c =
     obind (cache_find_element env (word_of_int dev) blk c) (\<lambda>(p, c).
     deref (c_elems c) p (\<lambda>e.
     obind (dm_block_cache_sync env e (c_world c)) (\<lambda>(_, s). Ret (1, c\<lparr>c_world := s\<rparr>))))"

text \<open>The new cache; \<^const>\<open>cache_create\<close> also enters it into the list of all caches.\<close>

definition dm_block_cache_init :: "kenv \<Rightarrow> 'd dmstate \<Rightarrow> 'd blk outcome" where
  "dm_block_cache_init env s = cache_init env True (Some (dm_block_cache_sync env)) s"

definition dm_cache_block ::
  "kenv \<Rightarrow> ('d blk \<Rightarrow> ptr \<times> ptr \<times> ptr) \<Rightarrow> u64 \<times> u64 \<Rightarrow> int \<Rightarrow> u64 \<Rightarrow> int \<Rightarrow> u8 list \<Rightarrow> 'd blk \<Rightarrow> (int \<times> 'd blk) outcome" where
  "dm_cache_block env al pm dev blk sz buf c =
     do_cache_object env pm (al c) (word_of_int (if dev < 0 then - dev else dev)) blk (nat sz) buf (\<not> dev < 0) c"

definition dm_get_block_cache :: "kenv \<Rightarrow> int \<Rightarrow> u64 \<Rightarrow> u8 list \<Rightarrow> 'd blk \<Rightarrow> ((int \<times> u8 list) \<times> 'd blk) outcome" where
  "dm_get_block_cache env dev blk buf c =
     obind (cache_find_element env (word_of_int dev) blk c) (\<lambda>(p, c).
     if p = 0 then Ret ((0, buf), c)
     else deref (c_elems c) p (\<lambda>e.
       if ce_length e \<le> length buf then Ret ((1, take (ce_length e) (ce_data e) @ drop (ce_length e) buf), c) else Fault))"

section \<open>Reading and writing blocks\<close>

text \<open>An action on the world of the cache.\<close>

definition on_world :: "('s \<Rightarrow> ('r \<times> 's) outcome) \<Rightarrow> 's cache_t \<Rightarrow> ('r \<times> 's cache_t) outcome" where
  "on_world f c = obind (f (c_world c)) (\<lambda>(r, s). Ret (r, c\<lparr>c_world := s\<rparr>))"

text \<open>\<^verbatim>\<open>dm_block_rw\<close> once the device structure is known.\<close>

definition block_rw_at ::
  "kenv \<Rightarrow> ('d blk \<Rightarrow> ptr \<times> ptr \<times> ptr) \<Rightarrow> u64 \<times> u64 \<Rightarrow> int \<Rightarrow> int \<Rightarrow> u64 \<Rightarrow> u8 list \<Rightarrow> ptr \<Rightarrow> 'd blk \<Rightarrow> ((int \<times> u8 list) \<times> 'd blk) outcome" where
  "block_rw_at env al pm rw dev blk buf p c =
     deref (dm_bds (c_world c)) p (\<lambda>bd.
     if rw = READ then
       obind (if bd_cache bd \<noteq> 0 then dm_get_block_cache env dev blk buf c else Ret ((0, buf), c)) (\<lambda>((ret, buf), c).
       if ret \<noteq> 0 then Ret ((bd_blksz bd, buf), c)
       else obind (on_world (dm_do_block_rw env rw dev blk buf p) c) (\<lambda>((ret, buf), c).
         if ret = bd_blksz bd \<and> has_flag (bd_cache bd) BCACHE_READ
         then obind (dm_cache_block env al pm (- dev) blk (bd_blksz bd) buf c) (\<lambda>(_, c). Ret ((ret, buf), c))
         else Ret ((ret, buf), c)))
     else if rw = WRITE then
       obind (if bd_cache bd \<noteq> 0 then dm_cache_block env al pm dev blk (bd_blksz bd) buf c else Ret (1, c)) (\<lambda>(ret, c).
       if ret = 0 then Ret ((bd_blksz bd, buf), c)
       else on_world (dm_do_block_rw env rw dev blk buf p) c)
     else Ret ((0, buf), c))"

definition dm_block_rw ::
  "kenv \<Rightarrow> ('d blk \<Rightarrow> ptr \<times> ptr \<times> ptr) \<Rightarrow> u64 \<times> u64 \<Rightarrow> int \<Rightarrow> int \<Rightarrow> u64 \<Rightarrow> u8 list \<Rightarrow> ptr \<Rightarrow> 'd blk \<Rightarrow> ((int \<times> u8 list) \<times> 'd blk) outcome" where
  "dm_block_rw env al pm rw dev blk buf p c =
     (if p \<noteq> 0 then block_rw_at env al pm rw dev blk buf p c
      else obind (on_world (dm_lookup env (MAJOR dev)) c) (\<lambda>(d, c).
        case d of None \<Rightarrow> Ret ((- ENXIO, buf), c) | Some d \<Rightarrow> block_rw_at env al pm rw dev blk buf (dv_ptr d) c))"

text \<open>A call with the buffer \<^verbatim>\<open>buf + off\<close>.\<close>

definition at_off :: "nat \<Rightarrow> u8 list \<Rightarrow> (u8 list \<Rightarrow> (('r \<times> u8 list) \<times> 's) outcome) \<Rightarrow> (('r \<times> u8 list) \<times> 's) outcome" where
  "at_off off buf f = obind (f (drop off buf)) (\<lambda>((r, b), s). Ret ((r, take off buf @ b), s))"

text \<open>The two loops of \<^verbatim>\<open>do_dm_block_read_multiple\<close>: reading block by block, and caching what was read at once.\<close>

fun read_singly ::
  "kenv \<Rightarrow> ('d blk \<Rightarrow> ptr \<times> ptr \<times> ptr) \<Rightarrow> u64 \<times> u64 \<Rightarrow> ptr \<Rightarrow> int \<Rightarrow> int \<Rightarrow> u64 \<Rightarrow> nat \<Rightarrow> nat \<Rightarrow> u8 list \<Rightarrow> 'd blk \<Rightarrow>
   ((nat \<times> u8 list) \<times> 'd blk) outcome" where
  "read_singly env al pm p bs dev start 0 count buf c = Ret ((count, buf), c)"
| "read_singly env al pm p bs dev start (Suc num) count buf c =
     obind (at_off (count * nat bs) buf (\<lambda>b. dm_block_rw env al pm READ dev (start + of_nat count) b p c)) (\<lambda>((ret, buf), c).
     if ret \<noteq> bs then Ret ((count, buf), c) else read_singly env al pm p bs dev start num (count + 1) buf c)"

fun cache_read ::
  "kenv \<Rightarrow> ('d blk \<Rightarrow> ptr \<times> ptr \<times> ptr) \<Rightarrow> u64 \<times> u64 \<Rightarrow> int \<Rightarrow> int \<Rightarrow> u64 \<Rightarrow> nat \<Rightarrow> nat \<Rightarrow> u8 list \<Rightarrow> 'd blk \<Rightarrow> 'd blk outcome" where
  "cache_read env al pm bs dev start 0 count buf c = Ret c"
| "cache_read env al pm bs dev start (Suc num) count buf c =
     obind (dm_cache_block env al pm (- dev) (start + of_nat count) bs (drop (count * nat bs) buf) c) (\<lambda>(_, c).
     cache_read env al pm bs dev start num (count + 1) buf c)"

text \<open>Division of an \<^verbatim>\<open>int\<close> assigned to an \<^verbatim>\<open>unsigned\<close>.\<close>

definition div_u32 :: "int \<Rightarrow> int \<Rightarrow> (nat \<Rightarrow> 'b outcome) \<Rightarrow> 'b outcome" where
  "div_u32 a b k = (if b = 0 then Fault else k (nat ((a sdiv b) mod 2 ^ 32)))"

definition do_dm_block_read_multiple ::
  "kenv \<Rightarrow> ('d blk \<Rightarrow> ptr \<times> ptr \<times> ptr) \<Rightarrow> u64 \<times> u64 \<Rightarrow> ptr \<Rightarrow> int \<Rightarrow> u64 \<Rightarrow> nat \<Rightarrow> u8 list \<Rightarrow> 'd blk \<Rightarrow>
   ((nat \<times> u8 list) \<times> 'd blk) outcome" where
  "do_dm_block_read_multiple env al pm p dev start num buf c =
     deref (dm_bds (c_world c)) p (\<lambda>bd.
     case bd_rw_multiple bd of
       None \<Rightarrow> read_singly env al pm p (bd_blksz bd) dev start num 0 buf c
     | Some f \<Rightarrow>
         obind (f READ (MINOR dev) start (int num) buf (dm_drv (c_world c))) (\<lambda>((ret, buf), d).
         let c = c\<lparr>c_world := (c_world c)\<lparr>dm_drv := d\<rparr>\<rparr> in
         div_u32 ret (bd_blksz bd) (\<lambda>num.
         if has_flag (bd_cache bd) BCACHE_READ
         then obind (cache_read env al pm (bd_blksz bd) dev start num 0 buf c) (\<lambda>c. Ret ((num, buf), c))
         else Ret ((num, buf), c))))"

text \<open>
  The loops of \<^verbatim>\<open>dm_block_read_multiple\<close>: the inner one looks for the next cached block after \<open>x - 1\<close>, reading it when it
  finds it.
\<close>

fun scan_uncached :: "nat \<Rightarrow> kenv \<Rightarrow> int \<Rightarrow> int \<Rightarrow> u64 \<Rightarrow> nat \<Rightarrow> u8 list \<Rightarrow> 'd blk \<Rightarrow> ((nat \<times> u8 list) \<times> 'd blk) outcome" where
  "scan_uncached 0 env bs dev start x buf c = Ret ((x, buf), c)"
| "scan_uncached (Suc left) env bs dev start x buf c =
     obind (at_off (x * nat bs) buf (\<lambda>b. dm_get_block_cache env dev (start + of_nat x) b c)) (\<lambda>((ret, buf), c).
     if ret \<noteq> 0 then Ret ((x, buf), c) else scan_uncached left env bs dev start (x + 1) buf c)"

text \<open>One unit of fuel per pass; every pass advances \<^verbatim>\<open>count\<close>.\<close>

fun read_cached_loop ::
  "nat \<Rightarrow> kenv \<Rightarrow> ('d blk \<Rightarrow> ptr \<times> ptr \<times> ptr) \<Rightarrow> u64 \<times> u64 \<Rightarrow> ptr \<Rightarrow> int \<Rightarrow> int \<Rightarrow> u64 \<Rightarrow> nat \<Rightarrow> nat \<Rightarrow> u8 list \<Rightarrow> 'd blk \<Rightarrow>
   ((nat \<times> u8 list) \<times> 'd blk) outcome" where
  "read_cached_loop 0 env al pm p bs dev start num count buf c = Block"
| "read_cached_loop (Suc fuel) env al pm p bs dev start num count buf c =
     (if \<not> count < num then Ret ((count, buf), c)
      else obind (at_off (count * nat bs) buf (\<lambda>b. dm_get_block_cache env dev (start + of_nat count) b c)) (\<lambda>((ret, buf), c).
        if ret \<noteq> 0 then read_cached_loop fuel env al pm p bs dev start num (count + 1) buf c
        else obind (scan_uncached (num - (count + 1)) env bs dev start (count + 1) buf c) (\<lambda>((x, buf), c).
          obind (if x - count = 1
                 then obind (at_off (count * nat bs) buf (\<lambda>b. dm_block_rw env al pm READ dev (start + of_nat count) b p c))
                        (\<lambda>((r, buf), c). div_u32 r bs (\<lambda>r. Ret ((r, buf), c)))
                 else at_off (count * nat bs) buf (\<lambda>b. do_dm_block_read_multiple env al pm p dev (start + of_nat count) (x - count) b c))
            (\<lambda>((r, buf), c).
          if r \<noteq> x - count then Ret (((count + r) mod 2 ^ 32, buf), c)
          else read_cached_loop fuel env al pm p bs dev start num (if x < num then x + 1 else x) buf c))))"

definition dm_block_read_multiple ::
  "kenv \<Rightarrow> ('d blk \<Rightarrow> ptr \<times> ptr \<times> ptr) \<Rightarrow> u64 \<times> u64 \<Rightarrow> ptr \<Rightarrow> int \<Rightarrow> u64 \<Rightarrow> nat \<Rightarrow> u8 list \<Rightarrow> 'd blk \<Rightarrow>
   ((nat \<times> u8 list) \<times> 'd blk) outcome" where
  "dm_block_read_multiple env al pm p dev start num buf c =
     deref (dm_bds (c_world c)) p (\<lambda>bd.
     if has_flag (bd_cache bd) BCACHE_READ then read_cached_loop (num + 1) env al pm p (bd_blksz bd) dev start num 0 buf c
     else do_dm_block_read_multiple env al pm p dev start num buf c)"

section \<open>Reading and writing bytes\<close>

text \<open>Conversions to \<^verbatim>\<open>unsigned\<close> and to \<^verbatim>\<open>int\<close>.\<close>

definition u32_of :: "int \<Rightarrow> nat" where
  "u32_of x = nat (x mod 2 ^ 32)"

definition s32_of :: "int \<Rightarrow> int" where
  "s32_of x = (let y = x mod 2 ^ 32 in if y \<ge> 2 ^ 31 then y - 2 ^ 32 else y)"

text \<open>\<^verbatim>\<open>memcpy(dst + doff, src + soff, n)\<close>; leaving one of the buffers is a fault.\<close>

definition blit :: "nat \<Rightarrow> u8 list \<Rightarrow> nat \<Rightarrow> u8 list \<Rightarrow> nat \<Rightarrow> (u8 list \<Rightarrow> 'b outcome) \<Rightarrow> 'b outcome" where
  "blit doff dst soff src n k =
     (if soff + n \<le> length src \<and> doff + n \<le> length dst
      then k (take doff dst @ take n (drop soff src) @ drop (doff + n) dst) else Fault)"

text \<open>The steps of \<^verbatim>\<open>dm_block_read\<close> after the first, possibly partial block; \<open>pos\<close> and \<open>count\<close> are what the first step left.\<close>

definition read_rest ::
  "kenv \<Rightarrow> ('d blk \<Rightarrow> ptr \<times> ptr \<times> ptr) \<Rightarrow> u64 \<times> u64 \<Rightarrow> ptr \<Rightarrow> int \<Rightarrow> int \<Rightarrow> u8 list \<Rightarrow> nat \<Rightarrow> nat \<Rightarrow> nat \<Rightarrow> nat \<Rightarrow> u8 list \<Rightarrow> 'd blk \<Rightarrow>
   ((int \<times> u8 list) \<times> 'd blk) outcome" where
  "read_rest env al pm p bsz dev tmp ende n pos count buf c =
     (let bs = u32_of bsz in
      if count \<ge> n then Ret ((s32_of (int count), buf), c)
      else let i = u32_of (int ((n - count) div bs)) in
      obind (if n - count \<ge> bs
             then at_off count buf (\<lambda>b. dm_block_read_multiple env al pm p dev (of_nat (pos div bs)) i b c)
             else Ret ((i, buf), c)) (\<lambda>((r, buf), c).
      if r \<noteq> i then Ret ((s32_of (int (count + r * bs)), buf), c)
      else let pos = (if n - count \<ge> bs then (pos + i * bs) mod 2 ^ 32 else pos);
               count = (if n - count \<ge> bs then (count + i * bs) mod 2 ^ 32 else count) in
      if count \<ge> n then Ret ((s32_of (int count), buf), c)
      else if ende mod bs \<noteq> 0 \<and> pos < ende then
        obind (dm_block_rw env al pm READ dev (of_nat (pos div bs)) tmp p c) (\<lambda>((ret, tmp), c).
        if ret \<noteq> bsz then Ret ((s32_of (int count), buf), c)
        else blit count buf 0 tmp (ende mod bs) (\<lambda>buf.
          Ret ((s32_of (int (count + ende mod bs)), buf), c)))
      else Ret ((s32_of (int count), buf), c)))"

definition dm_block_read ::
  "kenv \<Rightarrow> ('d blk \<Rightarrow> ptr \<times> ptr \<times> ptr) \<Rightarrow> u64 \<times> u64 \<Rightarrow> (nat \<Rightarrow> u8) \<Rightarrow> int \<Rightarrow> int \<Rightarrow> u8 list \<Rightarrow> nat \<Rightarrow> 'd blk \<Rightarrow>
   ((int \<times> u8 list) \<times> 'd blk) outcome" where
  "dm_block_read env al pm stk dev posit buf n c =
     obind (on_world (dm_lookup env (MAJOR dev)) c) (\<lambda>(d, c).
     case d of None \<Rightarrow> Ret ((- ENXIO, buf), c)
     | Some d \<Rightarrow> deref (dm_bds (c_world c)) (dv_ptr d) (\<lambda>bd.
       let p = dv_ptr d; bsz = bd_blksz bd; bs = u32_of bsz; pos = u32_of posit; ende = u32_of (int (pos + n));
           tmp = map stk [0..<bs] in
       if bs = 0 then Fault
       else if pos mod bs \<noteq> 0 then
         obind (dm_block_rw env al pm READ dev (of_nat (pos div bs)) tmp p c) (\<lambda>((ret, tmp), c).
         if ret \<noteq> bsz then Ret ((0, buf), c)
         else let count = min (bs - pos mod bs) n in
           blit 0 buf (pos mod bs) tmp n (\<lambda>buf.
           read_rest env al pm p bsz dev tmp ende n ((pos + count) mod 2 ^ 32) count buf c))
       else read_rest env al pm p bsz dev tmp ende n pos 0 buf c))"

text \<open>
  The loop of \<^verbatim>\<open>dm_block_write\<close> over \<open>k\<close> whole blocks; the first result says whether all were written, the others are
  \<^verbatim>\<open>pos\<close> and what is left of the buffer.
\<close>

fun write_blocks ::
  "nat \<Rightarrow> kenv \<Rightarrow> ('d blk \<Rightarrow> ptr \<times> ptr \<times> ptr) \<Rightarrow> u64 \<times> u64 \<Rightarrow> ptr \<Rightarrow> int \<Rightarrow> int \<Rightarrow> nat \<Rightarrow> u8 list \<Rightarrow> 'd blk \<Rightarrow>
   ((bool \<times> nat \<times> u8 list) \<times> 'd blk) outcome" where
  "write_blocks 0 env al pm p bsz dev pos buf c = Ret ((True, pos, buf), c)"
| "write_blocks (Suc k) env al pm p bsz dev pos buf c =
     obind (dm_block_rw env al pm WRITE dev (of_nat (pos div u32_of bsz)) buf p c) (\<lambda>((ret, _), c).
     if ret \<noteq> bsz then Ret ((False, pos, buf), c)
     else write_blocks k env al pm p bsz dev ((pos + u32_of bsz) mod 2 ^ 32) (drop (u32_of bsz) buf) c)"

text \<open>The steps of \<^verbatim>\<open>dm_block_write\<close> after the first, possibly partial block.\<close>

definition write_rest ::
  "kenv \<Rightarrow> ('d blk \<Rightarrow> ptr \<times> ptr \<times> ptr) \<Rightarrow> u64 \<times> u64 \<Rightarrow> ptr \<Rightarrow> int \<Rightarrow> int \<Rightarrow> u8 list \<Rightarrow> int \<Rightarrow> nat \<Rightarrow> nat \<Rightarrow> u8 list \<Rightarrow> 'd blk \<Rightarrow>
   (int \<times> 'd blk) outcome" where
  "write_rest env al pm p bsz dev buffer posit count pos buf c =
     (let bs = u32_of bsz in
      obind (write_blocks (count div bs) env al pm p bsz dev pos buf c) (\<lambda>((done, pos, buf), c).
      if \<not> done then Ret (s32_of (int pos - posit), c)
      else let count = count mod bs in
      if count = 0 then Ret (s32_of (int pos - posit), c)
      else obind (dm_block_rw env al pm READ dev (of_nat (pos div bs)) buffer p c) (\<lambda>((ret, buffer), c).
        if ret \<noteq> bsz then Ret (s32_of (int pos - posit), c)
        else blit 0 buffer 0 buf count (\<lambda>buffer.
          obind (dm_block_rw env al pm WRITE dev (of_nat (pos div bs)) buffer p c) (\<lambda>(_, c).
          Ret (s32_of (int ((pos + count) mod 2 ^ 32) - posit), c))))))"

definition dm_block_write ::
  "kenv \<Rightarrow> ('d blk \<Rightarrow> ptr \<times> ptr \<times> ptr) \<Rightarrow> u64 \<times> u64 \<Rightarrow> (nat \<Rightarrow> u8) \<Rightarrow> int \<Rightarrow> int \<Rightarrow> u8 list \<Rightarrow> nat \<Rightarrow> 'd blk \<Rightarrow> (int \<times> 'd blk) outcome" where
  "dm_block_write env al pm stk dev posit buf count c =
     obind (on_world (dm_lookup env (MAJOR dev)) c) (\<lambda>(d, c).
     case d of None \<Rightarrow> Ret (- ENXIO, c)
     | Some d \<Rightarrow> deref (dm_bds (c_world c)) (dv_ptr d) (\<lambda>bd.
       let p = dv_ptr d; bsz = bd_blksz bd; bs = u32_of bsz; pos = u32_of posit; buffer = map stk [0..<bs] in
       if count = 0 then Ret (0, c)
       else if bs = 0 then Fault
       else if pos mod bs \<noteq> 0 then
         obind (dm_block_rw env al pm READ dev (of_nat (pos div bs)) buffer p c) (\<lambda>((ret, buffer), c).
         if ret \<noteq> bsz then Ret (0, c)
         else let wr = min (bs - pos mod bs) count in
           blit (pos mod bs) buffer 0 buf wr (\<lambda>buffer.
           obind (dm_block_rw env al pm WRITE dev (of_nat (pos div bs)) buffer p c) (\<lambda>((ret, buffer), c).
           if ret \<noteq> bsz then Ret (0, c)
           else write_rest env al pm p bsz dev buffer posit (count - wr) ((pos + wr) mod 2 ^ 32) (drop wr buf) c)))
       else write_rest env al pm p bsz dev buffer posit count pos buf c))"

definition dm_block_device_rw ::
  "kenv \<Rightarrow> ('d blk \<Rightarrow> ptr \<times> ptr \<times> ptr) \<Rightarrow> u64 \<times> u64 \<Rightarrow> (nat \<Rightarrow> u8) \<Rightarrow> int \<Rightarrow> int \<Rightarrow> int \<Rightarrow> u8 list \<Rightarrow> nat \<Rightarrow> 'd blk \<Rightarrow>
   ((int \<times> u8 list) \<times> 'd blk) outcome" where
  "dm_block_device_rw env al pm stk mode dev off buf len c =
     (if mode = READ then dm_block_read env al pm stk dev off buf len c
      else if mode = WRITE then obind (dm_block_write env al pm stk dev off buf len c) (\<lambda>(r, c). Ret ((r, buf), c))
      else Ret ((- EINVAL, buf), c))"

section \<open>Control\<close>

text \<open>A call of a driver function that takes no buffer.\<close>

definition drv_call :: "('d \<Rightarrow> (int \<times> 'd) outcome) \<Rightarrow> 'd dmstate \<Rightarrow> (int \<times> 'd dmstate) outcome" where
  "drv_call f s = obind (f (dm_drv s)) (\<lambda>(r, d). Ret (r, s\<lparr>dm_drv := d\<rparr>))"

definition dm_block_ioctl :: "kenv \<Rightarrow> int \<Rightarrow> int \<Rightarrow> int \<Rightarrow> 'd dmstate \<Rightarrow> (int \<times> 'd dmstate) outcome" where
  "dm_block_ioctl env dev cmd arg s =
     obind (dm_lookup env (MAJOR dev) s) (\<lambda>(d, s).
     case d of None \<Rightarrow> Ret (- ENXIO, s)
     | Some d \<Rightarrow> deref (dm_bds s) (dv_ptr d) (\<lambda>bd.
       case bd_ioctl bd of None \<Rightarrow> Ret (0, s) | Some f \<Rightarrow> drv_call (f (MINOR dev) cmd arg) s))"

definition dm_block_device_select :: "kenv \<Rightarrow> int \<Rightarrow> int \<Rightarrow> 'd dmstate \<Rightarrow> (int \<times> 'd dmstate) outcome" where
  "dm_block_device_select env dev rw s =
     obind (dm_lookup env (MAJOR dev) s) (\<lambda>(d, s).
     case d of None \<Rightarrow> Ret (1, s)
     | Some d \<Rightarrow> deref (dm_bds s) (dv_ptr d) (\<lambda>bd.
       case bd_select bd of None \<Rightarrow> Ret (1, s) | Some f \<Rightarrow> drv_call (f (MINOR dev) rw) s))"

text \<open>\<open>sig i\<close> says whether a signal is pending after the \<open>i\<close>-th device.\<close>

fun sync_block_loop :: "nat \<Rightarrow> kenv \<Rightarrow> (nat \<Rightarrow> bool) \<Rightarrow> nat \<Rightarrow> 'd dmstate \<Rightarrow> 'd dmstate outcome" where
  "sync_block_loop 0 env sig i s = Block"
| "sync_block_loop (Suc fuel) env sig i s =
     obind (dm_get_enumerated_device env DT_BLOCK (int i) (dm_devs s)) (\<lambda>(d, t).
     case d of None \<Rightarrow> Ret (s\<lparr>dm_devs := t\<rparr>)
     | Some d \<Rightarrow> oassert (dv_ptr d \<noteq> 0) (deref (dm_bds s) (dv_ptr d) (\<lambda>bd.
       obind (case bd_ioctl bd of None \<Rightarrow> Ret (0, s\<lparr>dm_devs := t\<rparr>) | Some f \<Rightarrow> drv_call (f 0 (- 1) 0) (s\<lparr>dm_devs := t\<rparr>)) (\<lambda>(_, s).
       if sig (i + 1) then Ret s else sync_block_loop fuel env sig (i + 1) s))))"

definition dm_send_sync_block :: "nat \<Rightarrow> kenv \<Rightarrow> (nat \<Rightarrow> bool) \<Rightarrow> 'd dmstate \<Rightarrow> 'd dmstate outcome" where
  "dm_send_sync_block fuel env sig s = sync_block_loop fuel env sig 0 s"

text \<open>\<open>char_ioctl\<close> is \<^verbatim>\<open>dm_char_ioctl\<close>; the types are the format bits of a file mode.\<close>

definition dm_ioctl ::
  "(int \<Rightarrow> int \<Rightarrow> int \<Rightarrow> 'd dmstate \<Rightarrow> (int \<times> 'd dmstate) outcome) \<Rightarrow> kenv \<Rightarrow> u32 \<Rightarrow> int \<Rightarrow> int \<Rightarrow> int \<Rightarrow> 'd dmstate \<Rightarrow> (int \<times> 'd dmstate) outcome" where
  "dm_ioctl char_ioctl env type dev cmd arg s =
     (if type AND 0xF000 = 0x2000 then char_ioctl dev cmd arg s
      else if type AND 0xF000 = 0x6000 then dm_block_ioctl env dev cmd arg s
      else Ret (- EINVAL, s))"

section \<open>What is asked of a driver\<close>

text \<open>
  \<open>disk d\<close> gives the contents of all blocks in the state \<open>d\<close> of the drivers, by device number and block number.  The
  driver of \<open>dev\<close> transfers whole blocks below \<open>n\<close>, changes nothing but the block it writes, and keeps \<open>dok\<close>.
\<close>

abbreviation dev_id :: "int \<Rightarrow> u64" where "dev_id dev \<equiv> word_of_int dev"

definition driver_ok ::
  "('d \<Rightarrow> bool) \<Rightarrow> ('d \<Rightarrow> u64 \<times> u64 \<Rightarrow> u8 list) \<Rightarrow> int \<Rightarrow> nat \<Rightarrow> nat \<Rightarrow> (int \<Rightarrow> int \<Rightarrow> u64 \<Rightarrow> 'd io_fn) \<Rightarrow> bool" where
  "driver_ok dok disk dev n bs f \<longleftrightarrow> (\<forall>d blk buf. dok d \<longrightarrow> unat blk < n \<longrightarrow> bs \<le> length buf \<longrightarrow>
     length (disk d (dev_id dev, blk)) = bs \<and>
     (\<exists>d'. f READ (MINOR dev) blk buf d = Ret ((int bs, disk d (dev_id dev, blk) @ drop bs buf), d') \<and> dok d' \<and> disk d' = disk d) \<and>
     (\<exists>d'. f WRITE (MINOR dev) blk buf d = Ret ((int bs, buf), d') \<and> dok d' \<and>
        disk d' = (disk d)((dev_id dev, blk) := take bs buf)))"

definition multi_ok ::
  "('d \<Rightarrow> bool) \<Rightarrow> ('d \<Rightarrow> u64 \<times> u64 \<Rightarrow> u8 list) \<Rightarrow> int \<Rightarrow> nat \<Rightarrow> nat \<Rightarrow> (int \<Rightarrow> int \<Rightarrow> u64 \<Rightarrow> int \<Rightarrow> 'd io_fn) \<Rightarrow> bool" where
  "multi_ok dok disk dev n bs g \<longleftrightarrow> (\<forall>d blk buf m. dok d \<longrightarrow> unat blk + m \<le> n \<longrightarrow> m * bs \<le> length buf \<longrightarrow>
     (\<exists>d'. g READ (MINOR dev) blk (int m) buf d =
        Ret ((int (m * bs), concat (map (\<lambda>j. disk d (dev_id dev, blk + of_nat j)) [0..<m]) @ drop (m * bs) buf), d') \<and>
        dok d' \<and> disk d' = disk d))"

text \<open>A device number that is registered, with the structure it leads to.\<close>

definition attached ::
  "kenv \<Rightarrow> ('d \<Rightarrow> bool) \<Rightarrow> ('d \<Rightarrow> u64 \<times> u64 \<Rightarrow> u8 list) \<Rightarrow> (int \<Rightarrow> nat) \<Rightarrow> devtab \<Rightarrow> (ptr \<rightharpoonup> 'd blockdevice) \<Rightarrow>
   int \<Rightarrow> ptr \<Rightarrow> 'd blockdevice \<Rightarrow> bool" where
  "attached env dok disk nb devs bds dev p bd \<longleftrightarrow> env_ok env \<and> tab_ok devs \<and> 0 < dev \<and> dev < 2 ^ 31 \<and>
     (\<exists>ps. registered devs DT_BLOCK (MAJOR dev) = p # ps) \<and> p \<noteq> 0 \<and> bds p = Some bd \<and>
     0 < bd_blksz bd \<and> bd_blksz bd < 2 ^ 31 \<and> mutex_free (bd_acl bd) \<and> bd_cache bd = BCACHE_WRITE OR BCACHE_READ \<and>
     nb dev * nat (bd_blksz bd) < 2 ^ 31 \<and>
     (\<exists>f. bd_rw bd = Some f \<and> driver_ok dok disk dev (nb dev) (nat (bd_blksz bd)) f) \<and>
     (\<forall>g. bd_rw_multiple bd = Some g \<longrightarrow> multi_ok dok disk dev (nb dev) (nat (bd_blksz bd)) g)"

definition blk_ok ::
  "kenv \<Rightarrow> ('d \<Rightarrow> bool) \<Rightarrow> ('d \<Rightarrow> u64 \<times> u64 \<Rightarrow> u8 list) \<Rightarrow> (int \<Rightarrow> nat) \<Rightarrow> devtab \<Rightarrow> (ptr \<rightharpoonup> 'd blockdevice) \<Rightarrow>
   u64 \<times> u64 \<Rightarrow> nat \<Rightarrow> 'd dmstate \<Rightarrow> bool" where
  "blk_ok env dok disk nb devs bds x n s \<longleftrightarrow> dm_devs s = devs \<and> dm_bds s = bds \<and> dok (dm_drv s) \<and>
     (\<exists>dev p bd. fst x = dev_id dev \<and> attached env dok disk nb devs bds dev p bd \<and> unat (snd x) < nb dev \<and>
        n = nat (bd_blksz bd))"

lemma as_dev_id: "0 < dev \<Longrightarrow> dev < 2 ^ 31 \<Longrightarrow> as_dev (dev_id dev) = dev"
  by (simp add: as_dev_def uint_word_of_int Let_def)

lemma dev_id_inj:
  assumes "dev_id dev = dev_id dev'" "0 < dev" "dev < 2 ^ 31" "0 < dev'" "dev' < 2 ^ 31"
  shows "dev = dev'"
  using arg_cong [OF assms(1), of as_dev] unfolding as_dev_id [OF assms(2,3)] as_dev_id [OF assms(4,5)] .

lemma attached_unique:
  "attached env dok disk nb devs bds dev p bd \<Longrightarrow> attached env dok disk nb devs bds dev p' bd' \<Longrightarrow> p' = p \<and> bd' = bd"
  by (auto simp: attached_def)

lemma major_key: "0 < dev \<Longrightarrow> dev_key DT_BLOCK (MAJOR dev)"
  by (simp add: dev_key_def MAJOR_def)

lemma lookup_attached:
  assumes "attached env dok disk nb devs bds dev p bd" "dm_devs s = devs"
  shows "\<exists>d. dm_lookup env (MAJOR dev) s = Ret (Some d, s) \<and> dv_ptr d = p"
proof -
  obtain ps where a: "env_ok env" "tab_ok devs" "registered devs DT_BLOCK (MAJOR dev) = p # ps" "p \<noteq> 0" "0 < dev"
    using assms(1) by (auto simp: attached_def)
  show ?thesis using get_device_registered [OF a(1,2) major_key [OF a(5)] a(3,4)] assms(2)
    by (auto simp: dm_lookup_def)
qed

text \<open>Both transfers, through the tables or with the structure given.\<close>

lemma do_block_rw:
  assumes at: "attached env dok disk nb devs bds dev p bd" and s: "dm_devs s = devs" "dm_bds s = bds" "dok (dm_drv s)"
    and blk: "unat blk < nb dev" and len: "nat (bd_blksz bd) \<le> length buf" and q: "q = 0 \<or> q = p"
  shows "\<exists>d'. dm_do_block_rw env READ dev blk buf q s =
       Ret ((bd_blksz bd, disk (dm_drv s) (dev_id dev, blk) @ drop (nat (bd_blksz bd)) buf), s\<lparr>dm_drv := d'\<rparr>) \<and>
       dok d' \<and> disk d' = disk (dm_drv s)"
    and "\<exists>d'. dm_do_block_rw env WRITE dev blk buf q s = Ret ((bd_blksz bd, buf), s\<lparr>dm_drv := d'\<rparr>) \<and>
       dok d' \<and> disk d' = (disk (dm_drv s))((dev_id dev, blk) := take (nat (bd_blksz bd)) buf)"
    and "length (disk (dm_drv s) (dev_id dev, blk)) = nat (bd_blksz bd)"
proof -
  obtain f where f: "bd_rw bd = Some f" "driver_ok dok disk dev (nb dev) (nat (bd_blksz bd)) f"
    using at by (auto simp: attached_def)
  have a: "env_ok env" "0 < dev" "p \<noteq> 0" "bds p = Some bd" "mutex_free (bd_acl bd)" "0 < bd_blksz bd"
    using at by (auto simp: attached_def)
  obtain d where d: "dm_lookup env (MAJOR dev) s = Ret (Some d, s)" "dv_ptr d = p"
    using lookup_attached [OF at s(1)] by blast
  have io: "locked_io env p bd g buf s = obind (g buf (dm_drv s)) (\<lambda>(r, d). Ret (r, s\<lparr>dm_drv := d\<rparr>))" for g
  proof -
    have "(dm_bds s)(p \<mapsto> bd) = dm_bds s" using a(4) s(2) by auto
    then show ?thesis using a(1,5) by (simp add: locked_io_def lock_simps)
  qed
  have go: "dm_do_block_rw env rw dev blk buf q s = obind (f rw (MINOR dev) blk buf (dm_drv s)) (\<lambda>(r, d). Ret (r, s\<lparr>dm_drv := d\<rparr>))" for rw
    using q order_less_not_sym [OF a(2)]
    by (elim disjE) (simp_all add: dm_do_block_rw_def with_bd_def io a(3,4) s(2) d f(1))
  have dr: "length (disk (dm_drv s) (dev_id dev, blk)) = nat (bd_blksz bd)"
     "\<exists>d'. f READ (MINOR dev) blk buf (dm_drv s) = Ret ((int (nat (bd_blksz bd)), disk (dm_drv s) (dev_id dev, blk) @ drop (nat (bd_blksz bd)) buf), d') \<and>
        dok d' \<and> disk d' = disk (dm_drv s)"
     "\<exists>d'. f WRITE (MINOR dev) blk buf (dm_drv s) = Ret ((int (nat (bd_blksz bd)), buf), d') \<and> dok d' \<and>
        disk d' = (disk (dm_drv s))((dev_id dev, blk) := take (nat (bd_blksz bd)) buf)"
    using f(2) s(3) blk len unfolding driver_ok_def by blast+
  have bs: "int (nat (bd_blksz bd)) = bd_blksz bd" using a(6) by simp
  show "length (disk (dm_drv s) (dev_id dev, blk)) = nat (bd_blksz bd)" using dr(1) .
  show "\<exists>d'. dm_do_block_rw env READ dev blk buf q s =
       Ret ((bd_blksz bd, disk (dm_drv s) (dev_id dev, blk) @ drop (nat (bd_blksz bd)) buf), s\<lparr>dm_drv := d'\<rparr>) \<and>
       dok d' \<and> disk d' = disk (dm_drv s)"
    using dr(2) unfolding go bs by auto
  show "\<exists>d'. dm_do_block_rw env WRITE dev blk buf q s = Ret ((bd_blksz bd, buf), s\<lparr>dm_drv := d'\<rparr>) \<and>
       dok d' \<and> disk d' = (disk (dm_drv s))((dev_id dev, blk) := take (nat (bd_blksz bd)) buf)"
    using dr(3) unfolding go bs by auto
qed

text \<open>The write-back function of the block cache keeps the contract of the object cache.\<close>

interpretation blkc: backing_store "dm_block_cache_sync env" "\<lambda>s. disk (dm_drv s)" "blk_ok env dok disk nb devs bds"
  for env dok disk nb devs bds
proof unfold_locales
  fix e s
  assume ok: "blk_ok env dok disk nb devs bds (eid e) (ce_length e) s" and len: "length (ce_data e) = ce_length e" and "ce_dirty e"
  obtain dev p bd where x: "ce_id e = dev_id dev" "attached env dok disk nb devs bds dev p bd" "unat (ce_key e) < nb dev"
      "ce_length e = nat (bd_blksz bd)" and s: "dm_devs s = devs" "dm_bds s = bds" "dok (dm_drv s)"
    using ok by (auto simp: blk_ok_def)
  have "as_dev (ce_id e) = dev" using x(1,2) as_dev_id by (auto simp: attached_def)
  moreover obtain d' where "dm_do_block_rw env WRITE dev (ce_key e) (ce_data e) 0 s = Ret ((bd_blksz bd, ce_data e), s\<lparr>dm_drv := d'\<rparr>)"
      "dok d'" "disk d' = (disk (dm_drv s))((dev_id dev, ce_key e) := take (nat (bd_blksz bd)) (ce_data e))"
    using do_block_rw(2) [OF x(2) s x(3), of "ce_data e" 0] len x(4) by auto
  ultimately show "\<exists>r s'. dm_block_cache_sync env e s = Ret (r, s') \<and> disk (dm_drv s') = (disk (dm_drv s))(eid e := ce_data e) \<and>
      (\<forall>x n. blk_ok env dok disk nb devs bds x n s \<longrightarrow> blk_ok env dok disk nb devs bds x n s')"
    using \<open>ce_dirty e\<close> len x(1,4) by (auto simp: dm_block_cache_sync_def blk_ok_def)
next
  fix e :: ce_t and s
  assume "\<not> ce_dirty e"
  then show "\<exists>r. dm_block_cache_sync env e s = Ret (r, s)" by (simp add: dm_block_cache_sync_def)
next
  fix x n s n'
  assume ok: "blk_ok env dok disk nb devs bds x n s" "blk_ok env dok disk nb devs bds x n' s"
  obtain dev p bd where a: "fst x = dev_id dev" "attached env dok disk nb devs bds dev p bd" "n = nat (bd_blksz bd)"
    using ok(1) by (auto simp: blk_ok_def)
  obtain dev' p' bd' where b: "fst x = dev_id dev'" "attached env dok disk nb devs bds dev' p' bd'" "n' = nat (bd_blksz bd')"
    using ok(2) by (auto simp: blk_ok_def)
  have "dev = dev'" by (rule dev_id_inj) (use a(1,2) b(1,2) in \<open>auto simp: attached_def\<close>)
  then show "n = n'" using attached_unique [OF a(2)] a(3) b(2,3) by simp
qed

section \<open>Blocks seen through the cache\<close>

text \<open>The fixed surroundings of the layer: environment, drivers, tables, allocator and page counts.\<close>

record 'd conf =
  k_env :: kenv
  k_ok :: "'d \<Rightarrow> bool"
  k_disk :: "'d \<Rightarrow> u64 \<times> u64 \<Rightarrow> u8 list"
  k_nb :: "int \<Rightarrow> nat"
  k_devs :: devtab
  k_bds :: "ptr \<rightharpoonup> 'd blockdevice"
  k_al :: "'d blk \<Rightarrow> ptr \<times> ptr \<times> ptr"
  k_pm :: "u64 \<times> u64"

text \<open>\<^verbatim>\<open>kmalloc\<close> returns memory that is not in use, and the machine has memory.\<close>

definition alloc_ok :: "('w cache_t \<Rightarrow> ptr \<times> ptr \<times> ptr) \<Rightarrow> bool" where
  "alloc_ok al \<longleftrightarrow> (\<forall>env c ds ps. cache_ok env c ds ps \<longrightarrow> (case al c of (p, dn, ln) \<Rightarrow>
     p \<noteq> 0 \<and> c_elems c p = None \<and> dn \<noteq> 0 \<and> dn \<notin> fst ` set ds \<and> ln \<noteq> 0 \<and> ln \<notin> fst ` set ps))"

abbreviation k_blk :: "'d conf \<Rightarrow> u64 \<times> u64 \<Rightarrow> nat \<Rightarrow> 'd dmstate \<Rightarrow> bool" where
  "k_blk K \<equiv> blk_ok (k_env K) (k_ok K) (k_disk K) (k_nb K) (k_devs K) (k_bds K)"

abbreviation k_content :: "'d conf \<Rightarrow> 'd dmstate \<Rightarrow> u64 \<times> u64 \<Rightarrow> u8 list" where
  "k_content K \<equiv> \<lambda>s. k_disk K (dm_drv s)"

abbreviation k_att :: "'d conf \<Rightarrow> int \<Rightarrow> ptr \<Rightarrow> 'd blockdevice \<Rightarrow> bool" where
  "k_att K \<equiv> attached (k_env K) (k_ok K) (k_disk K) (k_nb K) (k_devs K) (k_bds K)"

abbreviation k_rel where
  "k_rel K \<equiv> cache_rel (dm_block_cache_sync (k_env K)) (k_content K) (k_blk K) (k_env K)"

definition world_ok :: "'d conf \<Rightarrow> 'd dmstate \<Rightarrow> bool" where
  "world_ok K s \<longleftrightarrow> dm_devs s = k_devs K \<and> dm_bds s = k_bds K \<and> k_ok K (dm_drv s)"

definition brel :: "'d conf \<Rightarrow> 'd blk \<Rightarrow> (u64 \<times> u64 \<Rightarrow> u8 list) \<Rightarrow> bool" where
  "brel K c v \<longleftrightarrow> alloc_ok (k_al K) \<and> snd (k_pm K) \<noteq> 0 \<and> rw_free (c_rwl c) \<and> world_ok K (c_world c) \<and>
     (\<exists>ds ps. k_rel K c ds ps v)"

text \<open>A block of an attached device.\<close>

definition blk_of :: "'d conf \<Rightarrow> int \<Rightarrow> ptr \<Rightarrow> 'd blockdevice \<Rightarrow> u64 \<Rightarrow> bool" where
  "blk_of K dev p bd blk \<longleftrightarrow> k_att K dev p bd \<and> unat blk < k_nb K dev"

lemma blk_of_ok: "world_ok K s \<Longrightarrow> blk_of K dev p bd blk \<Longrightarrow> k_blk K (dev_id dev, blk) n s \<longleftrightarrow> n = nat (bd_blksz bd)"
proof
  assume w: "world_ok K s" and b: "blk_of K dev p bd blk"
  have me: "k_blk K (dev_id dev, blk) (nat (bd_blksz bd)) s"
    using w b by (auto simp: world_ok_def blk_of_def blk_ok_def)
  show "n = nat (bd_blksz bd)" if "k_blk K (dev_id dev, blk) n s"
    using blkc.one_size [OF that me] .
  show "k_blk K (dev_id dev, blk) n s" if "n = nat (bd_blksz bd)" using me that by simp
qed

text \<open>Preserving one block's place in the world means that the tables are unchanged.\<close>

lemma world_ok_keep:
  assumes "world_ok K s" "\<forall>x n. k_blk K x n s \<longrightarrow> k_blk K x n s'" "blk_of K dev p bd blk"
  shows "world_ok K s'"
proof -
  have "k_blk K (dev_id dev, blk) (nat (bd_blksz bd)) s'" using assms blk_of_ok [OF assms(1,3)] by blast
  then show ?thesis by (simp add: blk_ok_def world_ok_def)
qed

lemma brel_length:
  assumes "brel K c v" "blk_of K dev p bd blk"
  shows "length (v (dev_id dev, blk)) = nat (bd_blksz bd)"
    and "length (k_content K (c_world c) (dev_id dev, blk)) = nat (bd_blksz bd)"
proof -
  obtain ds ps where r: "k_rel K c ds ps v" "world_ok K (c_world c)" using assms(1) by (auto simp: brel_def)
  have c: "length (k_content K (c_world c) (dev_id dev, blk)) = nat (bd_blksz bd)"
    using do_block_rw(3) [of "k_env K" "k_ok K" "k_disk K" "k_nb K" "k_devs K" "k_bds K" dev p bd "c_world c" blk
        "replicate (nat (bd_blksz bd)) 0" 0] assms(2) r(2) by (simp add: blk_of_def world_ok_def)
  then show "length (k_content K (c_world c) (dev_id dev, blk)) = nat (bd_blksz bd)" .
  show "length (v (dev_id dev, blk)) = nat (bd_blksz bd)"
  proof (cases "v (dev_id dev, blk) = k_content K (c_world c) (dev_id dev, blk)")
    case False
    then obtain p e where e: "c_elems c p = Some e" "eid e = (dev_id dev, blk)"
      using r(1) unfolding cache_rel_def cview_def by metis
    then have "v (dev_id dev, blk) = ce_data e" "k_blk K (dev_id dev, blk) (ce_length e) (c_world c)"
      "length (ce_data e) = ce_length e"
      using r(1) unfolding cache_rel_def cview_def cache_ok_def by metis+
    then show ?thesis using blk_of_ok [OF r(2) assms(2)] by simp
  qed (use c in simp)
qed

lemma get_block_cache:
  assumes "brel K c v" "blk_of K dev p bd blk" "nat (bd_blksz bd) \<le> length buf"
  shows "\<exists>r buf' c'. dm_get_block_cache (k_env K) dev blk buf c = Ret ((r, buf'), c') \<and> brel K c' v \<and> c_world c' = c_world c \<and>
     c_elems c' = c_elems c \<and>
     (r = 1 \<and> buf' = v (dev_id dev, blk) @ drop (nat (bd_blksz bd)) buf \<or>
      r = 0 \<and> buf' = buf \<and> k_content K (c_world c) (dev_id dev, blk) = v (dev_id dev, blk))"
proof -
  obtain ds ps where r: "k_rel K c ds ps v" "rw_free (c_rwl c)" "world_ok K (c_world c)" using assms(1) by (auto simp: brel_def)
  obtain q c' where q: "cache_find_element (k_env K) (dev_id dev) blk c = Ret (q, c')" "k_rel K c' ds ps v" "c_rwl c' = c_rwl c"
      "c_elems c' = c_elems c" "c_world c' = c_world c"
      "if q = 0 then k_content K (c_world c) (dev_id dev, blk) = v (dev_id dev, blk)
       else \<exists>e. c_elems c q = Some e \<and> ce_data e = v (dev_id dev, blk) \<and> k_blk K (dev_id dev, blk) (ce_length e) (c_world c)"
    using blkc.find_element [OF r(1,2), of "dev_id dev" blk] by blast
  have rel: "brel K c' v" using assms(1) q(2,3,5) by (auto simp: brel_def)
  show ?thesis
  proof (cases "q = 0")
    case True
    then show ?thesis using q rel by (simp add: dm_get_block_cache_def)
  next
    case False
    then obtain e where e: "c_elems c q = Some e" "ce_data e = v (dev_id dev, blk)" "k_blk K (dev_id dev, blk) (ce_length e) (c_world c)"
      using q(6) by auto
    have "ce_length e = nat (bd_blksz bd)" using e(3) blk_of_ok [OF r(3) assms(2)] by simp
    then show ?thesis using False q(1,4,5) e(1,2) rel assms(3) brel_length(1) [OF assms(1,2)]
      by (simp add: dm_get_block_cache_def)
  qed
qed

lemma cache_block:
  assumes "brel K c v" "blk_of K dev p bd blk" "nat (bd_blksz bd) \<le> length buf"
    "d = dev \<or> d = - dev \<and> k_content K (c_world c) (dev_id dev, blk) = take (nat (bd_blksz bd)) buf"
  shows "\<exists>c'. dm_cache_block (k_env K) (k_al K) (k_pm K) d blk (bd_blksz bd) buf c = Ret (0, c') \<and>
     brel K c' (v((dev_id dev, blk) := take (nat (bd_blksz bd)) buf)) \<and>
     (\<forall>x. k_content K (c_world c) x = v x \<longrightarrow> k_content K (c_world c') x = v x)"
proof -
  obtain ds ps where r: "k_rel K c ds ps v" "rw_free (c_rwl c)" "world_ok K (c_world c)" "alloc_ok (k_al K)" "snd (k_pm K) \<noteq> 0"
    using assms(1) by (auto simp: brel_def)
  obtain a dn ln where al: "k_al K c = (a, dn, ln)" by (cases "k_al K c")
  have ok: "cache_ok (k_env K) c ds ps" using r(1) by (simp add: cache_rel_def)
  have fr: "a \<noteq> 0" "c_elems c a = None" "dn \<noteq> 0" "dn \<notin> fst ` set ds" "ln \<noteq> 0" "ln \<notin> fst ` set ps"
    using r(4) [unfolded alloc_ok_def, rule_format, OF ok] unfolding al prod.case by blast+
  have dev: "0 < dev" using assms(2) by (simp add: blk_of_def attached_def)
  have kb: "k_blk K (dev_id dev, blk) (nat (bd_blksz bd)) (c_world c)" using blk_of_ok [OF r(3) assms(2)] by simp
  have cl: "\<not> d < 0 \<or> k_content K (c_world c) (dev_id dev, blk) = take (nat (bd_blksz bd)) buf" using assms(4) dev by auto
  obtain c' ds' ps' where c': "do_cache_object (k_env K) (k_pm K) (a, dn, ln) (dev_id dev) blk (nat (bd_blksz bd)) buf (\<not> d < 0) c = Ret (0, c')"
     "k_rel K c' ds' ps' (v((dev_id dev, blk) := take (nat (bd_blksz bd)) buf))" "c_rwl c' = c_rwl c"
     "\<forall>x n. k_blk K x n (c_world c) \<longrightarrow> k_blk K x n (c_world c')"
     "\<forall>x. k_content K (c_world c) x = v x \<longrightarrow> k_content K (c_world c') x = v x"
    using blkc.cache_object [OF r(1,2,5) fr kb assms(3) refl cl] by blast
  have "(if d < 0 then - d else d) = dev" using assms(4) dev by auto
  then have "dm_cache_block (k_env K) (k_al K) (k_pm K) d blk (bd_blksz bd) buf c = Ret (0, c')"
    using c'(1) al by (simp add: dm_cache_block_def)
  moreover have "brel K c' (v((dev_id dev, blk) := take (nat (bd_blksz bd)) buf))"
    using r c'(2,3) world_ok_keep [OF r(3) c'(4) assms(2)] by (auto simp: brel_def)
  ultimately show ?thesis using c'(5) by blast
qed

text \<open>The driver may change its state as long as the contents stay.\<close>

lemma brel_drv:
  assumes "brel K c v" "k_ok K d'" "k_disk K d' = k_disk K (dm_drv (c_world c))"
  shows "brel K (c\<lparr>c_world := (c_world c)\<lparr>dm_drv := d'\<rparr>\<rparr>) v"
proof -
  let ?c = "c\<lparr>c_world := (c_world c)\<lparr>dm_drv := d'\<rparr>\<rparr>"
  obtain ds ps where r: "k_rel K c ds ps v" using assms(1) by (auto simp: brel_def)
  have "k_blk K x n (c_world ?c)" if "k_blk K x n (c_world c)" for x n using that assms(2) by (auto simp: blk_ok_def)
  moreover have "cview (k_content K) ?c v" using r assms(3) by (simp add: cache_rel_def cview_def)
  ultimately have "k_rel K ?c ds ps v" using r by (simp add: cache_rel_def)
  then show ?thesis using assms(1,2) by (auto simp: brel_def world_ok_def)
qed

lemma block_read:
  assumes "brel K c v" "blk_of K dev p bd blk" "nat (bd_blksz bd) \<le> length buf" "q = 0 \<or> q = p"
  shows "\<exists>c'. dm_block_rw (k_env K) (k_al K) (k_pm K) READ dev blk buf q c =
       Ret ((bd_blksz bd, v (dev_id dev, blk) @ drop (nat (bd_blksz bd)) buf), c') \<and> brel K c' v"
proof -
  let ?bs = "nat (bd_blksz bd)" and ?x = "(dev_id dev, blk)"
  have at: "k_att K dev p bd" "unat blk < k_nb K dev" using assms(2) by (simp_all add: blk_of_def)
  have a: "p \<noteq> 0" "k_bds K p = Some bd" "bd_cache bd = BCACHE_WRITE OR BCACHE_READ" using at(1) by (auto simp: attached_def)
  have w: "dm_devs (c_world c) = k_devs K" "dm_bds (c_world c) = k_bds K" "k_ok K (dm_drv (c_world c))"
    using assms(1) by (simp_all add: brel_def world_ok_def)
  obtain r buf' c1 where c1: "dm_get_block_cache (k_env K) dev blk buf c = Ret ((r, buf'), c1)" "brel K c1 v" "c_world c1 = c_world c"
      "r = 1 \<and> buf' = v ?x @ drop ?bs buf \<or> r = 0 \<and> buf' = buf \<and> k_content K (c_world c) ?x = v ?x"
    using get_block_cache [OF assms(1-3)] by blast
  have "\<exists>c'. block_rw_at (k_env K) (k_al K) (k_pm K) READ dev blk buf p c = Ret ((bd_blksz bd, v ?x @ drop ?bs buf), c') \<and> brel K c' v"
  proof (cases "r = 0")
    case False
    then show ?thesis using c1 a w by (auto simp: block_rw_at_def)
  next
    case True
    then have b: "buf' = buf" "k_content K (c_world c) ?x = v ?x" using c1(4) by auto
    obtain d' where d': "dm_do_block_rw (k_env K) READ dev blk buf p (c_world c1) =
        Ret ((bd_blksz bd, v ?x @ drop ?bs buf), (c_world c1)\<lparr>dm_drv := d'\<rparr>)" "k_ok K d'" "k_disk K d' = k_disk K (dm_drv (c_world c))"
      using do_block_rw(1) [OF at(1) w at(2) assms(3), of p] b c1(3) by auto
    let ?c2 = "c1\<lparr>c_world := (c_world c1)\<lparr>dm_drv := d'\<rparr>\<rparr>"
    have rel2: "brel K ?c2 v" using brel_drv [OF c1(2) d'(2)] d'(3) c1(3) by simp
    have len: "length (v ?x) = ?bs" using brel_length(1) [OF assms(1,2)] .
    have "\<exists>c'. dm_cache_block (k_env K) (k_al K) (k_pm K) (- dev) blk (bd_blksz bd) (v ?x @ drop ?bs buf) ?c2 = Ret (0, c') \<and>
       brel K c' (v(?x := take ?bs (v ?x @ drop ?bs buf)))"
      using cache_block [OF rel2 assms(2), of "v ?x @ drop ?bs buf" "- dev"] len assms(3) b(2) c1(3) d'(3) by auto
    then show ?thesis using True b(1) c1(1,3) d'(1) a w len by (auto simp: block_rw_at_def on_world_def)
  qed
  moreover obtain d where "dm_lookup (k_env K) (MAJOR dev) (c_world c) = Ret (Some d, c_world c)" "dv_ptr d = p"
    using lookup_attached [OF at(1) w(1)] by blast
  ultimately show ?thesis using assms(4) a(1) by (auto simp: dm_block_rw_def on_world_def)
qed

lemma block_write:
  assumes "brel K c v" "blk_of K dev p bd blk" "nat (bd_blksz bd) \<le> length buf" "q = 0 \<or> q = p"
  shows "\<exists>c'. dm_block_rw (k_env K) (k_al K) (k_pm K) WRITE dev blk buf q c = Ret ((bd_blksz bd, buf), c') \<and>
     brel K c' (v((dev_id dev, blk) := take (nat (bd_blksz bd)) buf))"
proof -
  let ?bs = "nat (bd_blksz bd)" and ?x = "(dev_id dev, blk)"
  have at: "k_att K dev p bd" "unat blk < k_nb K dev" using assms(2) by (simp_all add: blk_of_def)
  have a: "p \<noteq> 0" "k_bds K p = Some bd" "bd_cache bd = BCACHE_WRITE OR BCACHE_READ" using at(1) by (auto simp: attached_def)
  have w: "dm_devs (c_world c) = k_devs K" "dm_bds (c_world c) = k_bds K"
    using assms(1) by (simp_all add: brel_def world_ok_def)
  obtain c' where "dm_cache_block (k_env K) (k_al K) (k_pm K) dev blk (bd_blksz bd) buf c = Ret (0, c')" "brel K c' (v(?x := take ?bs buf))"
    using cache_block [OF assms(1-3), of dev] by blast
  then have "block_rw_at (k_env K) (k_al K) (k_pm K) WRITE dev blk buf p c = Ret ((bd_blksz bd, buf), c')" "brel K c' (v(?x := take ?bs buf))"
    using a w by (auto simp: block_rw_at_def)
  moreover obtain d where "dm_lookup (k_env K) (MAJOR dev) (c_world c) = Ret (Some d, c_world c)" "dv_ptr d = p"
    using lookup_attached [OF at(1) w(1)] by blast
  ultimately show ?thesis using assms(4) a(1) by (auto simp: dm_block_rw_def on_world_def)
qed

section \<open>Reading several blocks\<close>

text \<open>
  \<open>filled g bs S buf buf'\<close>: of the slots of \<open>bs\<close> bytes, those in \<open>S\<close> have been filled from \<open>g\<close>, the others and what
  follows them are unchanged.
\<close>

definition filled :: "(nat \<Rightarrow> u8 list) \<Rightarrow> nat \<Rightarrow> nat set \<Rightarrow> u8 list \<Rightarrow> u8 list \<Rightarrow> bool" where
  "filled g bs S buf buf' \<longleftrightarrow> length buf' = length buf \<and>
     (\<forall>i < length buf. buf' ! i = (if i div bs \<in> S then g (i div bs) ! (i mod bs) else buf ! i))"

lemma filled_refl: "filled g bs {} buf buf"
  by (simp add: filled_def)

lemma filled_trans: "filled g bs S buf buf1 \<Longrightarrow> filled g bs T buf1 buf2 \<Longrightarrow> filled g bs (S \<union> T) buf buf2"
  by (auto simp: filled_def)

lemma filled_length: "filled g bs S buf buf' \<Longrightarrow> length buf' = length buf"
  by (simp add: filled_def)

lemma filled_one:
  assumes "length b = bs" "0 < bs" "bs \<le> length buf" "g 0 = b"
  shows "filled g bs {0} buf (b @ drop bs buf)"
  using assms by (auto simp: filled_def nth_append div_eq_0_iff)

text \<open>A call on \<^verbatim>\<open>buf + k * bs\<close> fills the slots from \<open>k\<close> on.\<close>

lemma filled_off:
  assumes "filled g bs S (drop (k * bs) buf) b" "k * bs \<le> length buf" "0 < bs" "\<And>j. j \<in> S \<Longrightarrow> h (k + j) = g j"
  shows "filled h bs ((+) k ` S) buf (take (k * bs) buf @ b)"
  unfolding filled_def
proof (intro conjI allI impI)
  show "length (take (k * bs) buf @ b) = length buf" using assms(1,2) by (simp add: filled_def)
  fix i assume i: "i < length buf"
  show "(take (k * bs) buf @ b) ! i = (if i div bs \<in> (+) k ` S then h (i div bs) ! (i mod bs) else buf ! i)"
  proof (cases "i < k * bs")
    case True
    then have "i div bs < k" using assms(3) by (simp add: div_less_iff_less_mult)
    with True assms(2) show ?thesis by (auto simp: nth_append)
  next
    case False
    then obtain j where j: "i = k * bs + j" by (metis le_Suc_ex not_less)
    have d: "i div bs = k + j div bs" "i mod bs = j mod bs" using j assms(3) by simp_all
    have "b ! j = (if j div bs \<in> S then g (j div bs) ! (j mod bs) else drop (k * bs) buf ! j)"
      using assms(1) i j by (simp add: filled_def)
    then show ?thesis using assms(2,4) i j unfolding d by (auto simp: nth_append)
  qed
qed

lemma filled_blocks:
  assumes "\<And>j. j < m \<Longrightarrow> length (g j) = bs" "0 < bs" "m * bs \<le> length buf"
  shows "filled g bs {0..<m} buf (concat (map g [0..<m]) @ drop (m * bs) buf)"
  using assms
proof (induction m)
  case 0
  then show ?case by (simp add: filled_refl)
next
  case (Suc m)
  let ?b = "concat (map g [0..<m])"
  have "map length (map g [0..<m]) = replicate m bs" using Suc.prems(1) by (intro nth_equalityI) auto
  then have len: "length ?b = m * bs" by (simp only: length_concat sum_list_replicate of_nat_id)
  have f: "filled g bs {0..<m} buf (?b @ drop (m * bs) buf)" using Suc by simp
  have "filled (\<lambda>_. g m) bs {0} (drop (m * bs) (?b @ drop (m * bs) buf)) (g m @ drop bs (drop (m * bs) (?b @ drop (m * bs) buf)))"
    using Suc.prems len by (intro filled_one) simp_all
  from filled_off [OF this, of g] have "filled g bs {m} (?b @ drop (m * bs) buf) (?b @ g m @ drop (Suc m * bs) buf)"
    using Suc.prems len by (simp add: add.commute)
  from filled_trans [OF f this] show ?case by (simp add: atLeast0_lessThan_Suc)
qed

text \<open>A run of blocks of an attached device.\<close>

definition span :: "'d conf \<Rightarrow> int \<Rightarrow> ptr \<Rightarrow> 'd blockdevice \<Rightarrow> u64 \<Rightarrow> nat \<Rightarrow> bool" where
  "span K dev p bd start num \<longleftrightarrow> k_att K dev p bd \<and> unat start + num \<le> k_nb K dev"

lemma att_bounds:
  assumes "k_att K dev p bd"
  shows "0 < nat (bd_blksz bd)" "int (nat (bd_blksz bd)) = bd_blksz bd" "k_nb K dev < 2 ^ 31" "nat (bd_blksz bd) < 2 ^ 31"
    "k_nb K dev * nat (bd_blksz bd) < 2 ^ 31"
proof -
  have a: "0 < bd_blksz bd" "bd_blksz bd < 2 ^ 31" "k_nb K dev * nat (bd_blksz bd) < 2 ^ 31" using assms by (simp_all add: attached_def)
  then show "0 < nat (bd_blksz bd)" "int (nat (bd_blksz bd)) = bd_blksz bd" "nat (bd_blksz bd) < 2 ^ 31"
    "k_nb K dev * nat (bd_blksz bd) < 2 ^ 31" by simp_all
  have "k_nb K dev * 1 \<le> k_nb K dev * nat (bd_blksz bd)" using a(1) by (intro mult_le_mono2) simp
  with a(3) show "k_nb K dev < 2 ^ 31" by linarith
qed

lemma unat_add_small: "unat (a :: u64) + j < 2 ^ 31 \<Longrightarrow> unat (a + of_nat j) = unat a + j"
  by (subst unat_add_lem [THEN iffD1]) (simp_all add: unat_of_nat)

lemma span_blk:
  assumes "span K dev p bd start num" "j < num"
  shows "blk_of K dev p bd (start + of_nat j)"
proof -
  have a: "k_att K dev p bd" "unat start + num \<le> k_nb K dev" using assms(1) by (simp_all add: span_def)
  then have "unat start + j < 2 ^ 31" using assms(2) att_bounds(3) [OF a(1)] by linarith
  then show ?thesis using a assms(2) unat_add_small [of start j] by (simp add: blk_of_def)
qed

lemma span_drop: "span K dev p bd start num \<Longrightarrow> k \<le> num \<Longrightarrow> span K dev p bd (start + of_nat k) (num - k)"
proof -
  assume s: "span K dev p bd start num" and k: "k \<le> num"
  have a: "k_att K dev p bd" "unat start + num \<le> k_nb K dev" using s by (simp_all add: span_def)
  then have "unat start + k < 2 ^ 31" using k att_bounds(3) [OF a(1)] by linarith
  then show ?thesis using a k unat_add_small [of start k] by (simp add: span_def)
qed

abbreviation slots :: "(u64 \<times> u64 \<Rightarrow> u8 list) \<Rightarrow> int \<Rightarrow> u64 \<Rightarrow> nat \<Rightarrow> u8 list" where
  "slots v dev start j \<equiv> v (dev_id dev, start + of_nat j)"

text \<open>The calls at slot \<open>k\<close> of a buffer.\<close>

lemma slot_fits: "k < num \<Longrightarrow> num * bs \<le> length buf \<Longrightarrow> bs \<le> length (drop (k * bs) buf) \<and> k * bs \<le> length buf"
  for bs :: nat
proof -
  assume "k < num" "num * bs \<le> length buf"
  moreover from this(1) have "(k + 1) * bs \<le> num * bs" by (intro mult_le_mono1) simp
  ultimately show ?thesis by simp
qed

lemma block_read_slot:
  assumes rel: "brel K c v" and sp: "span K dev p bd start num" and k: "k < num"
    and len: "num * nat (bd_blksz bd) \<le> length buf"
  shows "\<exists>buf' c'. at_off (k * nat (bd_blksz bd)) buf (\<lambda>b. dm_block_rw (k_env K) (k_al K) (k_pm K) READ dev (start + of_nat k) b p c) =
       Ret ((bd_blksz bd, buf'), c') \<and> brel K c' v \<and> filled (slots v dev start) (nat (bd_blksz bd)) {k} buf buf'"
proof -
  let ?bs = "nat (bd_blksz bd)" and ?b = "drop (k * nat (bd_blksz bd)) buf"
  have b: "blk_of K dev p bd (start + of_nat k)" using span_blk [OF sp k] .
  have fit: "?bs \<le> length ?b" "k * ?bs \<le> length buf" using slot_fits [OF k len] by simp_all
  have bs: "0 < ?bs" using sp att_bounds(1) by (auto simp: span_def)
  obtain c' where c': "dm_block_rw (k_env K) (k_al K) (k_pm K) READ dev (start + of_nat k) ?b p c =
      Ret ((bd_blksz bd, slots v dev start k @ drop ?bs ?b), c')" "brel K c' v"
    using block_read [OF rel b fit(1), of p] by blast
  have "filled (\<lambda>_. slots v dev start k) ?bs {0} ?b (slots v dev start k @ drop ?bs ?b)"
    using brel_length(1) [OF rel b] fit bs by (intro filled_one) simp_all
  from filled_off [OF this fit(2) bs, of "slots v dev start"]
  have "filled (slots v dev start) ?bs {k} buf (take (k * ?bs) buf @ slots v dev start k @ drop ?bs ?b)" by simp
  with c' show ?thesis by (simp add: at_off_def)
qed

lemma cache_get_slot:
  assumes rel: "brel K c v" and sp: "span K dev p bd start num" and k: "k < num"
    and len: "num * nat (bd_blksz bd) \<le> length buf"
  shows "\<exists>r buf' c'. at_off (k * nat (bd_blksz bd)) buf (\<lambda>b. dm_get_block_cache (k_env K) dev (start + of_nat k) b c) =
       Ret ((r, buf'), c') \<and> brel K c' v \<and> c_world c' = c_world c \<and>
     (r = 1 \<and> filled (slots v dev start) (nat (bd_blksz bd)) {k} buf buf' \<or>
      r = 0 \<and> buf' = buf \<and> slots (k_content K (c_world c)) dev start k = slots v dev start k)"
proof -
  let ?bs = "nat (bd_blksz bd)" and ?b = "drop (k * nat (bd_blksz bd)) buf"
  have b: "blk_of K dev p bd (start + of_nat k)" using span_blk [OF sp k] .
  have fit: "?bs \<le> length ?b" "k * ?bs \<le> length buf" using slot_fits [OF k len] by simp_all
  have bs: "0 < ?bs" using sp att_bounds(1) by (auto simp: span_def)
  obtain r buf' c' where c': "dm_get_block_cache (k_env K) dev (start + of_nat k) ?b c = Ret ((r, buf'), c')" "brel K c' v"
      "c_world c' = c_world c" "r = 1 \<and> buf' = slots v dev start k @ drop ?bs ?b \<or>
       r = 0 \<and> buf' = ?b \<and> slots (k_content K (c_world c)) dev start k = slots v dev start k"
    using get_block_cache [OF rel b fit(1)] by blast
  have "filled (\<lambda>_. slots v dev start k) ?bs {0} ?b (slots v dev start k @ drop ?bs ?b)"
    using brel_length(1) [OF rel b] fit bs by (intro filled_one) simp_all
  from filled_off [OF this fit(2) bs, of "slots v dev start"]
  have "filled (slots v dev start) ?bs {k} buf (take (k * ?bs) buf @ slots v dev start k @ drop ?bs ?b)" by simp
  with c' show ?thesis by (auto simp: at_off_def)
qed

lemma read_singly_ok:
  assumes "brel K c v" "span K dev p bd start (count + num)" "(count + num) * nat (bd_blksz bd) \<le> length buf"
  shows "\<exists>buf' c'. read_singly (k_env K) (k_al K) (k_pm K) p (bd_blksz bd) dev start num count buf c = Ret ((count + num, buf'), c') \<and>
     brel K c' v \<and> filled (slots v dev start) (nat (bd_blksz bd)) {count..<count + num} buf buf'"
  using assms
proof (induction num arbitrary: count buf c)
  case 0
  then show ?case by (simp add: filled_refl)
next
  case (Suc num)
  obtain buf1 c1 where c1: "at_off (count * nat (bd_blksz bd)) buf (\<lambda>b. dm_block_rw (k_env K) (k_al K) (k_pm K) READ dev (start + of_nat count) b p c) =
      Ret ((bd_blksz bd, buf1), c1)" "brel K c1 v" "filled (slots v dev start) (nat (bd_blksz bd)) {count} buf buf1"
    using block_read_slot [OF Suc.prems(1,2) _ Suc.prems(3), of count] by auto
  obtain buf2 c2 where c2: "read_singly (k_env K) (k_al K) (k_pm K) p (bd_blksz bd) dev start num (count + 1) buf1 c1 =
      Ret ((count + 1 + num, buf2), c2)" "brel K c2 v" "filled (slots v dev start) (nat (bd_blksz bd)) {count + 1..<count + 1 + num} buf1 buf2"
    using Suc.IH [OF c1(2), of "count + 1" buf1] Suc.prems(2,3) filled_length [OF c1(3)] by auto
  have "{count} \<union> {count + 1..<count + 1 + num} = {count..<count + Suc num}" by auto
  with filled_trans [OF c1(3) c2(3)] c1(1) c2(1,2) show ?case by simp
qed

lemma cache_read_ok:
  assumes "brel K c v" "span K dev p bd start (count + num)" "(count + num) * nat (bd_blksz bd) \<le> length buf"
    "\<And>j. count \<le> j \<Longrightarrow> j < count + num \<Longrightarrow> take (nat (bd_blksz bd)) (drop (j * nat (bd_blksz bd)) buf) = slots v dev start j \<and>
       slots (k_content K (c_world c)) dev start j = slots v dev start j"
  shows "\<exists>c'. cache_read (k_env K) (k_al K) (k_pm K) (bd_blksz bd) dev start num count buf c = Ret c' \<and> brel K c' v"
  using assms
proof (induction num arbitrary: count c)
  case (Suc num)
  let ?bs = "nat (bd_blksz bd)" and ?b = "drop (count * nat (bd_blksz bd)) buf" and ?x = "(dev_id dev, start + of_nat count)"
  have b: "blk_of K dev p bd (start + of_nat count)" by (rule span_blk [OF Suc.prems(2)]) simp
  have fit: "?bs \<le> length ?b" using slot_fits [OF _ Suc.prems(3), of count] by simp
  have x: "take ?bs ?b = v ?x" "k_content K (c_world c) ?x = v ?x" using Suc.prems(4) [of count] by auto
  then have "- dev = dev \<or> - dev = - dev \<and> k_content K (c_world c) ?x = take ?bs ?b" by simp
  then obtain c1 where c1: "dm_cache_block (k_env K) (k_al K) (k_pm K) (- dev) (start + of_nat count) (bd_blksz bd) ?b c = Ret (0, c1)"
      "brel K c1 (v(?x := take ?bs ?b))" "\<forall>x. k_content K (c_world c) x = v x \<longrightarrow> k_content K (c_world c1) x = v x"
    using cache_block [OF Suc.prems(1) b fit] by blast
  have rel1: "brel K c1 v" using c1(2) x(1) by simp
  have "\<exists>c'. cache_read (k_env K) (k_al K) (k_pm K) (bd_blksz bd) dev start num (count + 1) buf c1 = Ret c' \<and> brel K c' v"
    by (rule Suc.IH [OF rel1]) (use Suc.prems(2,3,4) c1(3) in simp_all)
  with c1(1) show ?case by simp
qed simp

lemma filled_slot:
  assumes "filled g bs S buf buf'" "j \<in> S" "length (g j) = bs" "0 < bs" "(j + 1) * bs \<le> length buf"
  shows "take bs (drop (j * bs) buf') = g j"
proof (rule nth_equalityI)
  have len: "length buf' = length buf" using assms(1) by (rule filled_length)
  show "length (take bs (drop (j * bs) buf')) = length (g j)" using assms(3,5) len by simp
  fix i assume "i < length (take bs (drop (j * bs) buf'))"
  then have i: "i < bs" "j * bs + i < length buf" using assms(5) len by auto
  have "(j * bs + i) div bs = j" "(j * bs + i) mod bs = i" using i(1) by simp_all
  then have "buf' ! (j * bs + i) = g j ! i" using assms(1,2) i(2) by (simp add: filled_def)
  then show "take bs (drop (j * bs) buf') ! i = g j ! i" using i assms(5) len by simp
qed

lemma div_u32_blocks: "0 < bsz \<Longrightarrow> num < 2 ^ 32 \<Longrightarrow> div_u32 (int num * bsz) bsz k = k num"
proof -
  assume b: "0 < bsz" and n: "num < 2 ^ 32"
  have "(int num * bsz) sdiv bsz = int num" using b by (cases "num = 0") (simp_all add: signed_divide_int_def sgn_mult)
  then show ?thesis using b n by (simp add: div_u32_def)
qed

lemma read_multiple_uncached:
  assumes rel: "brel K c v" and sp: "span K dev p bd start num" and len: "num * nat (bd_blksz bd) \<le> length buf"
    and ag: "\<And>j. j < num \<Longrightarrow> slots (k_content K (c_world c)) dev start j = slots v dev start j"
  shows "\<exists>buf' c'. do_dm_block_read_multiple (k_env K) (k_al K) (k_pm K) p dev start num buf c = Ret ((num, buf'), c') \<and>
     brel K c' v \<and> filled (slots v dev start) (nat (bd_blksz bd)) {0..<num} buf buf'"
proof -
  let ?bs = "nat (bd_blksz bd)"
  have at: "k_att K dev p bd" "unat start + num \<le> k_nb K dev" using sp by (simp_all add: span_def)
  note bnd = att_bounds [OF at(1)]
  have w: "dm_bds (c_world c) p = Some bd" "k_ok K (dm_drv (c_world c))"
    using rel at(1) by (simp_all add: brel_def world_ok_def attached_def)
  show ?thesis
  proof (cases "bd_rw_multiple bd")
    case None
    then show ?thesis using read_singly_ok [OF rel, of dev p bd start 0 num buf] sp len w(1)
      by (simp add: do_dm_block_read_multiple_def)
  next
    case (Some g)
    then have "multi_ok (k_ok K) (k_disk K) dev (k_nb K dev) ?bs g" using at(1) by (simp add: attached_def)
    then obtain d' where d': "g READ (MINOR dev) start (int num) buf (dm_drv (c_world c)) = Ret ((int (num * ?bs),
        concat (map (slots (k_content K (c_world c)) dev start) [0..<num]) @ drop (num * ?bs) buf), d')"
        "k_ok K d'" "k_disk K d' = k_disk K (dm_drv (c_world c))"
      using w(2) at(2) len unfolding multi_ok_def by blast
    let ?buf = "concat (map (slots v dev start) [0..<num]) @ drop (num * ?bs) buf"
    have eq: "concat (map (slots (k_content K (c_world c)) dev start) [0..<num]) = concat (map (slots v dev start) [0..<num])"
      using ag by (intro arg_cong [of _ _ concat] map_cong) simp_all
    have sl: "length (slots v dev start j) = ?bs" if "j < num" for j using brel_length(1) [OF rel span_blk [OF sp that]] .
    have f: "filled (slots v dev start) ?bs {0..<num} buf ?buf" using sl bnd(1) len by (intro filled_blocks)
    let ?c = "c\<lparr>c_world := (c_world c)\<lparr>dm_drv := d'\<rparr>\<rparr>"
    have rel1: "brel K ?c v" using brel_drv [OF rel d'(2,3)] .
    have "take ?bs (drop (j * ?bs) ?buf) = slots v dev start j" if "j < num" for j
      by (rule filled_slot [OF f]) (use that sl bnd(1) len mult_le_mono1 [of "j + 1" num ?bs] in auto)
    then obtain c' where c': "cache_read (k_env K) (k_al K) (k_pm K) (bd_blksz bd) dev start num 0 ?buf ?c = Ret c'" "brel K c' v"
      using cache_read_ok [OF rel1, of dev p bd start 0 num ?buf] sp len filled_length [OF f] ag d'(3) by auto
    have "has_flag (bd_cache bd) BCACHE_READ" using at(1) by (simp add: attached_def)
    moreover have "int (num * ?bs) = int num * bd_blksz bd" "0 < bd_blksz bd" "num < 2 ^ 32" using bnd at(2) by simp_all
    ultimately have "do_dm_block_read_multiple (k_env K) (k_al K) (k_pm K) p dev start num buf c = Ret ((num, ?buf), c')"
      using Some w(1) d'(1) eq c'(1) by (simp add: do_dm_block_read_multiple_def div_u32_blocks Let_def)
    with c'(2) f show ?thesis by blast
  qed
qed

lemma scan_ok:
  assumes "brel K c v" "span K dev p bd start (x + left)" "(x + left) * nat (bd_blksz bd) \<le> length buf"
  shows "\<exists>y buf' c'. scan_uncached left (k_env K) (bd_blksz bd) dev start x buf c = Ret ((y, buf'), c') \<and> brel K c' v \<and>
     c_world c' = c_world c \<and> x \<le> y \<and> y \<le> x + left \<and>
     (\<forall>j. x \<le> j \<longrightarrow> j < y \<longrightarrow> slots (k_content K (c_world c)) dev start j = slots v dev start j) \<and>
     filled (slots v dev start) (nat (bd_blksz bd)) (if y < x + left then {y} else {}) buf buf'"
  using assms
proof (induction left arbitrary: x c)
  case 0
  then show ?case by (simp add: filled_refl)
next
  case (Suc left)
  obtain r buf1 c1 where c1: "at_off (x * nat (bd_blksz bd)) buf (\<lambda>b. dm_get_block_cache (k_env K) dev (start + of_nat x) b c) =
       Ret ((r, buf1), c1)" "brel K c1 v" "c_world c1 = c_world c"
     "r = 1 \<and> filled (slots v dev start) (nat (bd_blksz bd)) {x} buf buf1 \<or>
      r = 0 \<and> buf1 = buf \<and> slots (k_content K (c_world c)) dev start x = slots v dev start x"
    using cache_get_slot [OF Suc.prems(1,2) _ Suc.prems(3), of x] by auto
  show ?case
  proof (cases "r = 0")
    case False
    with c1 show ?thesis by auto
  next
    case True
    then have u: "buf1 = buf" "slots (k_content K (c_world c)) dev start x = slots v dev start x" using c1(4) by auto
    obtain y buf' c' where y: "scan_uncached left (k_env K) (bd_blksz bd) dev start (x + 1) buf c1 = Ret ((y, buf'), c')" "brel K c' v"
       "c_world c' = c_world c1" "x + 1 \<le> y" "y \<le> x + 1 + left"
       "\<forall>j. x + 1 \<le> j \<longrightarrow> j < y \<longrightarrow> slots (k_content K (c_world c1)) dev start j = slots v dev start j"
       "filled (slots v dev start) (nat (bd_blksz bd)) (if y < x + 1 + left then {y} else {}) buf buf'"
      using Suc.IH [OF c1(2), of "x + 1"] Suc.prems(2,3) by auto
    have "\<forall>j. x \<le> j \<longrightarrow> j < y \<longrightarrow> slots (k_content K (c_world c)) dev start j = slots v dev start j"
      using y(6) u(2) c1(3) by (metis Suc_eq_plus1 le_antisym not_less_eq_eq)
    then show ?thesis using True u(1) c1(1,3) y by auto
  qed
qed

lemma span_le: "span K dev p bd start num \<Longrightarrow> m \<le> num \<Longrightarrow> span K dev p bd start m"
  by (auto simp: span_def)

text \<open>One stretch of blocks that are not cached, as the loop reads it.\<close>

lemma read_stretch:
  assumes rel: "brel K c v" and sp: "span K dev p bd start num" and len: "num * nat (bd_blksz bd) \<le> length buf"
    and xy: "x < y" "y \<le> num"
    and ag: "\<And>j. x \<le> j \<Longrightarrow> j < y \<Longrightarrow> slots (k_content K (c_world c)) dev start j = slots v dev start j"
  shows "\<exists>buf' c'. (if y - x = 1
       then obind (at_off (x * nat (bd_blksz bd)) buf (\<lambda>b. dm_block_rw (k_env K) (k_al K) (k_pm K) READ dev (start + of_nat x) b p c))
              (\<lambda>((r, buf), c). div_u32 r (bd_blksz bd) (\<lambda>r. Ret ((r, buf), c)))
       else at_off (x * nat (bd_blksz bd)) buf (\<lambda>b. do_dm_block_read_multiple (k_env K) (k_al K) (k_pm K) p dev (start + of_nat x) (y - x) b c)) =
       Ret ((y - x, buf'), c') \<and> brel K c' v \<and> filled (slots v dev start) (nat (bd_blksz bd)) {x..<y} buf buf'"
proof -
  let ?bs = "nat (bd_blksz bd)"
  have at: "k_att K dev p bd" using sp by (simp add: span_def)
  note bnd = att_bounds [OF at]
  show ?thesis
  proof (cases "y - x = 1")
    case True
    then have y: "y = x + 1" by simp
    obtain buf' c' where c': "at_off (x * ?bs) buf (\<lambda>b. dm_block_rw (k_env K) (k_al K) (k_pm K) READ dev (start + of_nat x) b p c) =
       Ret ((bd_blksz bd, buf'), c')" "brel K c' v" "filled (slots v dev start) ?bs {x} buf buf'"
      using block_read_slot [OF rel sp _ len, of x] xy by auto
    have "div_u32 (bd_blksz bd) (bd_blksz bd) (\<lambda>r. Ret ((r, buf'), c')) = Ret ((1, buf'), c')"
      using div_u32_blocks [of "bd_blksz bd" 1 "\<lambda>r. Ret ((r, buf'), c')"] bnd(1) by simp
    moreover have "{x..<y} = {x}" using y by auto
    ultimately show ?thesis using True c' by simp
  next
    case False
    let ?b = "drop (x * ?bs) buf" and ?s = "start + of_nat x"
    have sp': "span K dev p bd ?s (y - x)" using span_le [OF span_drop [OF sp, of x]] xy by simp
    have "x \<le> num" using xy by simp
    then have "x * ?bs \<le> length buf" "y * ?bs \<le> length buf"
      using le_trans [OF mult_le_mono1 len] xy(2) by blast+
    then have fit: "(y - x) * ?bs \<le> length ?b" "x * ?bs \<le> length buf" by (simp_all add: diff_mult_distrib)
    have sl: "slots u dev ?s j = slots u dev start (x + j)" for u :: "u64 \<times> u64 \<Rightarrow> u8 list" and j by (simp add: add.assoc)
    have ag': "slots (k_content K (c_world c)) dev ?s j = slots v dev ?s j" if "j < y - x" for j
      unfolding sl using that by (intro ag) simp_all
    obtain b c' where c': "do_dm_block_read_multiple (k_env K) (k_al K) (k_pm K) p dev ?s (y - x) ?b c = Ret ((y - x, b), c')"
        "brel K c' v" "filled (slots v dev ?s) ?bs {0..<y - x} ?b b"
      using read_multiple_uncached [OF rel sp' fit(1) ag'] by blast
    have "filled (slots v dev start) ?bs ((+) x ` {0..<y - x}) buf (take (x * ?bs) buf @ b)"
      by (rule filled_off [OF c'(3) fit(2) bnd(1)]) (simp add: add.assoc)
    moreover have "(+) x ` {0..<y - x} = {x..<y}" using xy by simp
    ultimately show ?thesis using False c'(1,2) by (simp add: at_off_def)
  qed
qed

lemma read_cached_loop_ok:
  assumes "brel K c v" "span K dev p bd start num" "num * nat (bd_blksz bd) \<le> length buf" "count \<le> num" "num - count < fuel"
  shows "\<exists>buf' c'. read_cached_loop fuel (k_env K) (k_al K) (k_pm K) p (bd_blksz bd) dev start num count buf c = Ret ((num, buf'), c') \<and>
     brel K c' v \<and> filled (slots v dev start) (nat (bd_blksz bd)) {count..<num} buf buf'"
  using assms
proof (induction fuel arbitrary: count buf c)
  case (Suc fuel)
  let ?bs = "nat (bd_blksz bd)"
  let ?read = "\<lambda>count buf c. read_cached_loop fuel (k_env K) (k_al K) (k_pm K) p (bd_blksz bd) dev start num count buf c"
  show ?case
  proof (cases "count < num")
    case False
    with Suc.prems show ?thesis by (simp add: filled_refl)
  next
    case True
    obtain r buf1 c1 where c1: "at_off (count * ?bs) buf (\<lambda>b. dm_get_block_cache (k_env K) dev (start + of_nat count) b c) =
         Ret ((r, buf1), c1)" "brel K c1 v" "c_world c1 = c_world c"
       "r = 1 \<and> filled (slots v dev start) ?bs {count} buf buf1 \<or>
        r = 0 \<and> buf1 = buf \<and> slots (k_content K (c_world c)) dev start count = slots v dev start count"
      using cache_get_slot [OF Suc.prems(1,2) True Suc.prems(3)] by auto
    show ?thesis
    proof (cases "r = 0")
      case False
      then have f1: "filled (slots v dev start) ?bs {count} buf buf1" using c1(4) by auto
      have len1: "num * ?bs \<le> length buf1" using Suc.prems(3) filled_length [OF f1] by simp
      have le1: "count + 1 \<le> num" "num - (count + 1) < fuel" using True Suc.prems(5) by linarith+
      obtain buf2 c2 where c2: "?read (count + 1) buf1 c1 = Ret ((num, buf2), c2)" "brel K c2 v"
          "filled (slots v dev start) ?bs {count + 1..<num} buf1 buf2"
        using Suc.IH [OF c1(2) Suc.prems(2) len1 le1] by blast
      have "{count} \<union> {count + 1..<num} = {count..<num}" using True by auto
      with filled_trans [OF f1 c2(3)] False True c1(1) c2(1,2) show ?thesis by simp
    next
      case True2: True
      then have u: "buf1 = buf" "slots (k_content K (c_world c)) dev start count = slots v dev start count" using c1(4) by auto
      obtain y buf2 c2 where y: "scan_uncached (num - (count + 1)) (k_env K) (bd_blksz bd) dev start (count + 1) buf c1 = Ret ((y, buf2), c2)"
         "brel K c2 v" "c_world c2 = c_world c1" "count + 1 \<le> y" "y \<le> num"
         "\<forall>j. count + 1 \<le> j \<longrightarrow> j < y \<longrightarrow> slots (k_content K (c_world c1)) dev start j = slots v dev start j"
         "filled (slots v dev start) ?bs (if y < num then {y} else {}) buf buf2"
        using scan_ok [OF c1(2), of dev p bd start "count + 1" "num - (count + 1)" buf] Suc.prems(2,3) True by auto
      have ag: "slots (k_content K (c_world c2)) dev start j = slots v dev start j" if "count \<le> j" "j < y" for j
        using y(3,6) u(2) c1(3) that by (cases "j = count") auto
      have len2: "num * ?bs \<le> length buf2" using Suc.prems(3) filled_length [OF y(7)] by simp
      obtain buf3 c3 where c3: "(if y - count = 1
           then obind (at_off (count * ?bs) buf2 (\<lambda>b. dm_block_rw (k_env K) (k_al K) (k_pm K) READ dev (start + of_nat count) b p c2))
                  (\<lambda>((r, buf), c). div_u32 r (bd_blksz bd) (\<lambda>r. Ret ((r, buf), c)))
           else at_off (count * ?bs) buf2 (\<lambda>b. do_dm_block_read_multiple (k_env K) (k_al K) (k_pm K) p dev (start + of_nat count) (y - count) b c2)) =
           Ret ((y - count, buf3), c3)" "brel K c3 v" "filled (slots v dev start) ?bs {count..<y} buf2 buf3"
        using read_stretch [OF y(2) Suc.prems(2) len2 _ y(5) ag, of count] y(4) by auto
      let ?n = "if y < num then y + 1 else y"
      have f3: "filled (slots v dev start) ?bs ((if y < num then {y} else {}) \<union> {count..<y}) buf buf3"
        using filled_trans [OF y(7) c3(3)] .
      have len3: "num * ?bs \<le> length buf3" using Suc.prems(3) filled_length [OF f3] by simp
      have le3: "?n \<le> num" "num - ?n < fuel" using y(4,5) Suc.prems(5) True by auto
      obtain buf4 c4 where c4: "?read ?n buf3 c3 = Ret ((num, buf4), c4)" "brel K c4 v" "filled (slots v dev start) ?bs {?n..<num} buf3 buf4"
        using Suc.IH [OF c3(2) Suc.prems(2) len3 le3] by blast
      have "((if y < num then {y} else {}) \<union> {count..<y}) \<union> {?n..<num} = {count..<num}" using y(4,5) by auto
      then have f4: "filled (slots v dev start) ?bs {count..<num} buf buf4" using filled_trans [OF f3 c4(3)] by simp
      have "read_cached_loop (Suc fuel) (k_env K) (k_al K) (k_pm K) p (bd_blksz bd) dev start num count buf c = ?read ?n buf3 c3"
        using True True2 c1(1) u(1) y(1) c3(1) by simp
      with c4(1,2) f4 show ?thesis by simp
    qed
  qed
qed simp

lemma read_multiple_ok:
  assumes "brel K c v" "span K dev p bd start num" "num * nat (bd_blksz bd) \<le> length buf"
  shows "\<exists>buf' c'. dm_block_read_multiple (k_env K) (k_al K) (k_pm K) p dev start num buf c = Ret ((num, buf'), c') \<and>
     brel K c' v \<and> filled (slots v dev start) (nat (bd_blksz bd)) {0..<num} buf buf'"
proof -
  have at: "k_att K dev p bd" using assms(2) by (simp add: span_def)
  then have "dm_bds (c_world c) p = Some bd" "has_flag (bd_cache bd) BCACHE_READ"
    using assms(1) by (simp_all add: brel_def world_ok_def attached_def)
  then show ?thesis using read_cached_loop_ok [OF assms, of 0 "num + 1"] by (simp add: dm_block_read_multiple_def)
qed

end
