(* ===== verification/RamDisk.thy ===== *)
theory RamDisk
  imports Block
begin

text \<open>
  A disk in memory, on which the theorems about the block layer and the drivers above it are exercised: eight blocks of
  \<open>bs\<close> bytes behind major number 10, with a driver that has both transfer routines, and an allocator that returns
  addresses above all addresses in use.
\<close>

definition ram_rw :: "nat \<Rightarrow> int \<Rightarrow> int \<Rightarrow> u64 \<Rightarrow> (u64 \<Rightarrow> u8 list) io_fn" where
  "ram_rw bs rw mi blk buf d =
     Ret (if rw = READ then ((int bs, d blk @ drop bs buf), d) else ((int bs, buf), d(blk := take bs buf)))"

definition ram_rw_multiple :: "nat \<Rightarrow> int \<Rightarrow> int \<Rightarrow> u64 \<Rightarrow> int \<Rightarrow> (u64 \<Rightarrow> u8 list) io_fn" where
  "ram_rw_multiple bs rw mi blk count buf d =
     Ret (if rw = READ
          then ((count * int bs, concat (map (\<lambda>j. d (blk + of_nat j)) [0..<nat count]) @ drop (nat count * bs) buf), d)
          else ((0, buf), d))"

definition ram_dev :: int where "ram_dev = GETDEV 10 0"

definition ram_tables :: devtab where
  "ram_tables = dm_init_tables[1 := (dm_init_tables ! 1)\<lparr>dh_devs := (replicate 64 [])[10 := [\<lparr>dv_ptr = 64, dv_beta = 0\<rparr>]]\<rparr>]"

definition ram_bd :: "nat \<Rightarrow> (u64 \<Rightarrow> u8 list) blockdevice" where
  "ram_bd bs = \<lparr>bd_blksz = int bs, bd_rw = Some (ram_rw bs), bd_rw_multiple = Some (ram_rw_multiple bs),
     bd_ioctl = Some ioctl_stub, bd_select = None, bd_cache = BCACHE_WRITE OR BCACHE_READ, bd_acl = mutex_create False 0\<rparr>"

definition fresh :: "nat set \<Rightarrow> nat" where
  "fresh S = Suc (Max (insert 0 S))"

definition fresh_alloc :: "'w cache_t \<Rightarrow> ptr \<times> ptr \<times> ptr" where
  "fresh_alloc c = (fresh (dom (c_elems c)), fresh (ce_dirty_node ` ran (c_elems c)), fresh (ce_list_node ` ran (c_elems c)))"

definition ram_conf :: "nat \<Rightarrow> (u64 \<Rightarrow> u8 list) conf" where
  "ram_conf bs = \<lparr>k_env = task_env 1, k_ok = (\<lambda>d. \<forall>b. length (d b) = bs),
     k_disk = (\<lambda>d (i, b). if i = dev_id ram_dev then d b else []), k_nb = (\<lambda>_. 8), k_devs = ram_tables,
     k_bds = [64 \<mapsto> ram_bd bs], k_al = fresh_alloc, k_pm = (0, 1)\<rparr>"

definition ram_world :: "nat \<Rightarrow> (u64 \<Rightarrow> u8 list) dmstate" where
  "ram_world bs = \<lparr>dm_devs = ram_tables, dm_bds = [64 \<mapsto> ram_bd bs], dm_search_lock = mutex_create False 0,
     dm_drv = (\<lambda>_. replicate bs 0)\<rparr>"

lemma fresh: "finite S \<Longrightarrow> fresh S \<noteq> 0" "finite S \<Longrightarrow> fresh S \<notin> S"
proof -
  show "fresh S \<noteq> 0" by (simp add: fresh_def)
  assume "finite S"
  then have "x \<le> Max (insert 0 S)" if "x \<in> S" for x using that by simp
  from this [of "fresh S"] show "fresh S \<notin> S" unfolding fresh_def by fastforce
qed

lemma alloc_ok_fresh: "alloc_ok fresh_alloc"
  unfolding alloc_ok_def fresh_alloc_def prod.case
proof (intro allI impI)
  fix env :: kenv and c :: "'a cache_t" and ds ps
  assume c: "cache_ok env c ds ps"
  have f: "finite (dom (c_elems c))" "finite (ran (c_elems c))" using cache_ok_card(2) [OF c] by (simp_all add: finite_ran)
  have "fst ` set ds \<subseteq> ce_dirty_node ` ran (c_elems c)" "fst ` set ps \<subseteq> ce_list_node ` ran (c_elems c)"
    using c by (auto simp: cache_ok_def dirty_ok_def primary_ok_def ran_def) blast+
  then have "fresh (ce_dirty_node ` ran (c_elems c)) \<notin> fst ` set ds" "fresh (ce_list_node ` ran (c_elems c)) \<notin> fst ` set ps"
    using fresh(2) f(2) by blast+
  moreover have "c_elems c (fresh (dom (c_elems c))) = None" using fresh(2) [OF f(1)] by auto
  ultimately show "fresh (dom (c_elems c)) \<noteq> 0 \<and> c_elems c (fresh (dom (c_elems c))) = None \<and>
      fresh (ce_dirty_node ` ran (c_elems c)) \<noteq> 0 \<and> fresh (ce_dirty_node ` ran (c_elems c)) \<notin> fst ` set ds \<and>
      fresh (ce_list_node ` ran (c_elems c)) \<noteq> 0 \<and> fresh (ce_list_node ` ran (c_elems c)) \<notin> fst ` set ps"
    using fresh(1) f by simp
qed

lemma ram_tables_ok: "tab_ok ram_tables" "registered ram_tables DT_BLOCK (MAJOR ram_dev) = [64]"
proof -
  show "tab_ok ram_tables"
    by (auto simp: tab_ok_def ram_tables_def dm_init_tables_def mutex_create_free nth_list_update set_update_subset_insert
        dest!: subsetD [OF set_update_subset_insert])
  have "MAJOR ram_dev = 10" by (simp add: MAJOR_def ram_dev_def GETDEV_def)
  then show "registered ram_tables DT_BLOCK (MAJOR ram_dev) = [64]"
    by (simp add: registered_def ram_tables_def dm_init_tables_def)
qed

lemma ram_conf_sel:
  "k_env (ram_conf bs) = task_env 1" "k_nb (ram_conf bs) dev = 8" "k_disk (ram_conf bs) d (dev_id ram_dev, b) = d b"
  by (simp_all add: ram_conf_def)

lemma ram_driver: "driver_ok (k_ok (ram_conf bs)) (k_disk (ram_conf bs)) ram_dev 8 bs (ram_rw bs)"
proof -
  have "(\<lambda>(i, b). if i = dev_id ram_dev then (d(blk := take bs buf)) b else []) =
      (\<lambda>(i, b). if i = dev_id ram_dev then d b else [])((dev_id ram_dev, blk) := take bs buf)" for d :: "u64 \<Rightarrow> u8 list" and blk buf
    by (auto simp: fun_eq_iff)
  then show ?thesis by (simp add: driver_ok_def ram_conf_def ram_rw_def)
qed

lemma ram_driver_multiple: "multi_ok (k_ok (ram_conf bs)) (k_disk (ram_conf bs)) ram_dev 8 bs (ram_rw_multiple bs)"
  by (simp add: multi_ok_def ram_conf_def ram_rw_multiple_def)

lemma ram_attached:
  assumes "0 < bs" "bs \<le> 4096"
  shows "k_att (ram_conf bs) ram_dev 64 (ram_bd bs)"
proof -
  have "0 < ram_dev" "ram_dev < 2 ^ 31" by (simp_all add: ram_dev_def GETDEV_def)
  then show ?thesis
    using assms ram_tables_ok ram_driver [of bs] ram_driver_multiple [of bs] mutex_create_free
    by (simp add: attached_def ram_conf_def ram_bd_def env_ok_def task_env_def)
qed

lemma ram_ok:
  "env_ok (k_env (ram_conf bs))" "alloc_ok (k_al (ram_conf bs))" "snd (k_pm (ram_conf bs)) \<noteq> 0"
  "world_ok (ram_conf bs) (ram_world bs)"
  using alloc_ok_fresh by (simp_all add: ram_conf_def env_ok_def task_env_def world_ok_def ram_world_def)

end
