(* ===== verification/BlockBytes.thy ===== *)
theory BlockBytes
  imports RamDisk
begin

text \<open>
  The byte interface of block devices: \<^verbatim>\<open>dm_block_read\<close> and \<^verbatim>\<open>dm_block_write\<close> of \<^verbatim>\<open>kernel/dm/block.c\<close> read and write
  the bytes of a device through the block cache, whatever the blocks in the cache.
\<close>

section \<open>Bytes seen through the cache\<close>

text \<open>The byte at a position of a device.\<close>

definition vbyte :: "(u64 \<times> u64 \<Rightarrow> u8 list) \<Rightarrow> int \<Rightarrow> nat \<Rightarrow> nat \<Rightarrow> u8" where
  "vbyte v dev bs x = v (dev_id dev, of_nat (x div bs)) ! (x mod bs)"

lemma u32_of_small [simp]: "n < 2 ^ 32 \<Longrightarrow> u32_of (int n) = n"
  by (simp add: u32_of_def)

lemma s32_of_small [simp]: "n < 2 ^ 31 \<Longrightarrow> s32_of (int n) = int n"
  by (simp add: s32_of_def Let_def)

lemma att_u32: "k_att K dev p bd \<Longrightarrow> u32_of (bd_blksz bd) = nat (bd_blksz bd)"
  using att_bounds [of K dev p bd] u32_of_small [of "nat (bd_blksz bd)"] by simp

lemma pos_blk:
  assumes "k_att K dev p bd" "pos < k_nb K dev * nat (bd_blksz bd)"
  shows "blk_of K dev p bd (of_nat (pos div nat (bd_blksz bd)))" "unat (of_nat (pos div nat (bd_blksz bd)) :: u64) = pos div nat (bd_blksz bd)"
proof -
  note b = att_bounds [OF assms(1)]
  have lt: "pos div nat (bd_blksz bd) < k_nb K dev" using assms(2) b(1) by (simp add: div_less_iff_less_mult)
  then show u: "unat (of_nat (pos div nat (bd_blksz bd)) :: u64) = pos div nat (bd_blksz bd)" using b(3) by (simp add: unat_of_nat)
  show "blk_of K dev p bd (of_nat (pos div nat (bd_blksz bd)))" using assms(1) lt u by (simp add: blk_of_def)
qed

lemma splice:
  assumes "a + r = n" "n \<le> length xs" "r \<le> length y"
  shows "length (take a xs @ take r y @ drop n xs) = length xs"
    and "i < length xs \<Longrightarrow> (take a xs @ take r y @ drop n xs) ! i = (if a \<le> i \<and> i < n then y ! (i - a) else xs ! i)"
  using assms by (auto simp: nth_append min_def)

lemma within_block:
  assumes "pos mod bs + i < (bs :: nat)"
  shows "(pos + i) div bs = pos div bs" "(pos + i) mod bs = pos mod bs + i"
proof -
  have eq: "pos mod bs + i + pos div bs * bs = pos + i" by simp
  have "(pos mod bs + i + pos div bs * bs) div bs = pos div bs" "(pos mod bs + i + pos div bs * bs) mod bs = pos mod bs + i"
    using assms div_mult_self1 [of bs "pos mod bs + i" "pos div bs"] mod_mult_self1 [of "pos mod bs + i" "pos div bs" bs] by auto
  then show "(pos + i) div bs = pos div bs" "(pos + i) mod bs = pos mod bs + i" unfolding eq .
qed

text \<open>The whole blocks in the middle of a transfer.\<close>

lemma read_middle:
  assumes rel: "brel K c v" and at: "k_att K dev p bd" and al: "pos mod nat (bd_blksz bd) = 0"
    and n: "count + m \<le> length buf" "pos + m \<le> k_nb K dev * nat (bd_blksz bd)"
  shows "\<exists>buf' c'. (if m \<ge> nat (bd_blksz bd)
       then at_off count buf (\<lambda>b. dm_block_read_multiple (k_env K) (k_al K) (k_pm K) p dev (of_nat (pos div nat (bd_blksz bd))) (m div nat (bd_blksz bd)) b c)
       else Ret ((m div nat (bd_blksz bd), buf), c)) = Ret ((m div nat (bd_blksz bd), buf'), c') \<and> brel K c' v \<and> length buf' = length buf \<and>
     (\<forall>i < length buf. buf' ! i = (if count \<le> i \<and> i < count + m div nat (bd_blksz bd) * nat (bd_blksz bd)
        then vbyte v dev (nat (bd_blksz bd)) (pos + (i - count)) else buf ! i))"
proof -
  let ?bs = "nat (bd_blksz bd)" and ?q = "m div nat (bd_blksz bd)" and ?b = "drop count buf"
  note bnd = att_bounds [OF at]
  let ?st = "of_nat (pos div ?bs) :: u64"
  have pos: "pos = pos div ?bs * ?bs" using al div_mult_mod_eq [of pos ?bs] by simp
  have q: "?q * ?bs \<le> m" by simp
  have "(pos div ?bs + ?q) * ?bs \<le> k_nb K dev * ?bs" unfolding add_mult_distrib using pos q n(2) by linarith
  then have le: "pos div ?bs + ?q \<le> k_nb K dev" using bnd(1) by simp
  then have "unat ?st = pos div ?bs" using bnd(3) by (simp add: unat_of_nat)
  then have sp: "span K dev p bd ?st ?q" using at le by (simp add: span_def)
  have fit: "?q * ?bs \<le> length ?b" unfolding length_drop using n(1) q by linarith
  obtain b c' where c': "dm_block_read_multiple (k_env K) (k_al K) (k_pm K) p dev ?st ?q ?b c = Ret ((?q, b), c')" "brel K c' v"
      "filled (slots v dev ?st) ?bs {0..<?q} ?b b"
    using read_multiple_ok [OF rel sp fit] by blast
  have byte: "slots v dev ?st (j div ?bs) ! (j mod ?bs) = vbyte v dev ?bs (pos + j)" for j
  proof -
    obtain P where "pos = P * ?bs" using pos by blast
    then show ?thesis using bnd(1) by (simp add: vbyte_def)
  qed
  show ?thesis
  proof (cases "m \<ge> ?bs")
    case True
    have "(take count buf @ b) ! i = (if count \<le> i \<and> i < count + ?q * ?bs then vbyte v dev ?bs (pos + (i - count)) else buf ! i)"
      if i: "i < length buf" for i
    proof (cases "i < count")
      case True
      with i n(1) show ?thesis by (simp add: nth_append)
    next
      case False
      then have "b ! (i - count) = (if (i - count) div ?bs < ?q then vbyte v dev ?bs (pos + (i - count)) else ?b ! (i - count))"
        using c'(3) i byte by (simp add: filled_def)
      moreover have "(i - count) div ?bs < ?q \<longleftrightarrow> i < count + ?q * ?bs" using bnd(1) False by (auto simp: div_less_iff_less_mult)
      ultimately show ?thesis using False i n(1) by (simp add: nth_append)
    qed
    moreover have "length (take count buf @ b) = length buf" using filled_length [OF c'(3)] n(1) by simp
    ultimately show ?thesis using True c'(1,2) by (simp add: at_off_def)
  next
    case False
    then show ?thesis using rel by auto
  qed
qed

lemma read_rest_ok:
  assumes rel: "brel K c v" and at: "k_att K dev p bd" and tmp: "length tmp = nat (bd_blksz bd)"
    and n: "n \<le> length buf" "count \<le> n" "pos + (n - count) \<le> k_nb K dev * nat (bd_blksz bd)" "n < 2 ^ 31"
    and al: "count = n \<or> pos mod nat (bd_blksz bd) = 0" and ende: "ende = pos + (n - count)"
  shows "\<exists>buf' c'. read_rest (k_env K) (k_al K) (k_pm K) p (bd_blksz bd) dev tmp ende n pos count buf c = Ret ((int n, buf'), c') \<and>
     brel K c' v \<and> length buf' = length buf \<and>
     (\<forall>i < length buf. buf' ! i = (if count \<le> i \<and> i < n then vbyte v dev (nat (bd_blksz bd)) (pos + (i - count)) else buf ! i))"
proof (cases "count = n")
  case True
  then show ?thesis using rel n(4) by (auto simp: read_rest_def Let_def)
next
  case False
  let ?bs = "nat (bd_blksz bd)" and ?m = "n - count"
  let ?q = "?m div ?bs" and ?r = "?m mod ?bs"
  note bnd = att_bounds [OF at] and u = att_u32 [OF at]
  have al': "pos mod ?bs = 0" using al False by simp
  have m: "count + ?m \<le> length buf" "count + ?m = n" using n(1,2) by simp_all
  obtain buf1 c1 where c1: "(if ?m \<ge> ?bs
       then at_off count buf (\<lambda>b. dm_block_read_multiple (k_env K) (k_al K) (k_pm K) p dev (of_nat (pos div ?bs)) ?q b c)
       else Ret ((?q, buf), c)) = Ret ((?q, buf1), c1)" "brel K c1 v" "length buf1 = length buf"
     "\<forall>i < length buf. buf1 ! i = (if count \<le> i \<and> i < count + ?q * ?bs then vbyte v dev ?bs (pos + (i - count)) else buf ! i)"
    using read_middle [OF rel at al' m(1) n(3)] by blast
  have qr: "?q * ?bs + ?r = ?m" by simp
  have qm: "?q \<le> ?m" by simp
  have small: "pos + ?m < 2 ^ 31" using n(3) bnd(5) by linarith
  have "?q < 2 ^ 31" using qm n(4) by linarith
  then have f: "u32_of (int ?q) = ?q" by simp
  have lim: "pos + ?q * ?bs < 2 ^ 31" "count + ?q * ?bs < 2 ^ 31" using small n(4) m(2) qr by linarith+
  have nx: "(if ?m \<ge> ?bs then (pos + ?q * ?bs) mod 2 ^ 32 else pos) = pos + ?q * ?bs"
      "(if ?m \<ge> ?bs then (count + ?q * ?bs) mod 2 ^ 32 else count) = count + ?q * ?bs"
    using lim by (simp_all add: not_le)
  show ?thesis
  proof (cases "?r = 0")
    case True
    then have e: "count + ?q * ?bs = n" using qr m(2) by linarith
    have "read_rest (k_env K) (k_al K) (k_pm K) p (bd_blksz bd) dev tmp ende n pos count buf c = Ret ((int n, buf1), c1)"
      using False n(2,4) unfolding read_rest_def u Let_def f nx c1(1) unfolding e by simp
    moreover have "\<forall>i < length buf. buf1 ! i = (if count \<le> i \<and> i < n then vbyte v dev ?bs (pos + (i - count)) else buf ! i)"
      using c1(4) unfolding e .
    ultimately show ?thesis using c1(2,3) by blast
  next
    case r: False
    have rb: "?r < ?bs" using bnd(1) by simp
    have cn: "\<not> count \<ge> n" using False n(2) by simp
    have e: "\<not> count + ?q * ?bs \<ge> n" "count + ?q * ?bs + ?r = n" using qr m(2) r by linarith+
    have em: "ende mod ?bs = ?r" using ende al' by (metis add_0 mod_add_left_eq)
    have lt: "pos + ?q * ?bs < ende" using ende qr r by linarith
    have "pos + ?q * ?bs < k_nb K dev * ?bs" using lt ende n(3) by linarith
    note blk = pos_blk(1) [OF at this]
    let ?x = "(dev_id dev, of_nat ((pos + ?q * ?bs) div ?bs) :: u64)"
    have vl: "length (v ?x) = ?bs" using brel_length(1) [OF rel blk] .
    obtain c2 where c2: "dm_block_rw (k_env K) (k_al K) (k_pm K) READ dev (of_nat ((pos + ?q * ?bs) div ?bs)) tmp p c1 = Ret ((bd_blksz bd, v ?x), c2)"
        "brel K c2 v"
      using block_read [OF c1(2) blk, of tmp p] tmp by auto
    let ?buf = "take (count + ?q * ?bs) buf1 @ take ?r (v ?x) @ drop n buf1"
    have bl: "blit (count + ?q * ?bs) buf1 0 (v ?x) ?r k = k ?buf" for k :: "u8 list \<Rightarrow> ((int \<times> u8 list) \<times> 'a blk) outcome"
      using e(2) n(1) c1(3) vl rb by (simp add: blit_def)
    have "read_rest (k_env K) (k_al K) (k_pm K) p (bd_blksz bd) dev tmp ende n pos count buf c = Ret ((int n, ?buf), c2)"
      unfolding read_rest_def u Let_def f nx c1(1) em
      by (simp only: cn e r lt c2(1) bl obind.simps prod.case if_True if_False simp_thms s32_of_small [OF n(4)])
    moreover have rl: "n \<le> length buf1" "?r \<le> length (v ?x)" using n(1) c1(3) vl rb by simp_all
    note sp = splice [OF e(2) rl]
    have len: "length ?buf = length buf" using sp(1) c1(3) by simp
    moreover have "?buf ! i = (if count \<le> i \<and> i < n then vbyte v dev ?bs (pos + (i - count)) else buf ! i)" if i: "i < length buf" for i
    proof (cases "count + ?q * ?bs \<le> i \<and> i < n")
      case True
      let ?j = "i - (count + ?q * ?bs)"
      obtain P where P: "pos = P * ?bs" using al' by (metis mod_0_imp_dvd dvd_def mult.commute)
      have j: "?j < ?r" "pos + (i - count) = (P + ?q) * ?bs + ?j" unfolding add_mult_distrib using True e(2) P by linarith+
      have "vbyte v dev ?bs (pos + (i - count)) = v ?x ! ?j"
        using less_trans [OF j(1) rb] bnd(1) unfolding vbyte_def j(2) by (simp add: P)
      then show ?thesis using True sp(2) [of i] i c1(3) by simp
    next
      case out: False
      have iff: "(count \<le> i \<and> i < count + ?q * ?bs) = (count \<le> i \<and> i < n)" using out e(2) by linarith
      have "i < length buf1" using i c1(3) by simp
      then have "?buf ! i = buf1 ! i" by (simp only: sp(2) [of i] out if_False)
      then show ?thesis using c1(4) [rule_format, OF i] by (simp only: iff)
    qed
    ultimately show ?thesis using c2(2) by blast
  qed
qed

lemma dm_block_read_ok:
  assumes rel: "brel K c v" and at: "k_att K dev p bd" and n: "n \<le> length buf" "pos + n \<le> k_nb K dev * nat (bd_blksz bd)"
    and al: "pos mod nat (bd_blksz bd) = 0 \<or> pos mod nat (bd_blksz bd) + n \<le> nat (bd_blksz bd)" and len: "0 < n"
  shows "\<exists>buf' c'. dm_block_read (k_env K) (k_al K) (k_pm K) stk dev (int pos) buf n c = Ret ((int n, buf'), c') \<and>
     brel K c' v \<and> length buf' = length buf \<and>
     (\<forall>i < length buf. buf' ! i = (if i < n then vbyte v dev (nat (bd_blksz bd)) (pos + i) else buf ! i))"
proof -
  let ?bs = "nat (bd_blksz bd)"
  note bnd = att_bounds [OF at] and u = att_u32 [OF at]
  have w: "dm_devs (c_world c) = k_devs K" "dm_bds (c_world c) p = Some bd"
    using rel at by (simp_all add: brel_def world_ok_def attached_def)
  obtain d where d: "dm_lookup (k_env K) (MAJOR dev) (c_world c) = Ret (Some d, c_world c)" "dv_ptr d = p"
    using lookup_attached [OF at w(1)] by blast
  have "pos + n < 2 ^ 31" using n(2) bnd(5) by linarith
  then have f: "u32_of (int pos) = pos" "u32_of (int pos + int n) = pos + n" "n < 2 ^ 31"
    using u32_of_small [of "pos + n"] by simp_all
  let ?tmp = "map stk [0..<?bs]"
  show ?thesis
  proof (cases "pos mod ?bs = 0")
    case True
    have "\<exists>buf' c'. read_rest (k_env K) (k_al K) (k_pm K) p (bd_blksz bd) dev ?tmp (pos + n) n pos 0 buf c = Ret ((int n, buf'), c') \<and>
       brel K c' v \<and> length buf' = length buf \<and>
       (\<forall>i < length buf. buf' ! i = (if 0 \<le> i \<and> i < n then vbyte v dev ?bs (pos + (i - 0)) else buf ! i))"
      by (rule read_rest_ok [OF rel at]) (use n f(3) True in simp_all)
    moreover have "dm_block_read (k_env K) (k_al K) (k_pm K) stk dev (int pos) buf n c =
        read_rest (k_env K) (k_al K) (k_pm K) p (bd_blksz bd) dev ?tmp (pos + n) n pos 0 buf c"
      using True d w(2) bnd(1) by (simp add: dm_block_read_def on_world_def Let_def u f)
    ultimately show ?thesis by (simp only: le0 simp_thms diff_zero)
  next
    case False
    then have off: "pos mod ?bs + n \<le> ?bs" using al by simp
    then have cnt: "min (?bs - pos mod ?bs) n = n" by simp
    have "pos < k_nb K dev * ?bs" using n(2) len by linarith
    note blk = pos_blk(1) [OF at this]
    let ?x = "(dev_id dev, of_nat (pos div ?bs) :: u64)"
    have vl: "length (v ?x) = ?bs" using brel_length(1) [OF rel blk] .
    obtain c1 where c1: "dm_block_rw (k_env K) (k_al K) (k_pm K) READ dev (of_nat (pos div ?bs)) ?tmp p c = Ret ((bd_blksz bd, v ?x), c1)" "brel K c1 v"
      using block_read [OF rel blk, of ?tmp p] by auto
    let ?buf = "take 0 buf @ take n (drop (pos mod ?bs) (v ?x)) @ drop n buf"
    have bl: "blit 0 buf (pos mod ?bs) (v ?x) n k = k ?buf" for k :: "u8 list \<Rightarrow> ((int \<times> u8 list) \<times> 'a blk) outcome"
      using n(1) vl off by (simp add: blit_def)
    have "n \<le> length (drop (pos mod ?bs) (v ?x))" using vl off by simp
    note sp = splice [OF add_0 n(1) this]
    have rr: "read_rest (k_env K) (k_al K) (k_pm K) p (bd_blksz bd) dev (v ?x) (pos + n) n ((pos + n) mod 2 ^ 32) n ?buf c1 = Ret ((int n, ?buf), c1)"
      using f(3) by (simp add: read_rest_def Let_def)
    have "dm_block_read (k_env K) (k_al K) (k_pm K) stk dev (int pos) buf n c = Ret ((int n, ?buf), c1)"
      using False d w(2) bnd(1) c1(1) rr by (simp add: dm_block_read_def on_world_def Let_def u f cnt bl)
    moreover have "?buf ! i = (if i < n then vbyte v dev ?bs (pos + i) else buf ! i)" if i: "i < length buf" for i
    proof (cases "i < n")
      case True
      then have "pos mod ?bs + i < ?bs" using off by simp
      then show ?thesis using True sp(2) [OF i] vl by (simp add: vbyte_def within_block)
    next
      case False
      then show ?thesis using sp(2) [OF i] by simp
    qed
    ultimately show ?thesis using c1(2) sp(1) by blast
  qed
qed

section \<open>Writing bytes\<close>

text \<open>The contents after writing bytes at a position of a device.\<close>

definition vwrite :: "(u64 \<times> u64 \<Rightarrow> u8 list) \<Rightarrow> int \<Rightarrow> nat \<Rightarrow> nat \<Rightarrow> u8 list \<Rightarrow> u64 \<times> u64 \<Rightarrow> u8 list" where
  "vwrite v dev bs pos data = (\<lambda>(i, k). if i = dev_id dev then
     map (\<lambda>j. let x = unat k * bs + j in
       if j < bs \<and> pos \<le> x \<and> x < pos + length data then data ! (x - pos) else v (i, k) ! j) [0..<length (v (i, k))]
     else v (i, k))"

lemma vwrite_length [simp]: "length (vwrite v dev bs pos data x) = length (v x)"
  by (cases x) (simp add: vwrite_def)

lemma vwrite_nth:
  "j < length (v (dev_id dev, k)) \<Longrightarrow> vwrite v dev bs pos data (dev_id dev, k) ! j =
     (if j < bs \<and> pos \<le> unat k * bs + j \<and> unat k * bs + j < pos + length data then data ! (unat k * bs + j - pos)
      else v (dev_id dev, k) ! j)"
  by (simp add: vwrite_def Let_def)

lemma vwrite_other: "i \<noteq> dev_id dev \<Longrightarrow> vwrite v dev bs pos data (i, k) = v (i, k)"
  by (simp add: vwrite_def)

lemma vwrite_eqI:
  assumes "\<And>x. length (u x) = length (v x)" "\<And>i k. i \<noteq> dev_id dev \<Longrightarrow> u (i, k) = v (i, k)"
    "\<And>k j. j < length (v (dev_id dev, k)) \<Longrightarrow> u (dev_id dev, k) ! j =
       (if j < bs \<and> pos \<le> unat k * bs + j \<and> unat k * bs + j < pos + length data then data ! (unat k * bs + j - pos)
        else v (dev_id dev, k) ! j)"
  shows "u = vwrite v dev bs pos data"
proof
  fix x :: "u64 \<times> u64"
  obtain i k where x: "x = (i, k)" by (cases x)
  show "u x = vwrite v dev bs pos data x"
  proof (cases "i = dev_id dev")
    case True
    show ?thesis
    proof (rule nth_equalityI)
      show "length (u x) = length (vwrite v dev bs pos data x)" using assms(1) by simp
      fix j assume "j < length (u x)"
      then have "j < length (v (dev_id dev, k))" using assms(1) x True by simp
      then show "u x ! j = vwrite v dev bs pos data x ! j" using x True assms(3) vwrite_nth by simp
    qed
  qed (use x assms(2) vwrite_other in simp)
qed

lemma vwrite_nil [simp]: "vwrite v dev bs pos [] = v"
  by (rule vwrite_eqI [symmetric]) auto

lemma vwrite_append: "vwrite (vwrite v dev bs pos a) dev bs (pos + length a) b = vwrite v dev bs pos (a @ b)"
  by (rule vwrite_eqI) (auto simp: vwrite_nth vwrite_other nth_append)

text \<open>Replacing part of one block.\<close>

lemma vwrite_block:
  assumes "length (v (dev_id dev, blk)) = bs" "unat blk = pos div bs" "pos mod bs + length data \<le> bs"
  shows "v((dev_id dev, blk) := take (pos mod bs) (v (dev_id dev, blk)) @ data @ drop (pos mod bs + length data) (v (dev_id dev, blk))) =
     vwrite v dev bs pos data"
proof (rule vwrite_eqI)
  let ?x = "(dev_id dev, blk)" and ?o = "pos mod bs"
  let ?new = "take ?o (v ?x) @ data @ drop (?o + length data) (v ?x)"
  have len: "length ?new = length (v ?x)" using assms(1,3) by simp
  then show "length ((v(?x := ?new)) x) = length (v x)" for x by simp
  show "(v(?x := ?new)) (i, k) = v (i, k)" if "i \<noteq> dev_id dev" for i k using that by simp
  fix k :: u64 and j assume j: "j < length (v (dev_id dev, k))"
  have pos: "pos = pos div bs * bs + ?o" by simp
  show "(v(?x := ?new)) (dev_id dev, k) ! j =
       (if j < bs \<and> pos \<le> unat k * bs + j \<and> unat k * bs + j < pos + length data then data ! (unat k * bs + j - pos)
        else v (dev_id dev, k) ! j)"
  proof (cases "k = blk")
    case True
    then have u: "unat k * bs = pos div bs * bs" and jb: "j < bs" using j assms(1,2) by simp_all
    have iff: "(j < bs \<and> pos \<le> unat k * bs + j \<and> unat k * bs + j < pos + length data) = (?o \<le> j \<and> j < ?o + length data)"
      "unat k * bs + j - pos = j - ?o"
      using u jb pos by linarith+
    have "?new ! j = (if ?o \<le> j \<and> j < ?o + length data then data ! (j - ?o) else v ?x ! j)"
      using j True assms(1,3) by (auto simp: nth_append min_def)
    then show ?thesis unfolding iff using True by simp
  next
    case False
    then have "unat k \<noteq> pos div bs" using assms(2) by (simp add: word_unat_eq_iff)
    then have "unat k + 1 \<le> pos div bs \<or> pos div bs + 1 \<le> unat k" by linarith
    then have "(unat k + 1) * bs \<le> pos div bs * bs \<or> (pos div bs + 1) * bs \<le> unat k * bs"
      by (meson mult_le_mono1)
    then have "unat k * bs + j < pos \<or> pos + length data \<le> unat k * bs + j" if "j < bs"
      using pos assms(3) that unfolding add_mult_distrib by linarith
    then show ?thesis using False by auto
  qed
qed

lemma vwrite_whole:
  assumes "length (v (dev_id dev, of_nat (pos div bs))) = bs" "unat (of_nat (pos div bs) :: u64) = pos div bs" "pos mod bs = 0"
    "length data = bs"
  shows "v((dev_id dev, of_nat (pos div bs)) := data) = vwrite v dev bs pos data"
  using vwrite_block [of v dev "of_nat (pos div bs)" bs pos data] assms by simp

lemma write_blocks_ok:
  assumes "brel K c v" "k_att K dev p bd" "pos mod nat (bd_blksz bd) = 0" "k * nat (bd_blksz bd) \<le> length buf"
    "pos + k * nat (bd_blksz bd) \<le> k_nb K dev * nat (bd_blksz bd)"
  shows "\<exists>c'. write_blocks k (k_env K) (k_al K) (k_pm K) p (bd_blksz bd) dev pos buf c =
       Ret ((True, pos + k * nat (bd_blksz bd), drop (k * nat (bd_blksz bd)) buf), c') \<and>
     brel K c' (vwrite v dev (nat (bd_blksz bd)) pos (take (k * nat (bd_blksz bd)) buf))"
  using assms
proof (induction k arbitrary: pos buf c v)
  case (Suc k)
  let ?bs = "nat (bd_blksz bd)"
  note bnd = att_bounds [OF Suc.prems(2)] and u = att_u32 [OF Suc.prems(2)]
  have fit: "?bs \<le> length buf" "k * ?bs \<le> length (drop ?bs buf)" using Suc.prems(4) by simp_all
  have lt: "pos < k_nb K dev * ?bs" using Suc.prems(5) bnd(1) by simp
  note blk = pos_blk [OF Suc.prems(2) lt]
  have le: "pos + ?bs + k * ?bs \<le> k_nb K dev * ?bs" using Suc.prems(5) by simp
  then have "pos + ?bs < 2 ^ 31" using bnd(5) by linarith
  then have nx: "(pos + ?bs) mod 2 ^ 32 = pos + ?bs" by simp
  have v1: "v((dev_id dev, of_nat (pos div ?bs)) := take ?bs buf) = vwrite v dev ?bs pos (take ?bs buf)"
    using brel_length(1) [OF Suc.prems(1) blk(1)] blk(2) Suc.prems(3) fit(1) by (intro vwrite_whole) simp_all
  obtain c1 where c1: "dm_block_rw (k_env K) (k_al K) (k_pm K) WRITE dev (of_nat (pos div ?bs)) buf p c = Ret ((bd_blksz bd, buf), c1)"
      "brel K c1 (vwrite v dev ?bs pos (take ?bs buf))"
    using block_write [OF Suc.prems(1) blk(1) fit(1), of p] unfolding v1 by blast
  have al: "(pos + ?bs) mod ?bs = 0" using Suc.prems(3) by simp
  obtain c2 where c2: "write_blocks k (k_env K) (k_al K) (k_pm K) p (bd_blksz bd) dev (pos + ?bs) (drop ?bs buf) c1 =
       Ret ((True, pos + ?bs + k * ?bs, drop (k * ?bs) (drop ?bs buf)), c2)"
      "brel K c2 (vwrite (vwrite v dev ?bs pos (take ?bs buf)) dev ?bs (pos + ?bs) (take (k * ?bs) (drop ?bs buf)))"
    using Suc.IH [OF c1(2) Suc.prems(2) al fit(2) le] by blast
  have "vwrite (vwrite v dev ?bs pos (take ?bs buf)) dev ?bs (pos + ?bs) (take (k * ?bs) (drop ?bs buf)) =
      vwrite v dev ?bs pos (take (Suc k * ?bs) buf)"
    using vwrite_append [of v dev ?bs pos "take ?bs buf"] fit(1) by (simp add: take_add)
  with c1(1) c2 nx show ?case by (simp add: u add.assoc add.commute)
qed simp

lemma take_len: "n \<le> length xs \<Longrightarrow> length (take n xs) = n"
  by simp

lemma append_take_full:
  assumes "length xs = r" "length ys = b" "r \<le> b"
  shows "length (xs @ drop r ys) = b" "take b (xs @ drop r ys) = xs @ drop r ys"
  using assms by simp_all

lemma spliced_length:
  "i + w \<le> b \<Longrightarrow> length d = w \<Longrightarrow> length xs = b \<Longrightarrow> length (take i xs @ d @ drop (i + w) xs) = b"
  by simp

lemma next_boundary:
  fixes bs :: nat
  assumes "0 < bs"
  shows "n - min (bs - pos mod bs) n = 0 \<or> (pos + min (bs - pos mod bs) n) mod bs = 0"
proof (cases "n \<le> bs - pos mod bs")
  case False
  have "pos + (bs - pos mod bs) = bs * Suc (pos div bs)"
    using mult_div_mod_eq [of bs pos] mod_less_divisor [OF assms, of pos] unfolding mult_Suc_right by linarith
  then have "(pos + (bs - pos mod bs)) mod bs = 0" by simp
  then show ?thesis using False by simp
qed simp

lemma write_rest_ok:
  assumes rel: "brel K c v" and at: "k_att K dev p bd" and bl: "length buffer = nat (bd_blksz bd)"
    and n: "count \<le> length buf" "pos + count \<le> k_nb K dev * nat (bd_blksz bd)" "pos0 \<le> pos"
    and al: "count = 0 \<or> pos mod nat (bd_blksz bd) = 0"
  shows "\<exists>c'. write_rest (k_env K) (k_al K) (k_pm K) p (bd_blksz bd) dev buffer (int pos0) count pos buf c = Ret (int (pos + count - pos0), c') \<and>
     brel K c' (vwrite v dev (nat (bd_blksz bd)) pos (take count buf))"
proof -
  let ?bs = "nat (bd_blksz bd)"
  let ?q = "count div ?bs" and ?r = "count mod ?bs"
  note bnd = att_bounds [OF at] and u = att_u32 [OF at]
  have qr: "?q * ?bs + ?r = count" by simp
  have lim: "pos + count < 2 ^ 31" using n(2) bnd(5) by linarith
  have s32: "s32_of (int x - int pos0) = int (x - pos0)" if "pos0 \<le> x" "x \<le> pos + count" for x
    using s32_of_small [of "x - pos0"] that lim by (simp add: of_nat_diff)
  have fit: "?q * ?bs \<le> length buf" "pos + ?q * ?bs \<le> k_nb K dev * ?bs" using qr n(1,2) by linarith+
  let ?v = "vwrite v dev ?bs pos (take (?q * ?bs) buf)"
  obtain c1 where c1: "write_blocks ?q (k_env K) (k_al K) (k_pm K) p (bd_blksz bd) dev pos buf c = Ret ((True, pos + ?q * ?bs, drop (?q * ?bs) buf), c1)"
      "brel K c1 ?v"
  proof (cases "count = 0")
    case True
    then show thesis using that rel by simp
  next
    case False
    then have "pos mod ?bs = 0" using al by simp
    from write_blocks_ok [OF rel at this fit] show thesis by (elim exE conjE) (rule that)
  qed
  show ?thesis
  proof (cases "?r = 0")
    case True
    then have e: "?q * ?bs = count" using qr by linarith
    have "write_rest (k_env K) (k_al K) (k_pm K) p (bd_blksz bd) dev buffer (int pos0) count pos buf c = Ret (int (pos + count - pos0), c1)"
      unfolding write_rest_def u Let_def c1(1) using True s32 [of "pos + count"] n(3) by (simp add: e)
    then show ?thesis using c1(2) unfolding e by blast
  next
    case False
    let ?pos = "pos + ?q * ?bs" and ?rest = "drop (?q * ?bs) buf"
    have rb: "?r < ?bs" using bnd(1) by simp
    have rl: "?r \<le> length ?rest" unfolding length_drop using qr n(1) by linarith
    have "count \<noteq> 0" using False by (rule contrapos_nn) simp
    then have al': "?pos mod ?bs = 0" using al by simp
    have lt: "?pos < k_nb K dev * ?bs" using False qr n(2) by linarith
    note blk = pos_blk [OF at lt]
    let ?x = "(dev_id dev, of_nat (?pos div ?bs) :: u64)"
    have vl: "length (?v ?x) = ?bs" using brel_length(1) [OF c1(2) blk(1)] .
    obtain c2 where c2: "dm_block_rw (k_env K) (k_al K) (k_pm K) READ dev (of_nat (?pos div ?bs)) buffer p c1 = Ret ((bd_blksz bd, ?v ?x), c2)" "brel K c2 ?v"
      using block_read [OF c1(2) blk(1), of buffer p] bl by auto
    let ?b = "take ?r ?rest @ drop ?r (?v ?x)"
    have bt: "blit 0 (?v ?x) 0 ?rest ?r k = k ?b" for k :: "u8 list \<Rightarrow> (int \<times> 'a blk) outcome"
      using rb rl vl by (simp only: blit_def add_0 drop_0 take_0 append_Nil if_True simp_thms less_imp_le)
    have rt: "length (take ?r ?rest) = ?r" using rl by (rule take_len)
    have bl': "?bs \<le> length ?b" "take ?bs ?b = ?b" unfolding append_take_full [OF rt vl less_imp_le [OF rb]] by simp_all
    obtain c3 where c3: "dm_block_rw (k_env K) (k_al K) (k_pm K) WRITE dev (of_nat (?pos div ?bs)) ?b p c2 = Ret ((bd_blksz bd, ?b), c3)"
        "brel K c3 (?v(?x := ?b))"
      using block_write [OF c2(2) blk(1) bl'(1), of p] unfolding bl'(2) by blast
    have v1: "?v(?x := ?b) = vwrite ?v dev ?bs ?pos (take ?r ?rest)"
      using vwrite_block [of ?v dev "of_nat (?pos div ?bs)" ?bs ?pos "take ?r ?rest", OF vl blk(2)] rb
      unfolding al' rt by (simp only: add_0 take_0 append_Nil less_imp_le simp_thms)
    have "take count buf = take (?q * ?bs) buf @ take ?r ?rest" using take_add [of "?q * ?bs" ?r buf] unfolding qr .
    moreover have "length (take (?q * ?bs) buf) = ?q * ?bs" using fit(1) by simp
    ultimately have v2: "vwrite ?v dev ?bs ?pos (take ?r ?rest) = vwrite v dev ?bs pos (take count buf)"
      using vwrite_append [of v dev ?bs pos "take (?q * ?bs) buf" "take ?r ?rest"] by simp
    have e: "(?pos + ?r) mod 2 ^ 32 = pos + count" using qr lim by simp
    have "write_rest (k_env K) (k_al K) (k_pm K) p (bd_blksz bd) dev buffer (int pos0) count pos buf c = Ret (int (pos + count - pos0), c3)"
      unfolding write_rest_def u Let_def c1(1)
      by (simp only: c2(1) bt c3(1) False e s32 n(3) obind.simps prod.case if_True if_False simp_thms trans_le_add1 order_refl)
    then show ?thesis using c3(2) unfolding v1 v2 by blast
  qed
qed

lemma dm_block_write_ok:
  assumes rel: "brel K c v" and at: "k_att K dev p bd" and n: "n \<le> length buf" "pos + n \<le> k_nb K dev * nat (bd_blksz bd)" "0 < n"
  shows "\<exists>c'. dm_block_write (k_env K) (k_al K) (k_pm K) stk dev (int pos) buf n c = Ret (int n, c') \<and>
     brel K c' (vwrite v dev (nat (bd_blksz bd)) pos (take n buf))"
proof -
  let ?bs = "nat (bd_blksz bd)"
  note bnd = att_bounds [OF at] and u = att_u32 [OF at]
  have w: "dm_devs (c_world c) = k_devs K" "dm_bds (c_world c) p = Some bd"
    using rel at by (simp_all add: brel_def world_ok_def attached_def)
  obtain d where d: "dm_lookup (k_env K) (MAJOR dev) (c_world c) = Ret (Some d, c_world c)" "dv_ptr d = p"
    using lookup_attached [OF at w(1)] by blast
  have lim: "pos + n < 2 ^ 31" using n(2) bnd(5) by linarith
  then have f: "u32_of (int pos) = pos" by simp
  let ?buffer = "map stk [0..<?bs]"
  show ?thesis
  proof (cases "pos mod ?bs = 0")
    case True
    obtain c' where c': "write_rest (k_env K) (k_al K) (k_pm K) p (bd_blksz bd) dev ?buffer (int pos) n pos buf c = Ret (int n, c')"
        "brel K c' (vwrite v dev ?bs pos (take n buf))"
      using write_rest_ok [OF rel at _ n(1,2) order_refl, of ?buffer] True by auto
    then have "dm_block_write (k_env K) (k_al K) (k_pm K) stk dev (int pos) buf n c = Ret (int n, c')"
      using True d w(2) bnd(1) n(3) by (simp add: dm_block_write_def on_world_def Let_def u f)
    with c'(2) show ?thesis by blast
  next
    case False
    let ?o = "pos mod ?bs"
    let ?w = "min (?bs - ?o) n"
    have o: "?o < ?bs" using bnd(1) by simp
    have lt: "pos < k_nb K dev * ?bs" using n(2,3) by linarith
    note blk = pos_blk [OF at lt]
    let ?x = "(dev_id dev, of_nat (pos div ?bs) :: u64)"
    have vl: "length (v ?x) = ?bs" using brel_length(1) [OF rel blk(1)] .
    obtain c1 where c1: "dm_block_rw (k_env K) (k_al K) (k_pm K) READ dev (of_nat (pos div ?bs)) ?buffer p c = Ret ((bd_blksz bd, v ?x), c1)" "brel K c1 v"
      using block_read [OF rel blk(1), of ?buffer p] by auto
    let ?b = "take ?o (v ?x) @ take ?w buf @ drop (?o + ?w) (v ?x)"
    have wl: "?o + ?w \<le> ?bs" "?w \<le> length buf" "length (take ?w buf) = ?w" using o n(1) by simp_all
    have bt: "blit ?o (v ?x) 0 buf ?w k = k ?b" for k :: "u8 list \<Rightarrow> (int \<times> 'a blk) outcome"
      using wl vl by (simp only: blit_def add_0 drop_0 if_True simp_thms)
    have bl': "length ?b = ?bs" by (rule spliced_length [OF wl(1,3) vl])
    obtain c2 where c2: "dm_block_rw (k_env K) (k_al K) (k_pm K) WRITE dev (of_nat (pos div ?bs)) ?b p c1 = Ret ((bd_blksz bd, ?b), c2)"
        "brel K c2 (v(?x := take ?bs ?b))"
      using block_write [OF c1(2) blk(1) eq_imp_le [OF bl' [symmetric]], of p] by blast
    have "take ?bs ?b = ?b" using eq_imp_le [OF bl'] by (rule take_all)
    then have v1: "v(?x := take ?bs ?b) = vwrite v dev ?bs pos (take ?w buf)"
      using vwrite_block [of v dev "of_nat (pos div ?bs)" ?bs pos "take ?w buf", OF vl blk(2)] wl by (simp only: simp_thms)
    have pw: "(pos + ?w) mod 2 ^ 32 = pos + ?w" using lim by simp
    have al: "n - ?w = 0 \<or> (pos + ?w) mod ?bs = 0"
      by (rule next_boundary [OF bnd(1)])
    have wn: "pos + ?w + (n - ?w) = pos + n" unfolding add.assoc le_add_diff_inverse [OF min.cobounded2] ..
    have rs: "n - ?w \<le> length (drop ?w buf)" unfolding length_drop by (rule diff_le_mono [OF n(1)])
    have rs2: "pos + ?w + (n - ?w) \<le> k_nb K dev * ?bs" unfolding wn by (rule n(2))
    have b2: "brel K c2 (vwrite v dev ?bs pos (take ?w buf))" using c2(2) unfolding v1 .
    note r = write_rest_ok [OF b2 at bl' rs rs2 le_add1 al]
    obtain c3 where c3: "write_rest (k_env K) (k_al K) (k_pm K) p (bd_blksz bd) dev ?b (int pos) (n - ?w) (pos + ?w) (drop ?w buf) c2 =
        Ret (int (pos + ?w + (n - ?w) - pos), c3)"
        "brel K c3 (vwrite (vwrite v dev ?bs pos (take ?w buf)) dev ?bs (pos + ?w) (take (n - ?w) (drop ?w buf)))"
      using r by (elim exE conjE) (rule that)
    have tk: "take n buf = take ?w buf @ take (n - ?w) (drop ?w buf)"
      using take_add [of ?w "n - ?w" buf] unfolding le_add_diff_inverse [OF min.cobounded2] .
    have v2: "vwrite (vwrite v dev ?bs pos (take ?w buf)) dev ?bs (pos + ?w) (take (n - ?w) (drop ?w buf)) = vwrite v dev ?bs pos (take n buf)"
      using vwrite_append [of v dev ?bs pos "take ?w buf" "take (n - ?w) (drop ?w buf)"] unfolding wl(3) tk .
    have cc: "c\<lparr>c_world := c_world c\<rparr> = c" by simp
    have nn: "pos + ?w + (n - ?w) - pos = n" unfolding wn by simp
    have "dm_block_write (k_env K) (k_al K) (k_pm K) stk dev (int pos) buf n c = Ret (int n, c3)"
      unfolding dm_block_write_def on_world_def d(1) using w(2) bnd(1) n(3)
      by (simp only: obind.simps prod.case option.case cc Let_def u f False c1(1) bt c2(1) pw c3(1) nn
          deref_Some d(2) if_False if_True simp_thms) simp
    with c3(2) show ?thesis unfolding v2 by blast
  qed
qed

section \<open>Refinement of an array of bytes\<close>

text \<open>
  The users of a block device: byte access through \<^verbatim>\<open>dm_block_device_rw\<close>, writing the cache out and dropping a device
  from it.  The cache holds at most 100001 elements, so the fuel is enough for its loops.
\<close>

datatype bop = BRead int nat "u8 list" nat | BWrite int nat "u8 list" nat | BSync | BDisconnect int

definition cache_fuel :: nat where "cache_fuel = 100002"

fun bstep :: "'d conf \<Rightarrow> (nat \<Rightarrow> u8) \<Rightarrow> bop \<Rightarrow> 'd blk \<Rightarrow> ((int \<times> u8 list) \<times> 'd blk) outcome" where
  "bstep K stk (BRead dev pos buf n) c = dm_block_device_rw (k_env K) (k_al K) (k_pm K) stk READ dev (int pos) buf n c"
| "bstep K stk (BWrite dev pos buf n) c = dm_block_device_rw (k_env K) (k_al K) (k_pm K) stk WRITE dev (int pos) buf n c"
| "bstep K stk BSync c = obind (cache_sync cache_fuel (k_env K) (\<lambda>_. False) c) (\<lambda>c. Ret ((0, []), c))"
| "bstep K stk (BDisconnect dev) c = obind (dm_disconnect_block_cache cache_fuel (k_env K) dev c) (\<lambda>(r, c). Ret ((r, []), c))"

text \<open>The specification: the bytes of the attached devices, within their bounds.\<close>

definition k_bs :: "'d conf \<Rightarrow> int \<Rightarrow> nat" where
  "k_bs K dev = (case registered (k_devs K) DT_BLOCK (MAJOR dev) of [] \<Rightarrow> 0
     | p # _ \<Rightarrow> (case k_bds K p of None \<Rightarrow> 0 | Some bd \<Rightarrow> nat (bd_blksz bd)))"

definition in_device :: "'d conf \<Rightarrow> int \<Rightarrow> nat \<Rightarrow> u8 list \<Rightarrow> nat \<Rightarrow> bool" where
  "in_device K dev pos buf n \<longleftrightarrow> (\<exists>p bd. k_att K dev p bd) \<and> 0 < n \<and> n \<le> length buf \<and> pos + n \<le> k_nb K dev * k_bs K dev"

fun bastep :: "'d conf \<Rightarrow> bop \<Rightarrow> (u64 \<times> u64 \<Rightarrow> u8 list) \<Rightarrow> ((int \<times> u8 list) \<times> (u64 \<times> u64 \<Rightarrow> u8 list)) option" where
  "bastep K (BRead dev pos buf n) v =
     (if in_device K dev pos buf n \<and> (pos mod k_bs K dev = 0 \<or> pos mod k_bs K dev + n \<le> k_bs K dev)
      then Some ((int n, map (\<lambda>i. vbyte v dev (k_bs K dev) (pos + i)) [0..<n] @ drop n buf), v) else None)"
| "bastep K (BWrite dev pos buf n) v =
     (if in_device K dev pos buf n then Some ((int n, buf), vwrite v dev (k_bs K dev) pos (take n buf)) else None)"
| "bastep K BSync v = Some ((0, []), v)"
| "bastep K (BDisconnect dev) v = Some ((0, []), v)"

lemma att_bs: "k_att K dev p bd \<Longrightarrow> k_bs K dev = nat (bd_blksz bd)"
  by (auto simp: attached_def k_bs_def)

lemma cache_rel_lengths: "k_rel K c ds ps v \<Longrightarrow> length ds < cache_fuel \<and> length ps < cache_fuel"
proof
  assume "k_rel K c ds ps v"
  then have c: "cache_ok (k_env K) c ds ps" by (simp add: cache_rel_def)
  then show ps: "length ps < cache_fuel" by (simp add: cache_ok_def cache_fuel_def)
  have d: "distinct (map snd ds)" "snd ` set ds \<subseteq> dom (c_elems c)" using c by (fastforce simp: cache_ok_def dirty_ok_def)+
  then have "length ds \<le> card (dom (c_elems c))"
    using card_mono [OF cache_ok_card(2) [OF c] d(2)] distinct_card [OF d(1)] by simp
  then show "length ds < cache_fuel" using cache_ok_card(1) [OF c] ps by simp
qed

lemma brelI:
  assumes "brel K c v" "k_rel K c' ds ps v" "c_rwl c' = c_rwl c" "world_ok K (c_world c')"
  shows "brel K c' v"
  using assms unfolding brel_def by metis

lemma rel_world:
  assumes "k_rel K c ds ps v" "ps \<noteq> []"
  shows "\<exists>x n. k_blk K x n (c_world c)"
proof -
  have "snd ` set ps = dom (c_elems c)" using assms(1) by (simp add: cache_rel_def cache_ok_def primary_ok_def)
  then have "dom (c_elems c) \<noteq> {}" using assms(2) by (cases ps) auto
  then obtain q e where "c_elems c q = Some e" by (auto simp: dom_def)
  then show ?thesis using assms(1) unfolding cache_rel_def by metis
qed

lemma blk_world: "k_blk K x n s \<Longrightarrow> world_ok K s"
  by (simp add: blk_ok_def world_ok_def)

lemma dirty_primary:
  assumes "k_rel K c ds [] v"
  shows "ds = []"
proof (rule ccontr)
  assume "ds \<noteq> []"
  then obtain n p where "(n, p) \<in> set ds" by (cases ds) auto
  moreover have "dirty_ok (k_env K) c ds" "dom (c_elems c) = {}"
    using assms by (simp_all add: cache_rel_def cache_ok_def primary_ok_def)
  ultimately show False unfolding dirty_ok_def by fastforce
qed

lemma cache_sync_ok:
  assumes "brel K c v"
  shows "\<exists>c'. cache_sync cache_fuel (k_env K) (\<lambda>_. False) c = Ret c' \<and> brel K c' v \<and> k_content K (c_world c') = v"
proof -
  obtain ds ps where r: "k_rel K c ds ps v" "rw_free (c_rwl c)" "world_ok K (c_world c)"
    using assms unfolding brel_def by (elim exE conjE) (rule that)
  have "length ds < cache_fuel" using cache_rel_lengths [OF r(1)] by (rule conjunct1)
  moreover have "\<forall>j. \<not> (\<lambda>_. False) (j :: nat)" by simp
  ultimately obtain c' where c':
      "cache_sync cache_fuel (k_env K) (\<lambda>_. False) c = Ret c'" "k_rel K c' [] ps v" "c_rwl c' = c_rwl c" "k_content K (c_world c') = v"
    using blkc.sync_all [OF r(1,2)] by (metis (no_types, lifting))
  have "world_ok K (c_world c')"
  proof (cases "ps = []")
    case True
    then have "ds = []" using dirty_primary r(1) by blast
    then have "c_dirty c = 0" using r(1) by (simp add: cache_rel_def cache_ok_def dirty_ok_def)
    then show ?thesis using c'(1) r(3) by (simp add: cache_sync_def)
  next
    case False
    then show ?thesis using rel_world [OF c'(2)] blk_world by blast
  qed
  then show ?thesis using c'(1,4) brelI [OF assms c'(2,3)] by blast
qed

lemma disconnect_ok:
  assumes "brel K c v"
  shows "\<exists>c'. dm_disconnect_block_cache cache_fuel (k_env K) dev c = Ret (0, c') \<and> brel K c' v"
proof -
  obtain ds ps where r: "k_rel K c ds ps v" "rw_free (c_rwl c)" "world_ok K (c_world c)"
    using assms unfolding brel_def by (elim exE conjE) (rule that)
  have "length ps < cache_fuel" using cache_rel_lengths [OF r(1)] by (rule conjunct2)
  from blkc.destroy_id [OF r(1,2) this, of "word_of_int dev"] obtain c' ds' ps' where c':
      "cache_destroy_all_id cache_fuel (k_env K) (word_of_int dev) c = Ret (0, c')" "k_rel K c' ds' ps' v" "c_rwl c' = c_rwl c"
      "\<forall>x n. k_blk K x n (c_world c) \<longrightarrow> k_blk K x n (c_world c')" "ps = [] \<longrightarrow> c_world c' = c_world c"
    by (elim exE conjE) (rule that)
  have "world_ok K (c_world c')"
  proof (cases "ps = []")
    case True
    then show ?thesis using c'(5) r(3) by simp
  next
    case False
    then show ?thesis using rel_world [OF r(1)] c'(4) blk_world by blast
  qed
  then show ?thesis using c'(1) brelI [OF assms c'(2,3)] unfolding dm_disconnect_block_cache_def by blast
qed

lemma in_deviceE:
  assumes "in_device K dev pos buf n"
  obtains p bd where "k_att K dev p bd" "k_bs K dev = nat (bd_blksz bd)" "0 < n" "n \<le> length buf"
    "pos + n \<le> k_nb K dev * nat (bd_blksz bd)"
  using assms att_bs unfolding in_device_def by metis

lemma bread_ok:
  assumes rel: "brel K c v" and step: "bastep K (BRead dev pos buf n) v = Some (r, v')"
  shows "\<exists>c'. bstep K stk (BRead dev pos buf n) c = Ret (r, c') \<and> brel K c' v'"
proof -
  have i: "in_device K dev pos buf n" and al: "pos mod k_bs K dev = 0 \<or> pos mod k_bs K dev + n \<le> k_bs K dev"
    and r: "r = (int n, map (\<lambda>i. vbyte v dev (k_bs K dev) (pos + i)) [0..<n] @ drop n buf)" "v' = v"
    using step by (auto split: if_splits)
  obtain p bd where at: "k_att K dev p bd" and bs: "k_bs K dev = nat (bd_blksz bd)" and n: "0 < n" "n \<le> length buf"
      "pos + n \<le> k_nb K dev * nat (bd_blksz bd)" by (rule in_deviceE [OF i])
  from dm_block_read_ok [OF rel at n(2,3) al [unfolded bs] n(1), of stk] obtain buf' c' where
      c': "dm_block_read (k_env K) (k_al K) (k_pm K) stk dev (int pos) buf n c = Ret ((int n, buf'), c')"
        "brel K c' v" "length buf' = length buf"
        "\<forall>i < length buf. buf' ! i = (if i < n then vbyte v dev (nat (bd_blksz bd)) (pos + i) else buf ! i)"
    by (elim exE conjE) (rule that)
  have "buf' = map (\<lambda>i. vbyte v dev (nat (bd_blksz bd)) (pos + i)) [0..<n] @ drop n buf"
    using c'(3,4) n(2) by (intro nth_equalityI) (auto simp: nth_append)
  then show ?thesis using c'(1,2) by (simp add: dm_block_device_rw_def r bs)
qed

lemma bwrite_ok:
  assumes rel: "brel K c v" and step: "bastep K (BWrite dev pos buf n) v = Some (r, v')"
  shows "\<exists>c'. bstep K stk (BWrite dev pos buf n) c = Ret (r, c') \<and> brel K c' v'"
proof -
  have i: "in_device K dev pos buf n" and r: "r = (int n, buf)" "v' = vwrite v dev (k_bs K dev) pos (take n buf)"
    using step by (auto split: if_splits)
  obtain p bd where at: "k_att K dev p bd" and bs: "k_bs K dev = nat (bd_blksz bd)" and n: "0 < n" "n \<le> length buf"
      "pos + n \<le> k_nb K dev * nat (bd_blksz bd)" by (rule in_deviceE [OF i])
  from dm_block_write_ok [OF rel at n(2,3,1), of stk] obtain c' where
      "dm_block_write (k_env K) (k_al K) (k_pm K) stk dev (int pos) buf n c = Ret (int n, c')"
      "brel K c' (vwrite v dev (nat (bd_blksz bd)) pos (take n buf))" by (elim exE conjE) (rule that)
  then show ?thesis by (simp add: dm_block_device_rw_def r bs)
qed

interpretation bsim: simulation "bstep K stk" "bastep K" "brel K" for K stk
proof unfold_locales
  fix c v x r v'
  assume rel: "brel K c v" and step: "bastep K x v = Some (r, v')"
  show "\<exists>c'. bstep K stk x c = Ret (r, c') \<and> brel K c' v'"
  proof (cases x)
    case (BRead dev pos buf n)
    show ?thesis unfolding BRead by (rule bread_ok [OF rel step [unfolded BRead]])
  next
    case (BWrite dev pos buf n)
    show ?thesis unfolding BWrite by (rule bwrite_ok [OF rel step [unfolded BWrite]])
  next
    case BSync
    then show ?thesis using step cache_sync_ok [OF rel] by auto
  next
    case (BDisconnect dev)
    then show ?thesis using step disconnect_ok [OF rel, of dev] by auto
  qed
qed

text \<open>The cache starts empty, so that the bytes seen are the bytes on the devices.\<close>

lemma cache_init_ok:
  assumes "env_ok (k_env K)" "alloc_ok (k_al K)" "snd (k_pm K) \<noteq> 0" "world_ok K s"
  shows "\<exists>c. dm_block_cache_init (k_env K) s = Ret c \<and> brel K c (k_disk K (dm_drv s))"
proof -
  from blkc.init_rel [OF assms(1), where enva = "k_env K" and disk = "k_disk K" and dok = "k_ok K" and nb = "k_nb K" and
      devs = "k_devs K" and bds = "k_bds K" and alloc = True and w = s] obtain c where
      "cache_init (k_env K) True (Some (dm_block_cache_sync (k_env K))) s = Ret c"
      "k_rel K c [] [] (k_content K s)" "rw_free (c_rwl c)" "c_world c = s" by (elim exE conjE) (rule that)
  then show ?thesis using assms(2-4) unfolding dm_block_cache_init_def brel_def by blast
qed

lemma ram_bs: "k_bs (ram_conf 4) ram_dev = 4" "k_nb (ram_conf 4) dev = 8"
  using att_bs [OF ram_attached [of 4]] by (simp_all add: ram_bd_def ram_conf_def)

lemma ram_range: "in_device (ram_conf 4) ram_dev pos buf n \<longleftrightarrow> 0 < n \<and> n \<le> length buf \<and> pos + n \<le> 32"
  using ram_attached [of 4] by (auto simp: in_device_def ram_bs)



text \<open>C35: A read that starts inside a block and goes on into the next one copies beyond the end of the buffer on the stack
  that holds the first block: the first copy has the length of the whole request instead of the part in the block.\<close>

theorem dm_block_read_overrun:
  assumes rel: "brel K c v" and at: "k_att K dev p bd" and pos: "pos < k_nb K dev * nat (bd_blksz bd)"
    and "pos mod nat (bd_blksz bd) \<noteq> 0" "nat (bd_blksz bd) < pos mod nat (bd_blksz bd) + n"
  shows "dm_block_read (k_env K) (k_al K) (k_pm K) stk dev (int pos) buf n c = Fault"
proof -
  let ?bs = "nat (bd_blksz bd)"
  have w: "dm_devs (c_world c) = k_devs K" "dm_bds (c_world c) p = Some bd"
    using rel at by (simp_all add: brel_def world_ok_def attached_def)
  obtain d where d: "dm_lookup (k_env K) (MAJOR dev) (c_world c) = Ret (Some d, c_world c)" "dv_ptr d = p"
    using lookup_attached [OF at w(1)] by blast
  have f: "u32_of (int pos) = pos" using pos att_bounds(5) [OF at] by simp
  note blk = pos_blk [OF at pos]
  have vl: "length (v (dev_id dev, of_nat (pos div ?bs))) = ?bs" using brel_length(1) [OF rel blk(1)] .
  let ?tmp = "map stk [0..<?bs]"
  obtain c1 where c1: "dm_block_rw (k_env K) (k_al K) (k_pm K) READ dev (of_nat (pos div ?bs)) ?tmp p c =
      Ret ((bd_blksz bd, v (dev_id dev, of_nat (pos div ?bs))), c1)"
    using block_read [OF rel blk(1), of ?tmp p] by auto
  show ?thesis
    using assms(4,5) d w(2) att_bounds(1) [OF at] c1 vl
    by (simp add: dm_block_read_def on_world_def Let_def att_u32 [OF at] f blit_def)
qed

theorem dm_block_read_overrun_witness:
  "\<exists>c. dm_block_cache_init (task_env 1) (ram_world 4) = Ret c \<and>
    dm_block_read (task_env 1) (k_al (ram_conf 4)) (k_pm (ram_conf 4)) (\<lambda>_. 0) ram_dev 2 [0, 0, 0, 0] 4 c = Fault"
proof -
  obtain c where c: "dm_block_cache_init (task_env 1) (ram_world 4) = Ret c" "brel (ram_conf 4) c (k_disk (ram_conf 4) (dm_drv (ram_world 4)))"
    using cache_init_ok [OF ram_ok [of 4]] unfolding ram_conf_sel(1) by blast
  have "dm_block_read (k_env (ram_conf 4)) (k_al (ram_conf 4)) (k_pm (ram_conf 4)) (\<lambda>_. 0) ram_dev (int 2) [0, 0, 0, 0] 4 c = Fault"
    by (rule dm_block_read_overrun [OF c(2) ram_attached [of 4]]) (simp_all add: ram_conf_sel ram_bd_def)
  with c(1) show ?thesis unfolding ram_conf_sel(1) by auto
qed

end
