(* ===== verification/Psm.thy ===== *)
theory Psm
  imports RamDisk
begin

text \<open>
  The storage manager \<^verbatim>\<open>drivers/psm\<close> and the partition tables \<^verbatim>\<open>drivers/partitions/partitions.c\<close>.  The manager is a block
  device whose minor numbers are the entries of its table, a disk or a partition of one, and which passes every
  transfer on to the block layer below.  Its state is its table together with the state of that layer.  The name and
  the node that \<^verbatim>\<open>devfs_add\<close> makes for an entry do not influence it: the node is an argument.

  The theorem shows that a partition keeps the contract of a block driver: its blocks are the blocks of the disk from
  the first sector of the partition on, and no transfer touches any other block.
\<close>

unbundle bit_operations_syntax

section \<open>The table\<close>

abbreviation PSM_DEVICE_MAGIC :: u32 where "PSM_DEVICE_MAGIC \<equiv> 0xBEE51E55"
abbreviation PSM_DISK_INFO_NOPART :: u32 where "PSM_DISK_INFO_NOPART \<equiv> 1"

record disk_info =
  di_length :: u64
  di_num_sectors :: u64
  di_sector_size :: u64
  di_flags :: u32

record part_info =
  pi_num :: int
  pi_start_lba :: u64
  pi_num_sectors :: u64
  pi_sysid :: u64

record psm_device =
  pd_magic :: u32
  pd_info :: disk_info
  pd_part :: part_info
  pd_node :: ptr
  pd_dev :: int

definition zero_part :: part_info where
  "zero_part = \<lparr>pi_num = 0, pi_start_lba = 0, pi_num_sectors = 0, pi_sysid = 0\<rparr>"

definition zero_psm_device :: psm_device where
  "zero_psm_device = \<lparr>pd_magic = 0, pd_info = \<lparr>di_length = 0, di_num_sectors = 0, di_sector_size = 0, di_flags = 0\<rparr>,
     pd_part = zero_part, pd_node = 0, pd_dev = 0\<rparr>"

text \<open>The array \<^verbatim>\<open>table\<close> has \<^verbatim>\<open>table_length\<close> entries, zero where nothing was written.\<close>

record psm =
  pt_table :: "psm_device list"
  pt_index :: nat
  pt_lock :: mutex

definition psm_initialize_table :: psm where
  "psm_initialize_table = \<lparr>pt_table = replicate 8 zero_psm_device, pt_index = 0, pt_lock = mutex_create True 0\<rparr>"

text \<open>The nodes passed to \<^verbatim>\<open>devfs_remove\<close>.\<close>

definition psm_table_destroy :: "kenv \<Rightarrow> psm \<Rightarrow> ptr list outcome" where
  "psm_table_destroy env t =
     obind (mutex_acquire env (pt_lock t)) (\<lambda>l.
     obind (mutex_destroy env l) (\<lambda>_.
     Ret (map pd_node (filter (\<lambda>d. pd_magic d = PSM_DEVICE_MAGIC) (take (pt_index t) (pt_table t))))))"

definition psm_table_insert :: "kenv \<Rightarrow> int \<Rightarrow> disk_info \<Rightarrow> part_info option \<Rightarrow> psm \<Rightarrow> (int \<times> psm) outcome" where
  "psm_table_insert env dev di pt t =
     obind (mutex_acquire env (pt_lock t)) (\<lambda>l.
     let table = (if pt_index t = length (pt_table t)
                  then take (pt_index t) (pt_table t) @ replicate (length (pt_table t) * 2 - pt_index t) zero_psm_device
                  else pt_table t) in
     if pt_index t < length table then
       let table = table[pt_index t := \<lparr>pd_magic = PSM_DEVICE_MAGIC, pd_info = di,
             pd_part = (case pt of Some p \<Rightarrow> p | None \<Rightarrow> zero_part), pd_node = 0, pd_dev = dev\<rparr>] in
       obind (mutex_release env l) (\<lambda>l.
       Ret (int (pt_index t), \<lparr>pt_table = table, pt_index = pt_index t + 1, pt_lock = l\<rparr>))
     else Fault)"

text \<open>An access to \<^verbatim>\<open>table[index]\<close> under the lock; the index is not checked.\<close>

definition at_entry :: "kenv \<Rightarrow> int \<Rightarrow> (psm_device \<Rightarrow> 'r \<times> psm_device) \<Rightarrow> psm \<Rightarrow> ('r \<times> psm) outcome" where
  "at_entry env index f t =
     obind (mutex_acquire env (pt_lock t)) (\<lambda>l.
     if index < 0 \<or> int (length (pt_table t)) \<le> index then Fault
     else let (r, d) = f (pt_table t ! nat index) in
       obind (mutex_release env l) (\<lambda>l. Ret (r, t\<lparr>pt_table := (pt_table t)[nat index := d], pt_lock := l\<rparr>)))"

definition psm_table_set_node :: "kenv \<Rightarrow> int \<Rightarrow> ptr \<Rightarrow> psm \<Rightarrow> (unit \<times> psm) outcome" where
  "psm_table_set_node env index n = at_entry env index (\<lambda>d. ((), d\<lparr>pd_node := n\<rparr>))"

definition psm_table_remove :: "kenv \<Rightarrow> int \<Rightarrow> psm \<Rightarrow> (unit \<times> psm) outcome" where
  "psm_table_remove env index = at_entry env index (\<lambda>d. ((), d\<lparr>pd_magic := 0\<rparr>))"

definition psm_table_get :: "kenv \<Rightarrow> int \<Rightarrow> psm \<Rightarrow> (psm_device \<times> psm) outcome" where
  "psm_table_get env index = at_entry env index (\<lambda>d. (d, d))"

section \<open>Transfers\<close>

text \<open>The narrowing of a 64-bit number to \<^verbatim>\<open>int\<close>.\<close>

definition int_of_u64 :: "u64 \<Rightarrow> int" where
  "int_of_u64 w = s32_of (uint w)"

definition psm_do_rw_multiple ::
  "kenv \<Rightarrow> bool \<Rightarrow> int \<Rightarrow> int \<Rightarrow> u64 \<Rightarrow> int \<Rightarrow> (psm \<times> 'd dmstate) io_fn" where
  "psm_do_rw_multiple env multiple rw mi blk count out_buffer = (\<lambda>(t, s).
     obind (psm_table_get env mi t) (\<lambda>(d, t).
     if pd_magic d \<noteq> PSM_DEVICE_MAGIC then Ret ((0, out_buffer), (t, s))
     else
       let part = pi_num (pd_part d) > 0;
           part_off = (if part then ucast (pi_start_lba (pd_part d)) else 0) :: u32;
           part_len = (if part then ucast (pi_num_sectors (pd_part d)) else 0) :: u32;
           end_blk = (if part then ucast (part_len + part_off) else di_num_sectors (pd_info d)) :: u64;
           blk = blk + ucast part_off in
       if end_blk > 0 \<and> blk \<ge> end_blk then Ret ((0, out_buffer), (t, s))
       else
         let count = (if end_blk > 0 \<and> blk + word_of_int count > end_blk then int_of_u64 (end_blk - blk) else count) in
         if count = 0 then Ret ((0, out_buffer), (t, s))
         else obind (if multiple then dm_do_block_rw_multiple env rw (pd_dev d) blk out_buffer count 0 s
                     else dm_do_block_rw env rw (pd_dev d) blk out_buffer 0 s) (\<lambda>(r, s). Ret (r, (t, s)))))"

definition psm_rw_multiple :: "kenv \<Rightarrow> int \<Rightarrow> int \<Rightarrow> u64 \<Rightarrow> int \<Rightarrow> (psm \<times> 'd dmstate) io_fn" where
  "psm_rw_multiple env rw mi blk count = psm_do_rw_multiple env True rw mi blk count"

definition psm_rw_single :: "kenv \<Rightarrow> int \<Rightarrow> int \<Rightarrow> u64 \<Rightarrow> (psm \<times> 'd dmstate) io_fn" where
  "psm_rw_single env rw mi blk = psm_do_rw_multiple env False rw mi blk 1"

definition psm_select :: "kenv \<Rightarrow> int \<Rightarrow> int \<Rightarrow> psm \<times> 'd dmstate \<Rightarrow> (int \<times> psm \<times> 'd dmstate) outcome" where
  "psm_select env mi rw = (\<lambda>(t, s).
     obind (psm_table_get env mi t) (\<lambda>(d, t).
     if pd_magic d \<noteq> PSM_DEVICE_MAGIC then Ret (- ENOENT, (t, s))
     else obind (dm_block_device_select env (pd_dev d) rw s) (\<lambda>(r, s). Ret (r, (t, s)))))"

definition psm_ioctl :: "kenv \<Rightarrow> int \<Rightarrow> int \<Rightarrow> int \<Rightarrow> psm \<times> 'd dmstate \<Rightarrow> (int \<times> psm \<times> 'd dmstate) outcome" where
  "psm_ioctl env mi cmd arg = (\<lambda>(t, s).
     obind (psm_table_get env mi t) (\<lambda>(d, t).
     if pd_magic d \<noteq> PSM_DEVICE_MAGIC then Ret (- ENOENT, (t, s))
     else obind (dm_block_ioctl env (pd_dev d) cmd arg s) (\<lambda>(r, s). Ret (r, (t, s)))))"

section \<open>Partition tables\<close>

text \<open>The fields of an entry that are read or written; the others are only copied.\<close>

record partition =
  p_flag :: u8
  p_ext :: u8
  p_sysid :: u8
  p_start_lba :: u32
  p_length :: u32

definition le32 :: "u8 list \<Rightarrow> nat \<Rightarrow> u32" where
  "le32 b i = ucast (b ! i) OR push_bit 8 (ucast (b ! (i + 1))) OR push_bit 16 (ucast (b ! (i + 2))) OR push_bit 24 (ucast (b ! (i + 3)))"

definition partition_at :: "u8 list \<Rightarrow> nat \<Rightarrow> partition" where
  "partition_at b i = (let o16 = 0x1BE + 16 * i in
     \<lparr>p_flag = b ! o16, p_ext = b ! (o16 + 1), p_sysid = b ! (o16 + 4), p_start_lba = le32 b (o16 + 8), p_length = le32 b (o16 + 12)\<rparr>)"

definition is_extended :: "partition \<Rightarrow> bool" where
  "is_extended p \<longleftrightarrow> p_sysid p = 0xF \<or> p_sysid p = 0x5"

text \<open>
  The two loops over the entries of a table, with the call for an extended entry as an argument.  The first result is
  \<^verbatim>\<open>num\<close> where the routine goes on, \<open>-1\<close> when the entry was found.  The sector is read at \<^verbatim>\<open>(ext->start_lba + prev_lba)*512\<close>,
  in \<^verbatim>\<open>unsigned\<close> arithmetic.  Every extended entry inside an extended partition adds the start of the latter to
  \<^verbatim>\<open>prev_lba\<close>.
\<close>

fun parse_extended_partitions ::
  "nat \<Rightarrow> kenv \<Rightarrow> u8 list \<Rightarrow> int \<Rightarrow> int \<Rightarrow> partition \<Rightarrow> partition \<Rightarrow> u32 \<Rightarrow> 'd dmstate \<Rightarrow> ((int \<times> partition) \<times> 'd dmstate) outcome" where
  "parse_extended_partitions 0 env stk num dev ext part prev_lba s = Block"
| "parse_extended_partitions (Suc fuel) env stk num dev ext part prev_lba s =
     obind (dm_do_block_rw env READ dev (ucast ((p_start_lba ext + prev_lba) * 512)) stk 0 s) (\<lambda>((_, buf), s).
     let entry = (\<lambda>i (num, part, prev_lba, s) next.
           let e = partition_at buf i in
           if is_extended e then
             obind (parse_extended_partitions fuel env stk num dev e part (prev_lba + p_start_lba ext) s) (\<lambda>((num, part), s).
             if num = - 1 then Ret ((- 1, part), s) else next (num, part, prev_lba + p_start_lba ext, s))
           else if num = 0 then
             Ret ((- 1, e\<lparr>p_start_lba := p_start_lba e + (p_start_lba ext + prev_lba), p_ext := 1\<rparr>), s)
           else next (num - 1, part, prev_lba, s))
     in entry 0 (num, part, prev_lba, s) (\<lambda>st. entry 1 st (\<lambda>(num, part, _, s). Ret ((num, part), s))))"

fun enumerate_loop ::
  "nat \<Rightarrow> kenv \<Rightarrow> u8 list \<Rightarrow> int \<Rightarrow> u8 list \<Rightarrow> nat list \<Rightarrow> int \<Rightarrow> partition \<Rightarrow> 'd dmstate \<Rightarrow> ((int \<times> partition) \<times> 'd dmstate) outcome" where
  "enumerate_loop fuel env stk dev buf [] num part s = Ret ((0, part), s)"
| "enumerate_loop fuel env stk dev buf (i # is) num part s =
     (let e = partition_at buf i in
      if is_extended e then
        obind (parse_extended_partitions fuel env stk num dev e part 0 s) (\<lambda>((num, part), s).
        if num = - 1 then Ret ((1, part), s) else enumerate_loop fuel env stk dev buf is num part s)
      else if num = 0 then Ret ((1, e\<lparr>p_ext := 0\<rparr>), s)
      else enumerate_loop fuel env stk dev buf is (num - 1) part s)"

definition enumerate_partitions ::
  "nat \<Rightarrow> kenv \<Rightarrow> u8 list \<Rightarrow> int \<Rightarrow> int \<Rightarrow> partition \<Rightarrow> 'd dmstate \<Rightarrow> ((int \<times> partition) \<times> 'd dmstate) outcome" where
  "enumerate_partitions fuel env stk num dev part s =
     obind (dm_do_block_rw env READ dev 0 stk 0 s) (\<lambda>((_, buf), s).
     enumerate_loop fuel env stk dev buf [0, 1, 2, 3] num part s)"

text \<open>\<open>junk\<close> is the uninitialised structure on the stack, which is read when no entry was found.\<close>

definition part_get_partition ::
  "nat \<Rightarrow> kenv \<Rightarrow> u8 list \<Rightarrow> partition \<Rightarrow> int \<Rightarrow> part_info \<Rightarrow> int \<Rightarrow> 'd dmstate \<Rightarrow> ((int \<times> part_info) \<times> 'd dmstate) outcome" where
  "part_get_partition fuel env stk junk dev part n s =
     obind (enumerate_partitions fuel env stk n dev junk s) (\<lambda>((ret, p), s).
     if p_sysid p = 0 then Ret ((0, part), s)
     else if ret \<noteq> 0 then
       Ret ((ret, part\<lparr>pi_num_sectors := ucast (p_length p), pi_start_lba := ucast (p_start_lba p), pi_sysid := ucast (p_sysid p)\<rparr>), s)
     else Ret ((ret, part), s))"

section \<open>Registering a disk\<close>

text \<open>
  \<open>parts\<close> says whether the partition module is loaded, and with which uninitialised bytes its routines work; \<open>node i\<close>
  is the node made for the entry \<open>i\<close>.
\<close>

definition read_partition_dev ::
  "nat \<Rightarrow> kenv \<Rightarrow> (u8 list \<times> partition) option \<Rightarrow> int \<Rightarrow> part_info \<Rightarrow> int \<Rightarrow> 'd dmstate \<Rightarrow> ((int \<times> part_info) \<times> 'd dmstate) outcome" where
  "read_partition_dev fuel env parts dev part n s =
     (case parts of None \<Rightarrow> Ret ((0, part), s) | Some (stk, junk) \<Rightarrow> part_get_partition fuel env stk junk dev part n s)"

fun psm_enumerate_loop ::
  "nat \<Rightarrow> kenv \<Rightarrow> (u8 list \<times> partition) option \<Rightarrow> (int \<Rightarrow> ptr) \<Rightarrow> int \<Rightarrow> disk_info \<Rightarrow> part_info \<Rightarrow> int \<Rightarrow> psm \<times> 'd dmstate \<Rightarrow>
   (int \<times> psm \<times> 'd dmstate) outcome" where
  "psm_enumerate_loop 0 env parts node dev di part i st = Block"
| "psm_enumerate_loop (Suc fuel) env parts node dev di part i (t, s) =
     obind (read_partition_dev fuel env parts dev part i s) (\<lambda>((r, part), s).
     if r = 0 then Ret (i, (t, s))
     else
       let part = part\<lparr>pi_num := i + 1\<rparr> in
       obind (psm_table_insert env dev di (Some part) t) (\<lambda>(minor, t).
       obind (psm_table_set_node env minor (node minor) t) (\<lambda>(_, t).
       psm_enumerate_loop fuel env parts node dev di part (i + 1) (t, s))))"

definition psm_enumerate_partitions ::
  "nat \<Rightarrow> kenv \<Rightarrow> (u8 list \<times> partition) option \<Rightarrow> (int \<Rightarrow> ptr) \<Rightarrow> part_info \<Rightarrow> int \<Rightarrow> disk_info \<Rightarrow> psm \<times> 'd dmstate \<Rightarrow>
   (int \<times> psm \<times> 'd dmstate) outcome" where
  "psm_enumerate_partitions fuel env parts node junk dev di st = psm_enumerate_loop fuel env parts node dev di junk 0 st"

definition psm_register_disk_device ::
  "nat \<Rightarrow> kenv \<Rightarrow> (u8 list \<times> partition) option \<Rightarrow> (int \<Rightarrow> ptr) \<Rightarrow> part_info \<Rightarrow> int \<Rightarrow> disk_info \<Rightarrow> psm \<times> 'd dmstate \<Rightarrow>
   (int \<times> psm \<times> 'd dmstate) outcome" where
  "psm_register_disk_device fuel env parts node junk dev info = (\<lambda>(t, s).
     obind (psm_table_insert env dev info None t) (\<lambda>(minor, t).
     obind (psm_table_set_node env minor (node minor) t) (\<lambda>(_, t).
     if has_flag (di_flags info) PSM_DISK_INFO_NOPART then Ret (minor, (t, s))
     else obind (psm_enumerate_partitions fuel env parts node junk dev info (t, s)) (\<lambda>(_, st). Ret (minor, st)))))"

text \<open>No work is done.\<close>

definition psm_unregister_disk_device :: "int \<Rightarrow> int \<Rightarrow> psm \<Rightarrow> (int \<times> psm) outcome" where
  "psm_unregister_disk_device identifier psm_minor t = Ret (0, t)"

section \<open>The contract of a partition\<close>

lemma unat_ucast_down: "unat (x :: u64) < 2 ^ 32 \<Longrightarrow> unat (ucast x :: u32) = unat x"
  by (simp add: unsigned_ucast_eq take_bit_nat_eq_self)

lemma unat_ucast_up: "unat (ucast (x :: u32) :: u64) = unat x"
proof -
  have "unat x < 2 ^ 32" using unsigned_less [of x] by simp
  then show ?thesis by (simp add: unsigned_ucast_eq take_bit_nat_eq_self)
qed

lemma at_entry_get:
  assumes "env_ok env" "mutex_free (pt_lock t)" "0 \<le> mi" "mi < int (length (pt_table t))"
  shows "psm_table_get env mi t = Ret (pt_table t ! nat mi, t)"
  using assms by (simp add: psm_table_get_def at_entry_def lock_simps not_le)

text \<open>Entry \<open>mi\<close> of the table is the partition of the device \<open>dev\<close> with the sectors from \<open>off\<close> on, inside the device.\<close>

definition is_part :: "'d conf \<Rightarrow> psm \<Rightarrow> int \<Rightarrow> int \<Rightarrow> nat \<Rightarrow> nat \<Rightarrow> bool" where
  "is_part K t mi dev off len \<longleftrightarrow> mutex_free (pt_lock t) \<and> 0 \<le> mi \<and> mi < int (length (pt_table t)) \<and>
     (let d = pt_table t ! nat mi in pd_magic d = PSM_DEVICE_MAGIC \<and> pi_num (pd_part d) > 0 \<and> pd_dev d = dev \<and>
        unat (pi_start_lba (pd_part d)) = off \<and> unat (pi_num_sectors (pd_part d)) = len) \<and>
     0 < len \<and> off + len \<le> k_nb K dev"

definition part_ok :: "'d conf \<Rightarrow> psm \<Rightarrow> psm \<times> 'd dmstate \<Rightarrow> bool" where
  "part_ok K t = (\<lambda>(t', s). t' = t \<and> world_ok K s)"

definition part_disk :: "'d conf \<Rightarrow> int \<Rightarrow> nat \<Rightarrow> nat \<Rightarrow> int \<Rightarrow> psm \<times> 'd dmstate \<Rightarrow> u64 \<times> u64 \<Rightarrow> u8 list" where
  "part_disk K dev off len up = (\<lambda>(t, s) (i, b).
     if i = dev_id up \<and> unat b < len then k_disk K (dm_drv s) (dev_id dev, b + of_nat off) else [])"

lemma part_words:
  assumes "off + len < 2 ^ 32" "unat start = off" "unat sectors = len"
  shows "ucast (ucast (start :: u64) :: u32) = (of_nat off :: u64)"
    and "unat (ucast (ucast (sectors :: u64) + (ucast start :: u32)) :: u64) = off + len"
proof -
  have o: "unat (ucast start :: u32) = off" and l: "unat (ucast sectors :: u32) = len"
    using assms by (simp_all add: unat_ucast_down)
  then show "ucast (ucast (start :: u64) :: u32) = (of_nat off :: u64)"
    using assms(1) by (simp add: word_unat_eq_iff unat_ucast_up unat_of_nat)
  have "unat (ucast sectors + ucast start :: u32) = len + off"
    using o l assms(1) by (simp add: unat_word_ariths)
  then show "unat (ucast (ucast (sectors :: u64) + (ucast start :: u32)) :: u64) = off + len"
    by (simp add: unat_ucast_up)
qed

lemma unat_shift: "unat (blk :: u64) + off < 2 ^ 64 \<Longrightarrow> unat (blk + of_nat off) = unat blk + off"
  by (simp add: unat_word_ariths unat_of_nat mod_add_right_eq)

text \<open>What the routine does on a partition: outside nothing, inside the transfer on the device, cut at the end.\<close>

lemma psm_rw_part:
  assumes env: "env_ok (k_env K)" and t: "is_part K t mi dev off len" and nb: "k_nb K dev < 2 ^ 31"
    and ov: "unat blk + off + cnt < 2 ^ 64" and cnt: "0 < cnt" "cnt < 2 ^ 31"
  shows "len \<le> unat blk \<Longrightarrow> psm_do_rw_multiple (k_env K) mu rw mi blk (int cnt) buf (t, s) = Ret ((0, buf), (t, s))"
    and "unat blk + cnt \<le> len \<Longrightarrow> psm_do_rw_multiple (k_env K) mu rw mi blk (int cnt) buf (t, s) =
      obind (if mu then dm_do_block_rw_multiple (k_env K) rw dev (blk + of_nat off) buf (int cnt) 0 s
             else dm_do_block_rw (k_env K) rw dev (blk + of_nat off) buf 0 s) (\<lambda>(r, s). Ret (r, (t, s)))"
proof -
  let ?d = "pt_table t ! nat mi"
  have d: "pd_magic ?d = PSM_DEVICE_MAGIC" "pi_num (pd_part ?d) > 0" "pd_dev ?d = dev"
    "unat (pi_start_lba (pd_part ?d)) = off" "unat (pi_num_sectors (pd_part ?d)) = len" "0 < len" "off + len < 2 ^ 32"
    "mutex_free (pt_lock t)" "0 \<le> mi" "mi < int (length (pt_table t))"
    using t nb by (auto simp: is_part_def Let_def)
  note w = part_words [OF d(7,4,5)]
  let ?e = "ucast (ucast (pi_num_sectors (pd_part ?d)) + (ucast (pi_start_lba (pd_part ?d)) :: u32)) :: u64"
  have get: "psm_table_get (k_env K) mi t = Ret (?d, t)" by (rule at_entry_get [OF env d(8-10)])
  have b: "unat (blk + of_nat off) = unat blk + off" using ov by (intro unat_shift) linarith
  have c: "unat (blk + of_nat off + of_nat cnt) = unat blk + off + cnt"
    using unat_shift [of "blk + of_nat off" cnt] ov unfolding b by simp
  have e: "?e > 0" using w(2) d(6) by (simp add: word_less_nat_alt)
  show "psm_do_rw_multiple (k_env K) mu rw mi blk (int cnt) buf (t, s) = Ret ((0, buf), (t, s))" if "len \<le> unat blk"
  proof -
    have "?e \<le> blk + of_nat off" using that by (simp add: word_le_nat_alt w(2) b)
    then show ?thesis using d(1,2) e by (simp add: psm_do_rw_multiple_def get Let_def w(1))
  qed
  show "psm_do_rw_multiple (k_env K) mu rw mi blk (int cnt) buf (t, s) =
      obind (if mu then dm_do_block_rw_multiple (k_env K) rw dev (blk + of_nat off) buf (int cnt) 0 s
             else dm_do_block_rw (k_env K) rw dev (blk + of_nat off) buf 0 s) (\<lambda>(r, s). Ret (r, (t, s)))" if "unat blk + cnt \<le> len"
  proof -
    have "\<not> ?e \<le> blk + of_nat off" "\<not> ?e < blk + of_nat off + of_nat cnt"
      using that cnt by (simp_all add: word_le_nat_alt word_less_nat_alt w(2) b c)
    then show ?thesis using d(1-3) cnt by (simp add: psm_do_rw_multiple_def get Let_def w(1))
  qed
qed

lemma psm_rw_none:
  assumes env: "env_ok (k_env K)" and t: "is_part K t mi dev off len"
  shows "psm_do_rw_multiple (k_env K) mu rw mi blk 0 buf (t, s) = Ret ((0, buf), (t, s))"
proof -
  have get: "psm_table_get (k_env K) mi t = Ret (pt_table t ! nat mi, t)"
    by (rule at_entry_get [OF env]) (use t in \<open>simp_all add: is_part_def\<close>)
  show ?thesis by (auto simp: psm_do_rw_multiple_def get Let_def not_le)
qed

lemma do_block_rw_multi:
  assumes at: "k_att K dev p bd" and w: "world_ok K s" and g: "bd_rw_multiple bd \<noteq> None"
    and blk: "unat blk + m \<le> k_nb K dev" and len: "m * nat (bd_blksz bd) \<le> length buf"
  shows "\<exists>d'. dm_do_block_rw_multiple (k_env K) READ dev blk buf (int m) 0 s =
     Ret ((int (m * nat (bd_blksz bd)),
       concat (map (\<lambda>j. k_disk K (dm_drv s) (dev_id dev, blk + of_nat j)) [0..<m]) @ drop (m * nat (bd_blksz bd)) buf), s\<lparr>dm_drv := d'\<rparr>) \<and>
     k_ok K d' \<and> k_disk K d' = k_disk K (dm_drv s)"
proof -
  obtain f where f: "bd_rw_multiple bd = Some f" "multi_ok (k_ok K) (k_disk K) dev (k_nb K dev) (nat (bd_blksz bd)) f"
    using at g by (auto simp: attached_def)
  have a: "env_ok (k_env K)" "0 < dev" "p \<noteq> 0" "k_bds K p = Some bd" "mutex_free (bd_acl bd)"
    and s: "dm_devs s = k_devs K" "dm_bds s = k_bds K" "k_ok K (dm_drv s)"
    using at w by (auto simp: attached_def world_ok_def)
  obtain d where d: "dm_lookup (k_env K) (MAJOR dev) s = Ret (Some d, s)" "dv_ptr d = p"
    using lookup_attached [OF at s(1)] by blast
  have "(dm_bds s)(p \<mapsto> bd) = dm_bds s" using a(4) s(2) by auto
  then have io: "locked_io (k_env K) p bd g buf s = obind (g buf (dm_drv s)) (\<lambda>(r, d). Ret (r, s\<lparr>dm_drv := d\<rparr>))" for g
    using a(1,5) by (simp add: locked_io_def lock_simps)
  have go: "dm_do_block_rw_multiple (k_env K) READ dev blk buf (int m) 0 s =
      obind (f READ (MINOR dev) blk (int m) buf (dm_drv s)) (\<lambda>(r, d). Ret (r, s\<lparr>dm_drv := d\<rparr>))"
    using order_less_not_sym [OF a(2)] by (simp add: dm_do_block_rw_multiple_def with_bd_def io a(3,4) s(2) d f(1))
  have "\<exists>d'. f READ (MINOR dev) blk (int m) buf (dm_drv s) =
      Ret ((int (m * nat (bd_blksz bd)), concat (map (\<lambda>j. k_disk K (dm_drv s) (dev_id dev, blk + of_nat j)) [0..<m]) @ drop (m * nat (bd_blksz bd)) buf), d') \<and>
      k_ok K d' \<and> k_disk K d' = k_disk K (dm_drv s)"
    using f(2) s(3) blk len unfolding multi_ok_def by blast
  then show ?thesis unfolding go by auto
qed

lemma part_disk_upd:
  assumes "unat blk < len" "off + len < 2 ^ 64" "k_disk K d' = (k_disk K (dm_drv s))((dev_id dev, blk + of_nat off) := data)"
  shows "part_disk K dev off len up (t, s\<lparr>dm_drv := d'\<rparr>) =
    (part_disk K dev off len up (t, s))((dev_id up, blk) := data)"
proof (rule ext)
  fix x :: "u64 \<times> u64"
  obtain i b where x: "x = (i, b)" by (cases x)
  have "b + of_nat off = blk + of_nat off \<longleftrightarrow> b = blk" by simp
  then show "part_disk K dev off len up (t, s\<lparr>dm_drv := d'\<rparr>) x = ((part_disk K dev off len up (t, s))((dev_id up, blk) := data)) x"
    using assms by (auto simp: x part_disk_def)
qed

lemma part_disk_same: "k_disk K d' = k_disk K (dm_drv s) \<Longrightarrow> part_disk K dev off len up (t, s\<lparr>dm_drv := d'\<rparr>) = part_disk K dev off len up (t, s)"
  by (simp add: part_disk_def cong: if_cong)

lemma part_ok_drv: "world_ok K s \<Longrightarrow> k_ok K d' \<Longrightarrow> part_ok K t (t, s\<lparr>dm_drv := d'\<rparr>)"
  by (simp add: part_ok_def world_ok_def)

lemma psm_single_ok:
  assumes at: "k_att K dev p bd" "bd_blksz bd = 512" and t: "is_part K t (MINOR up) dev off len"
  shows "driver_ok (part_ok K t) (part_disk K dev off len up) up len 512 (psm_rw_single (k_env K))"
  unfolding driver_ok_def
proof (intro allI impI)
  fix d :: "psm \<times> 'a dmstate" and blk :: u64 and buf :: "u8 list"
  assume d: "part_ok K t d" and blk: "unat blk < len" and buf: "512 \<le> length buf"
  obtain s where s: "d = (t, s)" "world_ok K s" using d by (cases d) (auto simp: part_ok_def)
  have e: "env_ok (k_env K)" and nb: "k_nb K dev * 512 < 2 ^ 31" using at by (simp_all add: attached_def)
  have in_dev: "off + len \<le> k_nb K dev" using t by (simp add: is_part_def)
  have b: "unat (blk + of_nat off) < k_nb K dev" using unat_shift [of blk off] blk in_dev nb by simp
  have w: "dm_devs s = k_devs K" "dm_bds s = k_bds K" "k_ok K (dm_drv s)" using s(2) by (simp_all add: world_ok_def)
  have buf': "nat (bd_blksz bd) \<le> length buf" using buf at(2) by simp
  note lower = do_block_rw [OF at(1) w b buf', of 0, simplified at(2), simplified]
  have go: "psm_rw_single (k_env K) rw (MINOR up) blk buf (t, s) =
      obind (dm_do_block_rw (k_env K) rw dev (blk + of_nat off) buf 0 s) (\<lambda>(r, s). Ret (r, (t, s)))" for rw
    unfolding psm_rw_single_def using psm_rw_part(2) [OF e t, of blk 1 False] blk nb in_dev by simp
  have pd: "part_disk K dev off len up (t, s) (dev_id up, blk) = k_disk K (dm_drv s) (dev_id dev, blk + of_nat off)"
    using blk by (simp add: part_disk_def)
  have rd: "\<exists>d'. psm_rw_single (k_env K) READ (MINOR up) blk buf (t, s) =
      Ret ((int 512, part_disk K dev off len up (t, s) (dev_id up, blk) @ drop 512 buf), d') \<and>
      part_ok K t d' \<and> part_disk K dev off len up d' = part_disk K dev off len up (t, s)"
    using lower(1) s(2) unfolding go pd by (auto simp: part_ok_drv part_disk_same)
  obtain d' where d': "dm_do_block_rw (k_env K) WRITE dev (blk + of_nat off) buf 0 s = Ret ((512, buf), s\<lparr>dm_drv := d'\<rparr>)"
      "k_ok K d'" "k_disk K d' = (k_disk K (dm_drv s))((dev_id dev, blk + of_nat off) := take 512 buf)"
    using lower(2) by blast
  have "\<exists>d'. psm_rw_single (k_env K) WRITE (MINOR up) blk buf (t, s) = Ret ((int 512, buf), d') \<and> part_ok K t d' \<and>
      part_disk K dev off len up d' = (part_disk K dev off len up (t, s))((dev_id up, blk) := take 512 buf)"
    using part_disk_upd [OF blk _ d'(3)] in_dev nb d'(1,2) w unfolding go
    by (intro exI [of _ "(t, s\<lparr>dm_drv := d'\<rparr>)"]) (simp add: part_ok_def world_ok_def)
  with rd lower(3) pd show "length (part_disk K dev off len up d (dev_id up, blk)) = 512 \<and>
      (\<exists>d'. psm_rw_single (k_env K) READ (MINOR up) blk buf d =
         Ret ((int 512, part_disk K dev off len up d (dev_id up, blk) @ drop 512 buf), d') \<and>
         part_ok K t d' \<and> part_disk K dev off len up d' = part_disk K dev off len up d) \<and>
      (\<exists>d'. psm_rw_single (k_env K) WRITE (MINOR up) blk buf d = Ret ((int 512, buf), d') \<and> part_ok K t d' \<and>
         part_disk K dev off len up d' = (part_disk K dev off len up d)((dev_id up, blk) := take 512 buf))"
    unfolding s(1) by simp
qed

lemma psm_multiple_ok:
  assumes at: "k_att K dev p bd" "bd_blksz bd = 512" "bd_rw_multiple bd \<noteq> None" and t: "is_part K t (MINOR up) dev off len"
  shows "multi_ok (part_ok K t) (part_disk K dev off len up) up len 512 (psm_rw_multiple (k_env K))"
  unfolding multi_ok_def
proof (intro allI impI)
  fix d :: "psm \<times> 'a dmstate" and blk :: u64 and buf :: "u8 list" and m :: nat
  assume d: "part_ok K t d" and blk: "unat blk + m \<le> len" and buf: "m * 512 \<le> length buf"
  obtain s where s: "d = (t, s)" "world_ok K s" using d by (cases d) (auto simp: part_ok_def)
  have e: "env_ok (k_env K)" and nb: "k_nb K dev * 512 < 2 ^ 31" using at by (simp_all add: attached_def)
  have in_dev: "off + len \<le> k_nb K dev" using t by (simp add: is_part_def)
  have "\<exists>d'. psm_rw_multiple (k_env K) READ (MINOR up) blk (int m) buf (t, s) =
      Ret ((int (m * 512), concat (map (\<lambda>j. k_disk K (dm_drv s) (dev_id dev, blk + of_nat off + of_nat j)) [0..<m]) @ drop (m * 512) buf),
        (t, s\<lparr>dm_drv := d'\<rparr>)) \<and> k_ok K d' \<and> k_disk K d' = k_disk K (dm_drv s)"
  proof (cases "m = 0")
    case True
    have "s\<lparr>dm_drv := dm_drv s\<rparr> = s" by simp
    then show ?thesis using psm_rw_none [OF e t] s(2) unfolding True psm_rw_multiple_def by (intro exI [of _ "dm_drv s"]) (simp add: world_ok_def)
  next
    case False
    have b: "unat (blk + of_nat off) + m \<le> k_nb K dev" using unat_shift [of blk off] blk in_dev nb by simp
    have buf': "m * nat (bd_blksz bd) \<le> length buf" using buf at(2) by simp
    have "psm_rw_multiple (k_env K) READ (MINOR up) blk (int m) buf (t, s) =
        obind (dm_do_block_rw_multiple (k_env K) READ dev (blk + of_nat off) buf (int m) 0 s) (\<lambda>(r, s). Ret (r, (t, s)))"
      unfolding psm_rw_multiple_def using psm_rw_part(2) [OF e t, of blk m True] blk nb in_dev False by simp
    then show ?thesis using do_block_rw_multi [OF at(1) s(2) at(3) b buf'] unfolding at(2) by auto
  qed
  note low = this
  have mp: "map (\<lambda>j. part_disk K dev off len up (t, s) (dev_id up, blk + of_nat j)) [0..<m] =
      map (\<lambda>j. k_disk K (dm_drv s) (dev_id dev, blk + of_nat off + of_nat j)) [0..<m]"
  proof (rule map_cong [OF refl])
    fix j assume j: "j \<in> set [0..<m]"
    then have "unat (blk + of_nat j) < len" using unat_shift [of blk j] blk in_dev nb by simp
    then show "part_disk K dev off len up (t, s) (dev_id up, blk + of_nat j) = k_disk K (dm_drv s) (dev_id dev, blk + of_nat off + of_nat j)"
      by (simp add: part_disk_def ac_simps)
  qed
  from low show "\<exists>d'. psm_rw_multiple (k_env K) READ (MINOR up) blk (int m) buf d =
      Ret ((int (m * 512), concat (map (\<lambda>j. part_disk K dev off len up d (dev_id up, blk + of_nat j)) [0..<m]) @ drop (m * 512) buf), d') \<and>
      part_ok K t d' \<and> part_disk K dev off len up d' = part_disk K dev off len up d"
    unfolding s(1) mp using s(2) by (elim exE) (intro exI, auto simp: part_ok_drv part_disk_same)
qed

section \<open>Registering the partitions of a disk\<close>

definition good_tab :: "psm \<Rightarrow> bool" where
  "good_tab t \<longleftrightarrow> mutex_free (pt_lock t) \<and> 0 < length (pt_table t) \<and> pt_index t \<le> length (pt_table t)"

text \<open>\<open>t'\<close> extends \<open>t\<close> by the entries \<open>es\<close>.\<close>

definition extends :: "psm \<Rightarrow> psm_device list \<Rightarrow> psm \<Rightarrow> bool" where
  "extends t es t' \<longleftrightarrow> good_tab t' \<and> pt_index t' = pt_index t + length es \<and>
     take (pt_index t') (pt_table t') = take (pt_index t) (pt_table t) @ es"

lemma extends_refl: "good_tab t \<Longrightarrow> extends t [] t"
  by (simp add: extends_def)

lemma extends_trans: "extends t es t' \<Longrightarrow> extends t' fs t'' \<Longrightarrow> extends t (es @ fs) t''"
  unfolding extends_def by (elim conjE, intro conjI) simp_all

lemma psm_init_good: "good_tab psm_initialize_table"
  by (simp add: good_tab_def psm_initialize_table_def mutex_create_free)

lemma insert_ok:
  assumes "env_ok env" "good_tab t"
  shows "\<exists>t'. obind (psm_table_insert env dev di pt t) (\<lambda>(minor, t). obind (psm_table_set_node env minor (node minor) t) (\<lambda>(_, t). k (minor, t))) =
       k (int (pt_index t), t') \<and>
     extends t [\<lparr>pd_magic = PSM_DEVICE_MAGIC, pd_info = di, pd_part = (case pt of Some p \<Rightarrow> p | None \<Rightarrow> zero_part),
       pd_node = node (int (pt_index t)), pd_dev = dev\<rparr>] t'"
proof -
  have g: "mutex_free (pt_lock t)" "0 < length (pt_table t)" "pt_index t \<le> length (pt_table t)"
    using assms(2) by (simp_all add: good_tab_def)
  let ?i = "pt_index t"
  let ?tb = "if ?i = length (pt_table t) then take ?i (pt_table t) @ replicate (length (pt_table t) * 2 - ?i) zero_psm_device else pt_table t"
  let ?e = "\<lparr>pd_magic = PSM_DEVICE_MAGIC, pd_info = di, pd_part = (case pt of Some p \<Rightarrow> p | None \<Rightarrow> zero_part), pd_node = 0, pd_dev = dev\<rparr>"
  let ?t = "\<lparr>pt_table = ?tb[?i := ?e], pt_index = ?i + 1, pt_lock = pt_lock t\<rparr>"
  have len: "?i < length ?tb" "take ?i ?tb = take ?i (pt_table t)" using g by auto
  have ins: "psm_table_insert env dev di pt t = Ret (int ?i, ?t)"
    using assms(1) g(1) len(1) by (simp add: psm_table_insert_def lock_simps Let_def)
  let ?t' = "?t\<lparr>pt_table := ?tb[?i := ?e\<lparr>pd_node := node (int ?i)\<rparr>]\<rparr>"
  have "psm_table_set_node env (int ?i) (node (int ?i)) ?t = Ret ((), ?t')"
    using assms(1) g(1) len(1) by (simp add: psm_table_set_node_def at_entry_def lock_simps Let_def not_le)
  moreover have "extends t [?e\<lparr>pd_node := node (int ?i)\<rparr>] ?t'"
    using g(1,2) len unfolding extends_def good_tab_def by (simp add: take_Suc_conv_app_nth)
  ultimately show ?thesis using ins by (intro exI [of _ ?t']) simp
qed

text \<open>The entries of a partition table, up to the first unused one, when none of them is an extended partition.\<close>

definition mbr_ok :: "u8 list \<Rightarrow> nat \<Rightarrow> bool" where
  "mbr_ok mbr k \<longleftrightarrow> k \<le> 4 \<and> (\<forall>i < 4. \<not> is_extended (partition_at mbr i)) \<and> (\<forall>i < k. p_sysid (partition_at mbr i) \<noteq> 0) \<and>
     (k < 4 \<longrightarrow> p_sysid (partition_at mbr k) = 0)"

definition part_of_mbr :: "u8 list \<Rightarrow> nat \<Rightarrow> part_info" where
  "part_of_mbr mbr i = (let p = partition_at mbr i in
     \<lparr>pi_num = int i + 1, pi_start_lba = ucast (p_start_lba p), pi_num_sectors = ucast (p_length p), pi_sysid = ucast (p_sysid p)\<rparr>)"

lemma enumerate_primary:
  assumes "\<forall>i \<in> set is. \<not> is_extended (partition_at mbr i)"
  shows "enumerate_loop fuel env stk dev mbr is (int n) part s =
    Ret (if n < length is then (1, (partition_at mbr (is ! n))\<lparr>p_ext := 0\<rparr>) else (0, part), s)"
  using assms
proof (induction "is" arbitrary: n)
  case (Cons i "is")
  then show ?case by (cases n) (simp_all add: Let_def)
qed simp

lemma part_get_ok:
  assumes at: "k_att K dev p bd" "bd_blksz bd = 512" "0 < k_nb K dev" and w: "world_ok K s" and stk: "length stk = 512"
    and mbr: "k_disk K (dm_drv s) (dev_id dev, 0) = mbr" "mbr_ok mbr k" and i: "i \<le> k"
  shows "\<exists>d'. part_get_partition fuel (k_env K) stk junk dev part (int i) s =
     Ret (if i < k then (1, (part_of_mbr mbr i)\<lparr>pi_num := pi_num part\<rparr>) else (0, part), s\<lparr>dm_drv := d'\<rparr>) \<and>
     k_ok K d' \<and> k_disk K d' = k_disk K (dm_drv s)"
proof -
  have s: "dm_devs s = k_devs K" "dm_bds s = k_bds K" "k_ok K (dm_drv s)" using w by (simp_all add: world_ok_def)
  have "unat (0 :: u64) < k_nb K dev" using at(3) by simp
  from do_block_rw(1) [OF at(1) s this, of stk 0] stk at(2) mbr(1) obtain d' where
    d': "dm_do_block_rw (k_env K) READ dev 0 stk 0 s = Ret ((512, mbr), s\<lparr>dm_drv := d'\<rparr>)" "k_ok K d'" "k_disk K d' = k_disk K (dm_drv s)"
    by auto
  have "enumerate_loop fuel (k_env K) stk dev mbr [0, 1, 2, 3] (int i) junk (s\<lparr>dm_drv := d'\<rparr>) =
      Ret (if i < 4 then (1, (partition_at mbr i)\<lparr>p_ext := 0\<rparr>) else (0, junk), s\<lparr>dm_drv := d'\<rparr>)"
    using enumerate_primary [of "[0, 1, 2, 3]" mbr] mbr(2) less_Suc_eq
    by (auto simp: mbr_ok_def nth_Cons' eval_nat_numeral)
  moreover have "i < k \<longrightarrow> i < 4 \<and> p_sysid (partition_at mbr i) \<noteq> 0" "\<not> i < k \<longrightarrow> i < 4 \<longrightarrow> p_sysid (partition_at mbr i) = 0"
    using mbr(2) i by (auto simp: mbr_ok_def)
  ultimately show ?thesis
    using d' by (cases "i < k"; cases "i < 4")
      (auto simp: part_get_partition_def enumerate_partitions_def part_of_mbr_def Let_def)
qed

text \<open>The entry made for the partition \<open>j\<close> of a disk whose own entry is \<open>i0\<close>.\<close>

definition part_entry :: "(int \<Rightarrow> ptr) \<Rightarrow> int \<Rightarrow> disk_info \<Rightarrow> u8 list \<Rightarrow> nat \<Rightarrow> nat \<Rightarrow> psm_device" where
  "part_entry node dev di mbr i0 j = \<lparr>pd_magic = PSM_DEVICE_MAGIC, pd_info = di, pd_part = part_of_mbr mbr j,
     pd_node = node (int (i0 + 1 + j)), pd_dev = dev\<rparr>"

lemma enumerate_ok:
  assumes at: "k_att K dev p bd" "bd_blksz bd = 512" "0 < k_nb K dev" and stk: "length stk = 512" and mbr: "mbr_ok mbr k"
  shows "world_ok K s \<Longrightarrow> k_disk K (dm_drv s) (dev_id dev, 0) = mbr \<Longrightarrow> good_tab t \<Longrightarrow> i \<le> k \<Longrightarrow> k - i < fuel \<Longrightarrow> pt_index t = i0 + 1 + i \<Longrightarrow>
    \<exists>t' d'. psm_enumerate_loop fuel (k_env K) (Some (stk, junk)) node dev di part (int i) (t, s) = Ret (int k, (t', s\<lparr>dm_drv := d'\<rparr>)) \<and>
      extends t (map (part_entry node dev di mbr i0) [i..<k]) t' \<and> k_ok K d' \<and> k_disk K d' = k_disk K (dm_drv s)"
proof (induction fuel arbitrary: s t i part)
  case (Suc fuel)
  have env: "env_ok (k_env K)" using at(1) by (simp add: attached_def)
  from part_get_ok [OF at Suc.prems(1) stk Suc.prems(2) mbr Suc.prems(4), of fuel junk part] obtain d' where
    d': "part_get_partition fuel (k_env K) stk junk dev part (int i) s =
        Ret (if i < k then (1, (part_of_mbr mbr i)\<lparr>pi_num := pi_num part\<rparr>) else (0, part), s\<lparr>dm_drv := d'\<rparr>)"
      "k_ok K d'" "k_disk K d' = k_disk K (dm_drv s)"
    by (elim exE conjE) (rule that)
  show ?case
  proof (cases "i < k")
    case False
    then have "i = k" using Suc.prems(4) by simp
    then show ?thesis using d' extends_refl [OF Suc.prems(3)] by (auto simp: read_partition_dev_def)
  next
    case True
    let ?s = "s\<lparr>dm_drv := d'\<rparr>"
    have pe: "(part_of_mbr mbr i)\<lparr>pi_num := 1 + int i\<rparr> = part_of_mbr mbr i"
      by (simp add: part_of_mbr_def Let_def)
    let ?loop = "\<lambda>(minor, t). psm_enumerate_loop fuel (k_env K) (Some (stk, junk)) node dev di (part_of_mbr mbr i) (int (Suc i)) (t, ?s)"
    have en: "\<lparr>pd_magic = PSM_DEVICE_MAGIC, pd_info = di, pd_part = part_of_mbr mbr i, pd_node = node (int (pt_index t)), pd_dev = dev\<rparr> =
        part_entry node dev di mbr i0 i"
      using Suc.prems(6) by (simp add: part_entry_def)
    from insert_ok [OF env Suc.prems(3), of dev di "Some (part_of_mbr mbr i)" node ?loop, unfolded option.case en] obtain t1 where
      t1: "obind (psm_table_insert (k_env K) dev di (Some (part_of_mbr mbr i)) t) (\<lambda>(minor, t).
            obind (psm_table_set_node (k_env K) minor (node minor) t) (\<lambda>(_, t). ?loop (minor, t))) = ?loop (int (pt_index t), t1)"
        "extends t [part_entry node dev di mbr i0 i] t1"
      by (elim exE conjE) (rule that)
    have w: "world_ok K ?s" "k_disk K (dm_drv ?s) (dev_id dev, 0) = mbr" using Suc.prems(1,2) d'(2,3) by (simp_all add: world_ok_def)
    have g1: "good_tab t1" "pt_index t1 = i0 + 1 + Suc i" using t1(2) Suc.prems(6) by (simp_all add: extends_def)
    have f: "Suc i \<le> k" "k - Suc i < fuel" using True Suc.prems(5) by arith+
    from Suc.IH [OF w g1(1) f g1(2), of "part_of_mbr mbr i"] obtain t2 d2 where
      t2: "?loop (int (pt_index t), t1) = Ret (int k, (t2, ?s\<lparr>dm_drv := d2\<rparr>))"
        "extends t1 (map (part_entry node dev di mbr i0) [Suc i..<k]) t2" "k_ok K d2" "k_disk K d2 = k_disk K d'"
      by auto
    have "psm_enumerate_loop (Suc fuel) (k_env K) (Some (stk, junk)) node dev di part (int i) (t, s) = Ret (int k, (t2, s\<lparr>dm_drv := d2\<rparr>))"
      using t1(1) t2(1) True d'(1) by (simp add: read_partition_dev_def pe Let_def add.commute)
    moreover have "extends t (map (part_entry node dev di mbr i0) [i..<k]) t2"
      using extends_trans [OF t1(2) t2(2)] True by (simp add: upt_conv_Cons)
    ultimately show ?thesis using t2(3,4) d'(3) by auto
  qed
qed simp


text \<open>A disk with one partition of three sectors from sector 2 on.\<close>

definition entry1 :: "u8 list" where
  "entry1 = [0, 0, 0, 0, 0x83, 0, 0, 0, 2, 0, 0, 0, 3, 0, 0, 0]"

definition mbr1 :: "u8 list" where
  "mbr1 = replicate 446 0 @ entry1 @ replicate 50 0"

definition mbr_world :: "(u64 \<Rightarrow> u8 list) dmstate" where
  "mbr_world = (ram_world 512)\<lparr>dm_drv := (\<lambda>b. if b = 0 then mbr1 else replicate 512 0)\<rparr>"

definition disk8 :: disk_info where
  "disk8 = \<lparr>di_length = 4096, di_num_sectors = 8, di_sector_size = 512, di_flags = 0\<rparr>"

lemma mbr1_nth:
  "j < 512 \<Longrightarrow> mbr1 ! j = (if j < 446 then 0 else if j < 462 then entry1 ! (j - 446) else 0)"
proof -
  have l: "length entry1 = 16" by (simp add: entry1_def)
  assume j: "j < 512"
  show ?thesis
  proof (cases "j < 462")
    case True
    then have "j < 446 \<or> j - 446 < 16" by arith
    then show ?thesis using True l by (auto simp: mbr1_def nth_append)
  next
    case False
    then have "\<not> j < 446" "\<not> j - 446 < 16" "j - 446 - 16 < 50" using j by arith+
    then show ?thesis using False l by (simp add: mbr1_def nth_append)
  qed
qed

lemma mbr1_entries:
  "partition_at mbr1 0 = \<lparr>p_flag = 0, p_ext = 0, p_sysid = 0x83, p_start_lba = 2, p_length = 3\<rparr>"
  "partition_at mbr1 1 = \<lparr>p_flag = 0, p_ext = 0, p_sysid = 0, p_start_lba = 0, p_length = 0\<rparr>"
  "partition_at mbr1 2 = \<lparr>p_flag = 0, p_ext = 0, p_sysid = 0, p_start_lba = 0, p_length = 0\<rparr>"
  "partition_at mbr1 3 = \<lparr>p_flag = 0, p_ext = 0, p_sysid = 0, p_start_lba = 0, p_length = 0\<rparr>"
  by (simp_all add: partition_at_def le32_def Let_def mbr1_nth entry1_def)

lemma mbr1_ok: "mbr_ok mbr1 1"
proof -
  have "\<not> is_extended (partition_at mbr1 i)" if "i < 4" for i
  proof -
    have "i = 0 \<or> i = 1 \<or> i = 2 \<or> i = 3" using that by arith
    then show ?thesis using mbr1_entries by (auto simp: is_extended_def)
  qed
  then show ?thesis using mbr1_entries by (simp add: mbr_ok_def)
qed

lemma mbr_world_ok: "world_ok (ram_conf 512) mbr_world" "k_disk (ram_conf 512) (dm_drv mbr_world) (dev_id ram_dev, 0) = mbr1"
  using ram_ok(4) [of 512] by (auto simp: world_ok_def mbr_world_def ram_conf_def mbr1_def entry1_def ram_world_def)



definition part_tab :: psm where
  "part_tab = \<lparr>pt_table = [part_entry nat ram_dev disk8 mbr1 0 0], pt_index = 1, pt_lock = mutex_create True 0\<rparr>"

lemma part_tab_ok: "is_part (ram_conf 512) part_tab (MINOR (GETDEV 11 0)) ram_dev 2 3"
  by (simp add: is_part_def part_tab_def part_entry_def part_of_mbr_def mbr1_entries Let_def MINOR_def GETDEV_def mutex_create_free ram_conf_sel)


end
