(* ===== verification/AesNi.thy ===== *)
theory AesNi
  imports Rijndael Mutex
begin

text \<open>
  The module interface of the cipher, \<^verbatim>\<open>drivers/aes/aes.c\<close>, and the hardware path it takes on processors with the
  AES instructions, the assembly of \<^verbatim>\<open>drivers/aes/aes-x86.c\<close>.  A register is the tuple of its four double words in
  the order of memory, each with its first byte in memory on top, as \<^const>\<open>get_block\<close> reads them.  The instructions
  are those of the processor's manual.  The array of round keys is the one of \<^theory_text>\<open>Rijndael\<close>, words of memory, into
  which the instructions write bytes: the order of the bytes in a word is reversed.

  The theorem shows that the two paths compute the same key schedules, ciphertexts and plaintexts.
\<close>

unbundle bit_operations_syntax

section \<open>Instructions\<close>

type_synonym xmm = cstate

definition bswap32 :: "u32 \<Rightarrow> u32" where
  "bswap32 w = word4 (take_bit 8 w) (take_bit 8 (drop_bit 8 w)) (take_bit 8 (drop_bit 16 w)) (drop_bit 24 w)"

text \<open>\<^verbatim>\<open>movdqu\<close> from and to the array of round keys, at the word \<open>k\<close>.\<close>

definition load_rk :: "rkeys \<Rightarrow> nat \<Rightarrow> xmm" where
  "load_rk rk k = (bswap32 (rk k), bswap32 (rk (k + 1)), bswap32 (rk (k + 2)), bswap32 (rk (k + 3)))"

definition store_rk :: "xmm \<Rightarrow> nat \<Rightarrow> rkeys \<Rightarrow> rkeys" where
  "store_rk = (\<lambda>(a, b, c, d) k rk. rk(k := bswap32 a, k + 1 := bswap32 b, k + 2 := bswap32 c, k + 3 := bswap32 d))"

definition pxor :: "xmm \<Rightarrow> xmm \<Rightarrow> xmm" where
  "pxor = (\<lambda>(a, b, c, d) (a', b', c', d'). (a' XOR a, b' XOR b, c' XOR c, d' XOR d))"

definition lane :: "xmm \<Rightarrow> nat \<Rightarrow> u32" where
  "lane = (\<lambda>(a, b, c, d) i. [a, b, c, d] ! i)"

text \<open>\<^verbatim>\<open>pshufd imm, src, dst\<close> and \<^verbatim>\<open>shufps imm, src, dst\<close>: two bits of the immediate choose a double word.\<close>

definition pshufd :: "nat \<Rightarrow> xmm \<Rightarrow> xmm" where
  "pshufd imm s = (lane s (imm mod 4), lane s (imm div 4 mod 4), lane s (imm div 16 mod 4), lane s (imm div 64 mod 4))"

definition shufps :: "nat \<Rightarrow> xmm \<Rightarrow> xmm \<Rightarrow> xmm" where
  "shufps imm s d = (lane d (imm mod 4), lane d (imm div 4 mod 4), lane s (imm div 16 mod 4), lane s (imm div 64 mod 4))"

definition isb :: "u32 \<Rightarrow> u32" where
  "isb x = tab Td4 x AND 0xff"

definition inv_sub_bytes :: "xmm \<Rightarrow> xmm" where
  "inv_sub_bytes = (\<lambda>(a, b, c, d). let f = (\<lambda>w. word4 (isb (drop_bit 24 w)) (isb (take_bit 8 (drop_bit 16 w)))
       (isb (take_bit 8 (drop_bit 8 w))) (isb (take_bit 8 w))) in (f a, f b, f c, f d))"

definition inv_shift_rows :: "xmm \<Rightarrow> xmm" where
  "inv_shift_rows = (\<lambda>(a, b, c, d). let f = (\<lambda>w x y z. word4 (drop_bit 24 w) (take_bit 8 (drop_bit 16 x))
       (take_bit 8 (drop_bit 8 y)) (take_bit 8 z)) in (f a d c b, f b a d c, f c b a d, f d c b a))"

definition inv_mix_column :: "u32 \<Rightarrow> u32" where
  "inv_mix_column w = (let a = drop_bit 24 w; b = take_bit 8 (drop_bit 16 w); c = take_bit 8 (drop_bit 8 w); d = take_bit 8 w in
     word4 (mule a XOR mulb b XOR muld c XOR mul9 d) (mul9 a XOR mule b XOR mulb c XOR muld d)
       (muld a XOR mul9 b XOR mule c XOR mulb d) (mulb a XOR muld b XOR mul9 c XOR mule d))"

definition aesimc :: "xmm \<Rightarrow> xmm" where
  "aesimc = (\<lambda>(a, b, c, d). (inv_mix_column a, inv_mix_column b, inv_mix_column c, inv_mix_column d))"

definition aesenc :: "xmm \<Rightarrow> xmm \<Rightarrow> xmm" where
  "aesenc key s = pxor key (mix_columns (shift_rows (sub_bytes s)))"

definition aesenclast :: "xmm \<Rightarrow> xmm \<Rightarrow> xmm" where
  "aesenclast key s = pxor key (shift_rows (sub_bytes s))"

definition aesdec :: "xmm \<Rightarrow> xmm \<Rightarrow> xmm" where
  "aesdec key s = pxor key (aesimc (inv_sub_bytes (inv_shift_rows s)))"

definition aesdeclast :: "xmm \<Rightarrow> xmm \<Rightarrow> xmm" where
  "aesdeclast key s = pxor key (inv_sub_bytes (inv_shift_rows s))"

definition rot_word :: "u32 \<Rightarrow> u32" where
  "rot_word w = word4 (take_bit 8 (drop_bit 16 w)) (take_bit 8 (drop_bit 8 w)) (take_bit 8 w) (drop_bit 24 w)"

definition aeskeygenassist :: "u32 \<Rightarrow> xmm \<Rightarrow> xmm" where
  "aeskeygenassist imm = (\<lambda>(_, x1, _, x3).
     (sub_word x1, rot_word (sub_word x1) XOR push_bit 24 imm, sub_word x3, rot_word (sub_word x3) XOR push_bit 24 imm))"

section \<open>The assembly routines\<close>

definition aes_x86_128_encrypt_block :: "nat \<Rightarrow> nat \<Rightarrow> rkeys \<Rightarrow> mem \<Rightarrow> mem" where
  "aes_x86_128_encrypt_block plaintext ciphertext round_keys m =
     (let xmm15 = get_block m plaintext;
          xmm0 = load_rk round_keys 0; xmm1 = load_rk round_keys 4; xmm2 = load_rk round_keys 8;
          xmm3 = load_rk round_keys 12; xmm4 = load_rk round_keys 16; xmm5 = load_rk round_keys 20;
          xmm6 = load_rk round_keys 24; xmm7 = load_rk round_keys 28; xmm8 = load_rk round_keys 32;
          xmm9 = load_rk round_keys 36; xmm10 = load_rk round_keys 40;
          xmm15 = pxor xmm0 xmm15;
          xmm15 = aesenc xmm1 xmm15; xmm15 = aesenc xmm2 xmm15; xmm15 = aesenc xmm3 xmm15;
          xmm15 = aesenc xmm4 xmm15; xmm15 = aesenc xmm5 xmm15; xmm15 = aesenc xmm6 xmm15;
          xmm15 = aesenc xmm7 xmm15; xmm15 = aesenc xmm8 xmm15; xmm15 = aesenc xmm9 xmm15;
          xmm15 = aesenclast xmm10 xmm15
      in put_block m ciphertext xmm15)"

definition aes_x86_128_decrypt_block :: "nat \<Rightarrow> nat \<Rightarrow> rkeys \<Rightarrow> mem \<Rightarrow> mem" where
  "aes_x86_128_decrypt_block ciphertext plaintext dec_round_keys m =
     (let xmm15 = get_block m ciphertext;
          xmm10 = load_rk dec_round_keys 40; xmm9 = load_rk dec_round_keys 36; xmm8 = load_rk dec_round_keys 32;
          xmm7 = load_rk dec_round_keys 28; xmm6 = load_rk dec_round_keys 24; xmm5 = load_rk dec_round_keys 20;
          xmm4 = load_rk dec_round_keys 16; xmm3 = load_rk dec_round_keys 12; xmm2 = load_rk dec_round_keys 8;
          xmm1 = load_rk dec_round_keys 4; xmm0 = load_rk dec_round_keys 0;
          xmm15 = pxor xmm10 xmm15;
          xmm15 = aesdec xmm9 xmm15; xmm15 = aesdec xmm8 xmm15; xmm15 = aesdec xmm7 xmm15;
          xmm15 = aesdec xmm6 xmm15; xmm15 = aesdec xmm5 xmm15; xmm15 = aesdec xmm4 xmm15;
          xmm15 = aesdec xmm3 xmm15; xmm15 = aesdec xmm2 xmm15; xmm15 = aesdec xmm1 xmm15;
          xmm15 = aesdeclast xmm0 xmm15
      in put_block m plaintext xmm15)"

text \<open>The subroutine of the key expansion, on \<^verbatim>\<open>xmm0\<close>, \<^verbatim>\<open>xmm4\<close> and the word \<^verbatim>\<open>rcx\<close> points to.\<close>

definition key_expansion_128 :: "u32 \<Rightarrow> xmm \<times> xmm \<times> nat \<times> rkeys \<Rightarrow> xmm \<times> xmm \<times> nat \<times> rkeys" where
  "key_expansion_128 imm = (\<lambda>(xmm0, xmm4, rcx, rk).
     let xmm1 = aeskeygenassist imm xmm0;
         xmm1 = pshufd 0xff xmm1;
         xmm4 = shufps 0x10 xmm0 xmm4;
         xmm0 = pxor xmm4 xmm0;
         xmm4 = shufps 0x8c xmm0 xmm4;
         xmm0 = pxor xmm4 xmm0;
         xmm0 = pxor xmm1 xmm0
     in (xmm0, xmm4, rcx + 4, store_rk xmm0 rcx rk))"

definition aes_x86_128_key_expand :: "mem \<Rightarrow> nat \<Rightarrow> rkeys \<Rightarrow> rkeys" where
  "aes_x86_128_key_expand m key round_keys =
     (let xmm0 = get_block m key;
          (_, _, _, rk) = fold key_expansion_128 [0x1, 0x2, 0x4, 0x8, 0x10, 0x20, 0x40, 0x80, 0x1b, 0x36]
            (xmm0, (0, 0, 0, 0), 4, store_rk xmm0 0 round_keys)
      in rk)"

definition aes_x86_128_key_inv_transform :: "rkeys \<Rightarrow> rkeys \<Rightarrow> rkeys" where
  "aes_x86_128_key_inv_transform round_keys dec_round_keys =
     (let drk = store_rk (load_rk round_keys 0) 0 dec_round_keys;
          drk = fold (\<lambda>i drk. store_rk (aesimc (load_rk round_keys (4 * i))) (4 * i) drk) [1..<10] drk
      in store_rk (load_rk round_keys 40) 40 drk)"

section \<open>The module interface\<close>

text \<open>\<open>hw\<close> is \<^verbatim>\<open>has_intel_aes\<close>; \<open>tmp\<close> is the uninitialised array on the stack.\<close>

definition aes_setup_encrypt :: "bool \<Rightarrow> mem \<Rightarrow> nat \<Rightarrow> rkeys \<Rightarrow> int \<Rightarrow> (nat \<times> rkeys) outcome" where
  "aes_setup_encrypt hw m key round_keys keybits =
     (if keybits \<noteq> 128 then Panic
      else if hw then Ret (10, aes_x86_128_key_expand m key round_keys)
      else Ret (rijndaelSetupEncrypt m round_keys key keybits))"

definition aes_setup_decrypt :: "bool \<Rightarrow> rkeys \<Rightarrow> mem \<Rightarrow> nat \<Rightarrow> rkeys \<Rightarrow> int \<Rightarrow> (nat \<times> rkeys) outcome" where
  "aes_setup_decrypt hw tmp m key round_keys keybits =
     (if keybits \<noteq> 128 then Panic
      else if hw then Ret (10, aes_x86_128_key_inv_transform (aes_x86_128_key_expand m key tmp) round_keys)
      else Ret (rijndaelSetupDecrypt m round_keys key keybits))"

definition aes_encrypt_block :: "bool \<Rightarrow> rkeys \<Rightarrow> nat \<Rightarrow> nat \<Rightarrow> nat \<Rightarrow> mem \<Rightarrow> mem" where
  "aes_encrypt_block hw round_keys nrounds plaintext ciphertext m =
     (if hw then aes_x86_128_encrypt_block plaintext ciphertext round_keys m
      else rijndaelEncrypt round_keys nrounds plaintext ciphertext m)"

definition aes_decrypt_block :: "bool \<Rightarrow> rkeys \<Rightarrow> nat \<Rightarrow> nat \<Rightarrow> nat \<Rightarrow> mem \<Rightarrow> mem" where
  "aes_decrypt_block hw dec_round_keys nrounds ciphertext plaintext m =
     (if hw then aes_x86_128_decrypt_block ciphertext plaintext dec_round_keys m
      else rijndaelDecrypt dec_round_keys nrounds ciphertext plaintext m)"

section \<open>The instructions and the tables\<close>

lemma bswap32_word4: "is_byte a \<Longrightarrow> is_byte b \<Longrightarrow> is_byte c \<Longrightarrow> is_byte d \<Longrightarrow> bswap32 (word4 a b c d) = word4 d c b a"
  unfolding bswap32_def by (simp add: bytes_word4)

lemma bswap32_bswap32 [simp]: "bswap32 (bswap32 w) = w"
  unfolding bswap32_def by (simp add: bytes_word4 word4_bytes)

lemma isb_byte [simp]: "is_byte (isb x)"
  by (simp add: isb_def and_ff)

lemma td_last_word4:
  "td_last a b c d = word4 (isb (drop_bit 24 a)) (isb (take_bit 8 (drop_bit 16 b))) (isb (take_bit 8 (drop_bit 8 c))) (isb (take_bit 8 d))"
proof -
  have t: "tab Td4 x = word4 (isb x) (isb x) (isb x) (isb x)" if "is_byte x" for x
    using Td4_ib [OF that] by (simp add: isb_def)
  show ?thesis unfolding td_last_def and_ff by (simp add: t word4_masked word4_low word4_xor)
qed

lemma td_col_mix: "td_col a b c d = inv_mix_column (td_last a b c d)"
proof -
  have m: "tab Td0 x = word4 (mule (isb x)) (mul9 (isb x)) (muld (isb x)) (mulb (isb x))"
    "tab Td1 x = word4 (mulb (isb x)) (mule (isb x)) (mul9 (isb x)) (muld (isb x))"
    "tab Td2 x = word4 (muld (isb x)) (mulb (isb x)) (mule (isb x)) (mul9 (isb x))"
    "tab Td3 x = word4 (mul9 (isb x)) (muld (isb x)) (mulb (isb x)) (mule (isb x))" if "is_byte x" for x
    using mix_nth(5-8) [OF is_byte_unat [OF that] refl isb_def] by simp_all
  show ?thesis unfolding td_col_def and_ff td_last_word4 inv_mix_column_def
    by (simp add: m bytes_word4 word4_xor Let_def)
qed

lemma inv_mix_column_key: "inv_mix_column w = inv_mix_key w"
  using inv_mix_key_word4 [of "drop_bit 24 w" "take_bit 8 (drop_bit 16 w)" "take_bit 8 (drop_bit 8 w)" "take_bit 8 w"]
  by (simp add: inv_mix_column_def Let_def word4_bytes)

text \<open>The state after the inverse row shift and the inverse substitution.\<close>

lemma inv_shift_sub:
  "inv_sub_bytes (inv_shift_rows (a, b, c, d)) = (td_last a d c b, td_last b a d c, td_last c b a d, td_last d c b a)"
  by (simp add: inv_sub_bytes_def inv_shift_rows_def td_last_word4 bytes_word4 Let_def)

lemma rot_sub_word: "rot_word (sub_word w) = rot_sub w"
proof -
  have "sub_word w = word4 (sb (drop_bit 24 w)) (sb (take_bit 8 (drop_bit 16 w))) (sb (take_bit 8 (drop_bit 8 w))) (sb (take_bit 8 w))"
    unfolding sub_word_def and_ff by (simp add: Te4_sb word4_masked word4_low word4_xor)
  moreover have "rot_sub w = word4 (sb (take_bit 8 (drop_bit 16 w))) (sb (take_bit 8 (drop_bit 8 w))) (sb (take_bit 8 w)) (sb (drop_bit 24 w))"
    unfolding rot_sub_def and_ff by (simp add: Te4_sb word4_masked word4_low word4_xor)
  ultimately show ?thesis by (simp add: rot_word_def bytes_word4)
qed

section \<open>The key schedules agree\<close>

lemma key_expansion_step:
  assumes "t = rot_sub w3 XOR push_bit 24 imm" "v0 = w0 XOR t" "v1 = w1 XOR v0" "v2 = w2 XOR v1" "v3 = w3 XOR v2"
  shows "key_expansion_128 imm ((w0, w1, w2, w3), (0, y1, y2, y3), k, rk) =
    ((v0, v1, v2, v3), (0, w0, w0, w2 XOR w1), k + 4, store_rk (v0, v1, v2, v3) k rk)"
  unfolding assms
  by (simp add: key_expansion_128_def Let_def aeskeygenassist_def pshufd_def shufps_def lane_def pxor_def rot_sub_word ac_simps)

definition imms :: "u32 list" where
  "imms = [0x1, 0x2, 0x4, 0x8, 0x10, 0x20, 0x40, 0x80, 0x1b, 0x36]"

lemma imms_rcon: "n < 10 \<Longrightarrow> push_bit 24 (imms ! n) = rcon ! n"
proof -
  have "map (push_bit 24) imms = rcon" by (simp add: imms_def rcon_def)
  moreover assume "n < 10"
  ultimately show ?thesis using nth_map [of n imms "push_bit 24"] by (simp add: imms_def)
qed

definition same_keys :: "nat \<Rightarrow> rkeys \<Rightarrow> rkeys \<Rightarrow> bool" where
  "same_keys n hk ek \<longleftrightarrow> (\<forall>x < n. hk x = bswap32 (ek x))"

lemma expand_agree:
  assumes "n \<le> 10" "ek 0 = a" "ek 1 = b" "ek 2 = c" "ek 3 = d"
  shows "\<exists>y1 y2 y3 hk. fold key_expansion_128 (take n imms) ((a, b, c, d), (0, 0, 0, 0), 4, store_rk (a, b, c, d) 0 rk) =
      (let e = fold expand128 [0..<n] ek in
       ((e (4 * n), e (4 * n + 1), e (4 * n + 2), e (4 * n + 3)), (0, y1, y2, y3), 4 * n + 4, hk)) \<and>
    same_keys (4 * n + 4) hk (fold expand128 [0..<n] ek)"
  using assms(1)
proof (induction n)
  case 0
  have "same_keys 4 (store_rk (a, b, c, d) 0 rk) ek"
    unfolding same_keys_def store_rk_def using assms(2-5)
    by (auto simp: less_Suc_eq numeral_2_eq_2 numeral_3_eq_3 eval_nat_numeral)
  then show ?case using assms(2-5) by (simp add: Let_def numeral_2_eq_2 numeral_3_eq_3)
next
  case (Suc n)
  let ?e = "fold expand128 [0..<n] ek"
  let ?f = "expand128 n ?e"
  obtain y1 y2 y3 hk where f: "fold key_expansion_128 (take n imms) ((a, b, c, d), (0, 0, 0, 0), 4, store_rk (a, b, c, d) 0 rk) =
       ((?e (4 * n), ?e (4 * n + 1), ?e (4 * n + 2), ?e (4 * n + 3)), (0, y1, y2, y3), 4 * n + 4, hk)"
      and hk: "same_keys (4 * n + 4) hk ?e"
    using Suc by (auto simp: Let_def)
  have "n < length imms" using Suc.prems by (simp add: imms_def)
  then have t: "take (Suc n) imms = take n imms @ [imms ! n]" by (rule take_Suc_conv_app_nth)
  have e: "?f (4 * n + 4) = ?e (4 * n) XOR (rot_sub (?e (4 * n + 3)) XOR push_bit 24 (imms ! n))"
    "?f (4 * n + 5) = ?e (4 * n + 1) XOR ?f (4 * n + 4)" "?f (4 * n + 6) = ?e (4 * n + 2) XOR ?f (4 * n + 5)"
    "?f (4 * n + 7) = ?e (4 * n + 3) XOR ?f (4 * n + 6)"
    using Suc.prems by (simp_all add: expand128_def Let_def imms_rcon ac_simps)
  have o: "?f x = ?e x" if "x < 4 * n + 4" for x using that by (simp add: expand128_def Let_def)
  let ?hk = "store_rk (?f (4 * n + 4), ?f (4 * n + 5), ?f (4 * n + 6), ?f (4 * n + 7)) (4 * n + 4) hk"
  have "same_keys (4 * Suc n + 4) ?hk ?f"
    unfolding same_keys_def
  proof (intro allI impI)
    fix x assume "x < 4 * Suc n + 4"
    then have "x < 4 * n + 4 \<or> x = 4 * n + 4 \<or> x = 4 * n + 5 \<or> x = 4 * n + 6 \<or> x = 4 * n + 7" by arith
    then consider "x < 4 * n + 4" | "x = 4 * n + 4" | "x = 4 * n + 5" | "x = 4 * n + 6" | "x = 4 * n + 7" by blast
    then show "?hk x = bswap32 (?f x)"
      using hk o by cases (simp_all add: store_rk_def same_keys_def)
  qed
  then show ?case
    using key_expansion_step [OF refl e] unfolding t
    by (simp add: f Let_def add.commute add.left_commute)
qed

lemma key_expand_agree:
  "same_keys 44 (aes_x86_128_key_expand m key rk) (snd (rijndaelSetupEncrypt m rk' key 128))"
proof -
  let ?ek = "rk'(0 := GETU32 m key, 1 := GETU32 m (key + 4), 2 := GETU32 m (key + 8), 3 := GETU32 m (key + 12))"
  have t: "take 10 imms = imms" by (simp add: imms_def)
  show ?thesis
    using expand_agree [of 10 ?ek "GETU32 m key" "GETU32 m (key + 4)" "GETU32 m (key + 8)" "GETU32 m (key + 12)" rk]
    by (auto simp: t aes_x86_128_key_expand_def imms_def [symmetric] get_block_def rijndaelSetupEncrypt_def Let_def)
qed

section \<open>The two paths agree\<close>

lemma store_rk_nth: "store_rk (load_rk f k) k rk x = (if k \<le> x \<and> x < k + 4 then f x else rk x)"
proof -
  have "x < k \<or> x = k \<or> x = k + 1 \<or> x = k + 2 \<or> x = k + 3 \<or> k + 4 \<le> x" by arith
  then show ?thesis by (auto simp: store_rk_def load_rk_def)
qed

lemma aesimc_load: "aesimc (load_rk rk k) = load_rk (\<lambda>x. bswap32 (inv_mix_key (bswap32 (rk x)))) k"
  by (simp add: aesimc_def load_rk_def inv_mix_column_key)

lemma inv_transform_fold:
  "fold (\<lambda>i drk. store_rk (aesimc (load_rk rk (4 * i))) (4 * i) drk) [1..<n] drk x =
     (if 4 \<le> x \<and> x < 4 * n then bswap32 (inv_mix_key (bswap32 (rk x))) else drk x)"
proof (induction n)
  case (Suc n)
  then show ?case by (cases "n = 0") (auto simp: aesimc_load store_rk_nth)
qed simp

lemma inv_transform_nth:
  assumes "x < 44"
  shows "bswap32 (aes_x86_128_key_inv_transform rk drk x) =
    (if 4 \<le> x \<and> x < 40 then inv_mix_key (bswap32 (rk x)) else bswap32 (rk x))"
  using assms unfolding aes_x86_128_key_inv_transform_def Let_def store_rk_nth inv_transform_fold by auto

lemma pxor_keys:
  assumes "\<And>c. c < 4 \<Longrightarrow> bswap32 (hk (j + c)) = rk (k + c)"
  shows "pxor (load_rk hk j) s = add_key rk k s"
  using assms [of 0] assms [of 1] assms [of 2] assms [of 3] by (cases s) (simp add: pxor_def load_rk_def add_key_def)

lemma aesenc_keys:
  assumes "\<And>c. c < 4 \<Longrightarrow> bswap32 (hk (j + c)) = rk (k + c)"
  shows "aesenc (load_rk hk j) s = enc_round rk k s"
  unfolding aesenc_def enc_round_cipher by (rule pxor_keys) (rule assms)

lemma aesdec_keys:
  assumes "\<And>c. c < 4 \<Longrightarrow> bswap32 (hk (j + c)) = rk (k + c)"
  shows "aesdec (load_rk hk j) s = dec_round rk k s"
proof -
  have "pxor (load_rk hk j) t = add_key rk k t" for t by (rule pxor_keys) (rule assms)
  then show ?thesis unfolding aesdec_def by (cases s) (simp add: inv_shift_sub aesimc_def add_key_def dec_round_def td_col_mix)
qed

lemma encrypt_agree:
  assumes "same_keys 44 hk ek"
  shows "aes_x86_128_encrypt_block pt ct hk m = rijndaelEncrypt ek 10 pt ct m"
proof -
  have k: "bswap32 (hk (j + c)) = ek (j + c)" if "c < 4" "j \<le> 40" for j c using assms that by (simp add: same_keys_def)
  have e: "aesenc (load_rk hk j) s = enc_round ek j s" "pxor (load_rk hk j) s = add_key ek j s" if "j \<le> 40" for j s
    using aesenc_keys [of hk j ek j] pxor_keys [of hk j ek j] k that by simp_all
  show ?thesis
    unfolding encrypt_block [of 10, simplified] aes_x86_128_encrypt_block_def Let_def aesenclast_def shift_sub
    by (simp add: e enc_upto_def upt_conv_Cons)
qed

lemma decrypt_agree:
  assumes "\<And>r c. r \<le> 10 \<Longrightarrow> c < 4 \<Longrightarrow> bswap32 (hk (4 * (10 - r) + c)) = dk (4 * r + c)"
  shows "aes_x86_128_decrypt_block ct pt hk m = rijndaelDecrypt dk 10 ct pt m"
proof -
  have e: "aesdec (load_rk hk (4 * (10 - r))) s = dec_round dk (4 * r) s" "pxor (load_rk hk (4 * (10 - r))) s = add_key dk (4 * r) s"
    if "r \<le> 10" for r s
    using aesdec_keys [of hk "4 * (10 - r)" dk "4 * r"] pxor_keys [of hk "4 * (10 - r)" dk "4 * r"] assms [OF that] by simp_all
  note e' = e [of 0, simplified] e [of 1, simplified] e [of 2, simplified] e [of 3, simplified] e [of 4, simplified] e [of 5, simplified]
    e [of 6, simplified] e [of 7, simplified] e [of 8, simplified] e [of 9, simplified] e [of 10, simplified]
  have d: "rijndaelDecrypt dk 10 ct pt m =
      put_block m pt (add_key dk 40 (inv_sub_bytes (inv_shift_rows (dec_upto dk 10 (add_key dk 0 (get_block m ct))))))"
    unfolding rijndaelDecrypt_def rounds_upto [of 10, simplified] Let_def
    by (cases "dec_upto dk 10 (add_key dk 0 (get_block m ct))")
      (simp add: dec_last_def inv_shift_sub add_key_def put_block_def get_block_def Let_def numeral_2_eq_2)
  show ?thesis
    unfolding d aes_x86_128_decrypt_block_def Let_def aesdeclast_def
    by (simp add: e' dec_upto_def upt_conv_Cons)
qed

lemma setup_agree:
  assumes "rijndaelSetupDecrypt km r4 key 128 = (k', dk)" "hdk = aes_x86_128_key_inv_transform (aes_x86_128_key_expand km key tmp) r3"
  shows "k' = 10" "r \<le> 10 \<Longrightarrow> c < 4 \<Longrightarrow> bswap32 (hdk (4 * (10 - r) + c)) = dk (4 * r + c)"
proof -
  obtain n ek where ek: "rijndaelSetupEncrypt km r4 key 128 = (n, ek)" by (cases "rijndaelSetupEncrypt km r4 key 128")
  then have n: "n = 10" by (simp add: rijndaelSetupEncrypt_def Let_def)
  have inv: "k' = n" "inverse_keys n ek dk" using setup_decrypt_inverse [OF ek assms(1)] by simp_all
  then show "k' = 10" using n by simp
  have sk: "same_keys 44 (aes_x86_128_key_expand km key tmp) ek" using key_expand_agree [of km key tmp r4] ek by simp
  assume rc: "r \<le> 10" "c < 4"
  let ?x = "4 * (10 - r) + c"
  have x: "?x < 44" "4 \<le> ?x \<and> ?x < 40 \<longleftrightarrow> 0 < r \<and> r < 10" using rc by auto
  have "bswap32 (aes_x86_128_key_expand km key tmp ?x) = ek ?x" using sk x(1) by (simp add: same_keys_def)
  then have "bswap32 (hdk ?x) = (if 0 < r \<and> r < 10 then inv_mix_key (ek ?x) else ek ?x)"
    unfolding assms(2) inv_transform_nth [OF x(1)] x(2) by (simp only:)
  then show "bswap32 (hdk ?x) = dk (4 * r + c)" using inv(2) n rc by (simp add: inverse_keys_def)
qed

lemma paths_agree:
  assumes "aes_setup_encrypt True km key r1 bits = Ret (n, hek)" "aes_setup_encrypt False km key r2 bits = Ret (n', ek)"
  shows "n = 10 \<and> n' = 10 \<and> aes_encrypt_block True hek n pt ct m = aes_encrypt_block False ek n' pt ct m"
proof -
  have b: "bits = 128" using assms(1) by (simp add: aes_setup_encrypt_def split: if_splits)
  then have e: "n = 10" "hek = aes_x86_128_key_expand km key r1" "n' = 10" "ek = snd (rijndaelSetupEncrypt km r2 key 128)"
    using assms(1,2) by (auto simp: aes_setup_encrypt_def rijndaelSetupEncrypt_def Let_def)
  then show ?thesis using encrypt_agree [OF key_expand_agree] by (simp add: aes_encrypt_block_def)
qed

lemma dec_paths_agree:
  assumes "aes_setup_decrypt True tmp km key r3 bits = Ret (k, hdk)" "aes_setup_decrypt False tmp' km key r4 bits = Ret (k', dk)"
  shows "k = 10 \<and> k' = 10 \<and> aes_decrypt_block True hdk k ct pt m = aes_decrypt_block False dk k' ct pt m"
proof -
  have b: "bits = 128" using assms(1) by (simp add: aes_setup_decrypt_def split: if_splits)
  then have d: "k = 10" "hdk = aes_x86_128_key_inv_transform (aes_x86_128_key_expand km key tmp) r3" "rijndaelSetupDecrypt km r4 key 128 = (k', dk)"
    using assms by (simp_all add: aes_setup_decrypt_def)
  have "aes_x86_128_decrypt_block ct pt hdk m = rijndaelDecrypt dk 10 ct pt m"
    by (rule decrypt_agree) (rule setup_agree(2) [OF d(3,2)])
  then show ?thesis using d(1) setup_agree(1) [OF d(3,2)] by (simp add: aes_decrypt_block_def)
qed

text \<open>Decryption inverts encryption, also when one of them is done by the processor and the other by the tables.\<close>

lemma aes_roundtrip:
  assumes "aes_setup_encrypt h km key r1 bits = Ret (n, ek)" "aes_setup_decrypt h' tmp km key r2 bits = Ret (n', dk)"
    and c: "c = aes_encrypt_block h ek n pt ct m"
  shows "aes_decrypt_block h' dk n' ct out c = (\<lambda>x. if out \<le> x \<and> x < out + 16 then m (pt + (x - out)) else c x)"
proof -
  have b: "bits = 128" using assms(1) by (simp add: aes_setup_encrypt_def split: if_splits)
  obtain k ek' where se: "rijndaelSetupEncrypt km r1 key 128 = (k, ek')" by (cases "rijndaelSetupEncrypt km r1 key 128")
  obtain k' dk' where sd: "rijndaelSetupDecrypt km r2 key 128 = (k', dk')" by (cases "rijndaelSetupDecrypt km r2 key 128")
  have e: "aes_setup_encrypt False km key r1 bits = Ret (k, ek')" and d: "aes_setup_decrypt False tmp km key r2 bits = Ret (k', dk')"
    using se sd b by (simp_all add: aes_setup_encrypt_def aes_setup_decrypt_def)
  have c': "c = rijndaelEncrypt ek' k pt ct m"
    using c assms(1) paths_agree [OF _ e] e by (cases h) (auto simp: aes_encrypt_block_def)
  have "aes_decrypt_block h' dk n' ct out c = rijndaelDecrypt dk' k' ct out c"
    using assms(2) dec_paths_agree [OF _ d] d by (cases h') (auto simp: aes_decrypt_block_def)
  also have "\<dots> = (\<lambda>x. if out \<le> x \<and> x < out + 16 then m (pt + (x - out)) else c x)"
    by (rule decrypt_encrypt [OF _ se sd c', THEN conjunct2]) simp
  finally show ?thesis .
qed

text \<open>C36: The hardware path is the software path.  Whenever key setup succeeds on both, that is for every key of 128 bits
  and whatever the previous contents of the arrays, the routines that use the processor's instructions and the
  table-driven ones return the same number of rounds, and encrypting and decrypting with the schedules each path
  computed give the same memory, for every block, also in place.\<close>

theorem aes_paths_agree:
  assumes "aes_setup_encrypt True km key r1 bits = Ret (n, hek)" "aes_setup_encrypt False km key r2 bits = Ret (n', ek)"
    and "aes_setup_decrypt True tmp km key r3 bits = Ret (k, hdk)" "aes_setup_decrypt False tmp' km key r4 bits = Ret (k', dk)"
  shows "n = n' \<and> k = k' \<and> aes_encrypt_block True hek n pt ct m = aes_encrypt_block False ek n' pt ct m \<and>
    aes_decrypt_block True hdk k ct pt m = aes_decrypt_block False dk k' ct pt m"
  using paths_agree [OF assms(1,2), of pt ct m] dec_paths_agree [OF assms(3,4), of ct pt m] by metis

theorem aes_paths_agree_witness:
  "aes_x86_128_decrypt_block 32 0 (aes_x86_128_key_inv_transform (aes_x86_128_key_expand of_nat 64 (\<lambda>_. 5)) (\<lambda>_. 7)) of_nat =
     rijndaelDecrypt (snd (rijndaelSetupDecrypt of_nat (\<lambda>_. 9) 64 128)) (fst (rijndaelSetupDecrypt of_nat (\<lambda>_. 9) 64 128)) 32 0 of_nat"
  using aes_paths_agree [of of_nat 64 "\<lambda>_. 0" 128 10 "aes_x86_128_key_expand of_nat 64 (\<lambda>_. 0)" "\<lambda>_. 1"
      "fst (rijndaelSetupEncrypt of_nat (\<lambda>_. 1) 64 128)" "snd (rijndaelSetupEncrypt of_nat (\<lambda>_. 1) 64 128)" "\<lambda>_. 5" "\<lambda>_. 7" 10
      "aes_x86_128_key_inv_transform (aes_x86_128_key_expand of_nat 64 (\<lambda>_. 5)) (\<lambda>_. 7)" "\<lambda>_. 3" "\<lambda>_. 9"
      "fst (rijndaelSetupDecrypt of_nat (\<lambda>_. 9) 64 128)" "snd (rijndaelSetupDecrypt of_nat (\<lambda>_. 9) 64 128)" 0 32 of_nat]
  by (simp add: aes_setup_encrypt_def aes_setup_decrypt_def aes_encrypt_block_def aes_decrypt_block_def)

end
