(* ===== verification/Crypt.thy ===== *)
theory Crypt
  imports AesNi Psm
begin

text \<open>
  Encrypted partitions, \<^verbatim>\<open>drivers/block/crypto-part.c\<close>: a block device whose sectors are those of a device below,
  encrypted with the cipher of the \<^verbatim>\<open>aes\<close> module.  Buffers are lists of bytes; the cipher works on a memory that holds
  the sixteen bytes it reads.  Arguments stand for the uninitialised arrays on the stack (\<open>tmp\<close> and the round key
  arrays in \<open>arr\<close>) and for the memory that holds the keys (\<open>km\<close>), whose addresses are in the table of devices.

  The theorem shows that the device keeps the contract of a block driver: what is read is what was written, and the
  device below holds the encryption of it.
\<close>

section \<open>Devices\<close>

abbreviation MAX_CRYPTO :: nat where "MAX_CRYPTO \<equiv> 32"
abbreviation PSM_CRYPTO_PART_ID :: int where "PSM_CRYPTO_PART_ID \<equiv> 4"

record cp_ioctl_arg =
  ia_devname :: ptr
  ia_keylength :: int
  ia_key :: nat

record crypt_part =
  cp_psm_minor :: int
  cp_used :: bool
  cp_dev :: int
  cp_kd :: cp_ioctl_arg

definition cp_zero :: crypt_part where
  "cp_zero = \<lparr>cp_psm_minor = 0, cp_used = False, cp_dev = 0, cp_kd = \<lparr>ia_devname = 0, ia_keylength = 0, ia_key = 0\<rparr>\<rparr>"

text \<open>The search for a free slot, and the registration; the result is the slot, none when all are used.\<close>

definition free_slot :: "crypt_part list \<Rightarrow> nat" where
  "free_slot l = length (takeWhile cp_used l)"

definition crypto_create_dev ::
  "kenv \<Rightarrow> (int \<Rightarrow> ptr) \<Rightarrow> int \<Rightarrow> int \<Rightarrow> cp_ioctl_arg option \<Rightarrow> crypt_part list \<times> psm \<times> 'd dmstate \<Rightarrow>
   (nat option \<times> crypt_part list \<times> psm \<times> 'd dmstate) outcome" where
  "crypto_create_dev env node cp_major dev ia = (\<lambda>(l, t, s).
     let i = free_slot l in
     if i = length l then Ret (None, (l, t, s))
     else
       let l = l[i := (l ! i)\<lparr>cp_used := True\<rparr>];
           di = \<lparr>di_length = 0, di_num_sectors = 0, di_sector_size = 512, di_flags = PSM_DISK_INFO_NOPART\<rparr> in
       obind (psm_register_disk_device 0 env None node zero_part (GETDEV cp_major (int i)) di (t, s)) (\<lambda>(minor, t, s).
       Ret (Some i, (l[i := (l ! i)\<lparr>cp_psm_minor := minor, cp_dev := dev,
         cp_kd := (case ia of Some a \<Rightarrow> a | None \<Rightarrow> cp_kd (l ! i))\<rparr>], t, s))))"

text \<open>\<open>idir\<close> is \<^verbatim>\<open>vfs_get_idir\<close>: the device number of the node with that name.\<close>

definition cp_ioctl ::
  "kenv \<Rightarrow> (int \<Rightarrow> ptr) \<Rightarrow> (ptr \<Rightarrow> int option) \<Rightarrow> int \<Rightarrow> int \<Rightarrow> int \<Rightarrow> cp_ioctl_arg \<Rightarrow> crypt_part list \<times> psm \<times> 'd dmstate \<Rightarrow>
   (int \<times> crypt_part list \<times> psm \<times> 'd dmstate) outcome" where
  "cp_ioctl env node idir cp_major mi cmd ia st =
     (if cmd = 1 then
        case idir (ia_devname ia) of None \<Rightarrow> Ret (- ENOENT, st)
        | Some dev \<Rightarrow> obind (crypto_create_dev env node cp_major dev (Some ia) st) (\<lambda>(r, st).
            Ret (if r = None then - EINVAL else 0, st))
      else Ret (- EINVAL, st))"

section \<open>Transfers\<close>

definition bytes_mem :: "u8 list \<Rightarrow> mem" where
  "bytes_mem b = (\<lambda>x. if x < length b then b ! x else 0)"

definition enc16 :: "bool \<Rightarrow> rkeys \<Rightarrow> nat \<Rightarrow> u8 list \<Rightarrow> u8 list" where
  "enc16 hw rk n b = map (aes_encrypt_block hw rk n 0 16 (bytes_mem b)) [16..<32]"

definition dec16 :: "bool \<Rightarrow> rkeys \<Rightarrow> nat \<Rightarrow> u8 list \<Rightarrow> u8 list" where
  "dec16 hw rk n b = map (aes_decrypt_block hw rk n 0 16 (bytes_mem b)) [16..<32]"

text \<open>The loop over the 32 blocks of a sector.\<close>

definition sector_map :: "(u8 list \<Rightarrow> u8 list) \<Rightarrow> u8 list \<Rightarrow> u8 list" where
  "sector_map f b = concat (map (\<lambda>j. f (take 16 (drop (16 * j) b))) [0..<32])"

record arrays =
  ar_enc :: rkeys
  ar_dec :: rkeys
  ar_tmp :: rkeys

fun cp_loop ::
  "kenv \<Rightarrow> bool \<Rightarrow> mem \<Rightarrow> arrays \<Rightarrow> crypt_part \<Rightarrow> int \<Rightarrow> u64 \<Rightarrow> nat \<Rightarrow> nat \<Rightarrow> int \<Rightarrow> u8 list \<Rightarrow> u8 list \<Rightarrow> 'd dmstate \<Rightarrow>
   ((int \<times> u8 list) \<times> 'd dmstate) outcome" where
  "cp_loop env hw km arr cp rw blk 0 i tot tmp buf s = Ret ((tot, buf), s)"
| "cp_loop env hw km arr cp rw blk (Suc k) i tot tmp buf s =
     obind (if rw = WRITE then
              if length buf < 512 * i + 512 then Fault
              else obind (aes_setup_encrypt hw km (ia_key (cp_kd cp)) (ar_enc arr) (ia_keylength (cp_kd cp) * 8)) (\<lambda>(n, rk).
                Ret (sector_map (enc16 hw rk n) (take 512 (drop (512 * i) buf))))
            else Ret tmp) (\<lambda>tmp.
     obind (dm_do_block_rw env rw (cp_dev cp) (blk + of_nat i) tmp 0 s) (\<lambda>((r, tmp), s).
     obind (if rw = READ then
              if length buf < 512 * i + 512 then Fault
              else obind (aes_setup_decrypt hw (ar_tmp arr) km (ia_key (cp_kd cp)) (ar_dec arr) (ia_keylength (cp_kd cp) * 8)) (\<lambda>(n, rk).
                Ret (take (512 * i) buf @ sector_map (dec16 hw rk n) tmp @ drop (512 * i + 512) buf))
            else Ret buf) (\<lambda>buf.
     if r \<le> 0 then Ret ((r, buf), s) else cp_loop env hw km arr cp rw blk k (i + 1) (tot + r) tmp buf s)))"

definition cp_rw_multiple ::
  "kenv \<Rightarrow> bool \<Rightarrow> mem \<Rightarrow> arrays \<Rightarrow> u8 list \<Rightarrow> crypt_part list \<Rightarrow> int \<Rightarrow> int \<Rightarrow> u64 \<Rightarrow> int \<Rightarrow> 'd dmstate io_fn" where
  "cp_rw_multiple env hw km arr tmp l rw mi blk count buf s =
     (if mi = 0 then Ret ((0, buf), s)
      else if count \<le> 0 then Ret ((0, buf), s)
      else if mi < 0 \<or> int (length l) \<le> mi then Fault
      else cp_loop env hw km arr (l ! nat mi) rw blk (nat count) 0 0 tmp buf s)"

definition cp_rw_single ::
  "kenv \<Rightarrow> bool \<Rightarrow> mem \<Rightarrow> arrays \<Rightarrow> u8 list \<Rightarrow> crypt_part list \<Rightarrow> int \<Rightarrow> int \<Rightarrow> u64 \<Rightarrow> 'd dmstate io_fn" where
  "cp_rw_single env hw km arr tmp l rw mi blk = cp_rw_multiple env hw km arr tmp l rw mi blk 1"

section \<open>Sectors\<close>

lemma length_concat_same: "(\<And>x. x \<in> set xs \<Longrightarrow> length (f x) = n) \<Longrightarrow> length (concat (map f xs)) = n * length xs"
  by (induction xs) auto

lemma length_enc16 [simp]: "length (enc16 hw rk n b) = 16" "length (dec16 hw rk n b) = 16"
  by (simp_all add: enc16_def dec16_def)

lemma nth_enc16:
  "i < 16 \<Longrightarrow> enc16 hw rk n b ! i = aes_encrypt_block hw rk n 0 16 (bytes_mem b) (16 + i)"
  "i < 16 \<Longrightarrow> dec16 hw rk n b ! i = aes_decrypt_block hw rk n 0 16 (bytes_mem b) (16 + i)"
  unfolding enc16_def dec16_def by (rule nth_map_upt, simp)+

lemma length_sector [simp]: "(\<And>b. length (f b) = 16) \<Longrightarrow> length (sector_map f b) = 512"
  using length_concat_same [of "[0..<32]" "\<lambda>j. f (take 16 (drop (16 * j) b))" 16] by (simp add: sector_map_def)

lemma concat_chunks: "length b = 16 * n \<Longrightarrow> concat (map (\<lambda>j. take 16 (drop (16 * j) b)) [0..<n]) = b"
proof (induction n arbitrary: b)
  case (Suc n)
  have "concat (map (\<lambda>j. take 16 (drop (16 * j) (drop 16 b))) [0..<n]) = drop 16 b"
    using Suc.IH [of "drop 16 b"] Suc.prems by simp
  moreover have "map (\<lambda>j. take 16 (drop (16 * j) b)) [0..<Suc n] = take 16 b # map (\<lambda>j. take 16 (drop (16 * j) (drop 16 b))) [0..<n]"
    unfolding map_upt_Suc by (simp add: add.commute)
  ultimately show ?case by simp
qed simp

text \<open>The chunk \<open>j\<close> of a concatenation of chunks.\<close>

lemma chunk_concat:
  assumes "\<And>j. length (g j) = 16" "j < n"
  shows "take 16 (drop (16 * j) (concat (map g [0..<n]))) = g j"
proof -
  have "[0..<n] = [0..<j] @ [j..<n]" using assms(2) upt_add_eq_append [of 0 j "n - j"] by simp
  then have "concat (map g [0..<n]) = concat (map g [0..<j]) @ concat (map g [j..<n])" by simp
  moreover have "length (concat (map g [0..<j])) = 16 * j" using length_concat_same [of "[0..<j]" g 16] assms(1) by simp
  moreover have "concat (map g [j..<n]) = g j @ concat (map g [Suc j..<n])" using assms(2) by (simp add: upt_conv_Cons)
  ultimately show ?thesis using assms(1) by simp
qed

text \<open>Decryption depends on the sixteen bytes at the address of the ciphertext only.\<close>

lemma decrypt_form: "\<exists>D. \<forall>m ct pt. aes_decrypt_block h dk 10 ct pt m = put_block m pt (D (get_block m ct))"
proof (cases h)
  case True
  let ?D = "\<lambda>b. aesdeclast (load_rk dk 0) (aesdec (load_rk dk 4) (aesdec (load_rk dk 8) (aesdec (load_rk dk 12) (aesdec (load_rk dk 16)
    (aesdec (load_rk dk 20) (aesdec (load_rk dk 24) (aesdec (load_rk dk 28) (aesdec (load_rk dk 32) (aesdec (load_rk dk 36)
    (pxor (load_rk dk 40) b))))))))))"
  from True show ?thesis
    by (intro exI [of _ ?D]) (simp add: aes_decrypt_block_def aes_x86_128_decrypt_block_def Let_def)
next
  case False
  have "rijndaelDecrypt dk 10 ct pt m =
      put_block m pt (add_key dk 40 (inv_sub_bytes (inv_shift_rows (dec_upto dk 10 (add_key dk 0 (get_block m ct))))))" for m ct pt
    unfolding rijndaelDecrypt_def rounds_upto [of 10, simplified] Let_def
    by (cases "dec_upto dk 10 (add_key dk 0 (get_block m ct))")
      (simp add: dec_last_def inv_shift_sub add_key_def put_block_def get_block_def Let_def numeral_2_eq_2)
  then show ?thesis using False
    by (intro exI [of _ "\<lambda>b. add_key dk 40 (inv_sub_bytes (inv_shift_rows (dec_upto dk 10 (add_key dk 0 b))))"]) (simp add: aes_decrypt_block_def)
qed

lemma put_block_local: "pt \<le> x \<Longrightarrow> x < pt + 16 \<Longrightarrow> put_block m pt b x = put_block m' pt b x"
proof -
  assume x: "pt \<le> x" "x < pt + 16"
  have "put_block m pt b x = put_block (\<lambda>_. 0) 0 b (x - pt)" for m
    using put_get_block [of m pt "put_block (\<lambda>_. 0) 0 b" 0] x by (simp add: get_put_block)
  then show ?thesis by simp
qed

lemma dec_enc16:
  assumes "aes_setup_encrypt h km key r1 bits = Ret (n, ek)" "aes_setup_decrypt h' tmp km key r2 bits = Ret (n', dk)" "length b = 16"
  shows "dec16 h' dk n' (enc16 h ek n b) = b"
proof (rule nth_equalityI)
  let ?c = "aes_encrypt_block h ek n 0 16 (bytes_mem b)"
  have n': "n' = 10"
    using assms(2) by (auto simp: aes_setup_decrypt_def rijndaelSetupDecrypt_def rijndaelSetupEncrypt_def Let_def split: if_splits)
  obtain D where D: "\<And>m ct pt. aes_decrypt_block h' dk n' ct pt m = put_block m pt (D (get_block m ct))"
    using decrypt_form [of h' dk] unfolding n' by blast
  have e: "bytes_mem (enc16 h ek n b) i = ?c (16 + i)" if "i < 16" for i
    unfolding nth_enc16(1) [OF that, symmetric] using that by (simp add: bytes_mem_def)
  have g: "get_block (bytes_mem (enc16 h ek n b)) 0 = get_block ?c 16"
    using e [of 0] e [of 1] e [of 2] e [of 3] e [of 4] e [of 5] e [of 6] e [of 7] e [of 8] e [of 9] e [of 10] e [of 11]
      e [of 12] e [of 13] e [of 14] e [of 15] by (simp add: get_block_def GETU32_def numeral_2_eq_2)
  show "length (dec16 h' dk n' (enc16 h ek n b)) = length b" using assms(3) by simp
  fix i assume "i < length (dec16 h' dk n' (enc16 h ek n b))"
  then have i: "i < 16" by simp
  have "dec16 h' dk n' (enc16 h ek n b) ! i = put_block (bytes_mem (enc16 h ek n b)) 16 (D (get_block ?c 16)) (16 + i)"
    unfolding nth_enc16(2) [OF i] D g ..
  also have "\<dots> = put_block ?c 16 (D (get_block ?c 16)) (16 + i)" using i by (intro put_block_local) simp_all
  also have "\<dots> = aes_decrypt_block h' dk n' 16 16 ?c (16 + i)" by (simp add: D)
  also have "\<dots> = bytes_mem b i" using aes_roundtrip [OF assms(1,2) refl, where pt = 0 and ct = 16 and out = 16 and m = "bytes_mem b"] i by simp
  finally show "dec16 h' dk n' (enc16 h ek n b) ! i = b ! i" using i assms(3) by (simp add: bytes_mem_def)
qed

lemma sector_roundtrip:
  assumes "aes_setup_encrypt h km key r1 bits = Ret (n, ek)" "aes_setup_decrypt h' tmp km key r2 bits = Ret (n', dk)" "length b = 512"
  shows "sector_map (dec16 h' dk n') (sector_map (enc16 h ek n) b) = b"
proof -
  let ?g = "\<lambda>j. enc16 h ek n (take 16 (drop (16 * j) b))"
  have eq: "map (\<lambda>j. dec16 h' dk n' (take 16 (drop (16 * j) (concat (map ?g [0..<32]))))) [0..<32] = map (\<lambda>j. take 16 (drop (16 * j) b)) [0..<32]"
  proof (rule map_cong [OF refl])
    fix j :: nat assume "j \<in> set [0..<32]"
    then have j: "j < 32" by simp
    have l: "length (take 16 (drop (16 * j) b)) = 16" using j assms(3) by simp
    have "take 16 (drop (16 * j) (concat (map ?g [0..<32]))) = ?g j" by (rule chunk_concat [OF _ j]) simp
    then show "dec16 h' dk n' (take 16 (drop (16 * j) (concat (map ?g [0..<32])))) = take 16 (drop (16 * j) b)"
      using dec_enc16 [OF assms(1,2) l] by (simp only:)
  qed
  show ?thesis unfolding sector_map_def eq by (rule concat_chunks) (simp add: assms(3))
qed

section \<open>The contract of an encrypted partition\<close>

lemma setup_ok:
  "\<exists>n ek. aes_setup_encrypt hw km key r1 128 = Ret (n, ek)" "\<exists>n dk. aes_setup_decrypt hw tmp km key r2 128 = Ret (n, dk)"
  by (cases hw; cases "rijndaelSetupEncrypt km r1 key 128"; cases "rijndaelSetupDecrypt km r2 key 128";
      simp add: aes_setup_encrypt_def aes_setup_decrypt_def)+

text \<open>The encryption and decryption of a sector with the key of a device.\<close>

definition cp_enc :: "bool \<Rightarrow> mem \<Rightarrow> arrays \<Rightarrow> crypt_part \<Rightarrow> u8 list \<Rightarrow> u8 list" where
  "cp_enc hw km arr cp b = (case aes_setup_encrypt hw km (ia_key (cp_kd cp)) (ar_enc arr) 128 of
     Ret (n, rk) \<Rightarrow> sector_map (enc16 hw rk n) b | _ \<Rightarrow> [])"

definition cp_dec :: "bool \<Rightarrow> mem \<Rightarrow> arrays \<Rightarrow> crypt_part \<Rightarrow> u8 list \<Rightarrow> u8 list" where
  "cp_dec hw km arr cp b = (case aes_setup_decrypt hw (ar_tmp arr) km (ia_key (cp_kd cp)) (ar_dec arr) 128 of
     Ret (n, rk) \<Rightarrow> sector_map (dec16 hw rk n) b | _ \<Rightarrow> [])"

lemma cp_dec_enc: "length b = 512 \<Longrightarrow> cp_dec hw km arr cp (cp_enc hw km arr cp b) = b"
  using setup_ok(1) [of hw km "ia_key (cp_kd cp)" "ar_enc arr"] setup_ok(2) [of hw "ar_tmp arr" km "ia_key (cp_kd cp)" "ar_dec arr"]
    sector_roundtrip by (fastforce simp: cp_enc_def cp_dec_def)

lemma length_cp [simp]: "length (cp_enc hw km arr cp b) = 512" "length (cp_dec hw km arr cp b) = 512"
  using setup_ok(1) [of hw km "ia_key (cp_kd cp)" "ar_enc arr"] setup_ok(2) [of hw "ar_tmp arr" km "ia_key (cp_kd cp)" "ar_dec arr"]
  by (auto simp: cp_enc_def cp_dec_def)

text \<open>One pass of the loop, and the loop of a read.\<close>

lemma cp_write_step:
  assumes "ia_keylength (cp_kd cp) = 16" "512 * i + 512 \<le> length buf" "length tmp = 512"
    and "dm_do_block_rw env WRITE (cp_dev cp) (blk + of_nat i) (cp_enc hw km arr cp (take 512 (drop (512 * i) buf))) 0 s = Ret ((512, tmp'), s')"
  shows "cp_loop env hw km arr cp WRITE blk (Suc k) i tot tmp buf s = cp_loop env hw km arr cp WRITE blk k (i + 1) (tot + 512) tmp' buf s'"
proof -
  obtain n ek where "aes_setup_encrypt hw km (ia_key (cp_kd cp)) (ar_enc arr) 128 = Ret (n, ek)" using setup_ok(1) by blast
  then show ?thesis using assms by (simp add: cp_enc_def)
qed

lemma cp_read_step:
  assumes "ia_keylength (cp_kd cp) = 16" "512 * i + 512 \<le> length buf"
    and "dm_do_block_rw env READ (cp_dev cp) (blk + of_nat i) tmp 0 s = Ret ((512, tmp'), s')"
  shows "cp_loop env hw km arr cp READ blk (Suc k) i tot tmp buf s =
    cp_loop env hw km arr cp READ blk k (i + 1) (tot + 512) tmp' (take (512 * i) buf @ cp_dec hw km arr cp tmp' @ drop (512 * i + 512) buf) s'"
proof -
  obtain n dk where "aes_setup_decrypt hw (ar_tmp arr) km (ia_key (cp_kd cp)) (ar_dec arr) 128 = Ret (n, dk)" using setup_ok(2) by blast
  then show ?thesis using assms by (simp add: cp_dec_def)
qed

lemma lower_rw:
  assumes "k_att K dev p bd" "bd_blksz bd = 512" "world_ok K s" "unat blk < k_nb K dev" "length tmp = 512"
  shows "\<exists>d'. dm_do_block_rw (k_env K) READ dev blk tmp 0 s = Ret ((512, k_disk K (dm_drv s) (dev_id dev, blk)), s\<lparr>dm_drv := d'\<rparr>) \<and>
       world_ok K (s\<lparr>dm_drv := d'\<rparr>) \<and> k_disk K d' = k_disk K (dm_drv s)"
    and "\<exists>d'. dm_do_block_rw (k_env K) WRITE dev blk tmp 0 s = Ret ((512, tmp), s\<lparr>dm_drv := d'\<rparr>) \<and>
       world_ok K (s\<lparr>dm_drv := d'\<rparr>) \<and> k_disk K d' = (k_disk K (dm_drv s))((dev_id dev, blk) := tmp)"
    and "length (k_disk K (dm_drv s) (dev_id dev, blk)) = 512"
proof -
  have s: "dm_devs s = k_devs K" "dm_bds s = k_bds K" "k_ok K (dm_drv s)" using assms(3) by (simp_all add: world_ok_def)
  have l: "nat (bd_blksz bd) \<le> length tmp" using assms(2,5) by simp
  note r = do_block_rw [OF assms(1) s assms(4) l, of 0, unfolded assms(2)]
  show "\<exists>d'. dm_do_block_rw (k_env K) READ dev blk tmp 0 s = Ret ((512, k_disk K (dm_drv s) (dev_id dev, blk)), s\<lparr>dm_drv := d'\<rparr>) \<and>
       world_ok K (s\<lparr>dm_drv := d'\<rparr>) \<and> k_disk K d' = k_disk K (dm_drv s)"
    using r(1) assms(3,5) by (auto simp: world_ok_def)
  show "\<exists>d'. dm_do_block_rw (k_env K) WRITE dev blk tmp 0 s = Ret ((512, tmp), s\<lparr>dm_drv := d'\<rparr>) \<and>
       world_ok K (s\<lparr>dm_drv := d'\<rparr>) \<and> k_disk K d' = (k_disk K (dm_drv s))((dev_id dev, blk) := tmp)"
    using r(2) assms(3,5) by (auto simp: world_ok_def)
  show "length (k_disk K (dm_drv s) (dev_id dev, blk)) = 512" using r(3) by simp
qed

lemma cp_read_loop:
  assumes at: "k_att K dev p bd" "bd_blksz bd = 512" and cp: "cp_dev cp = dev" "ia_keylength (cp_kd cp) = 16"
  shows "world_ok K s \<Longrightarrow> unat blk + i + k \<le> k_nb K dev \<Longrightarrow> 512 * (i + k) \<le> length buf \<Longrightarrow> length tmp = 512 \<Longrightarrow>
    \<exists>d'. cp_loop (k_env K) hw km arr cp READ blk k i tot tmp buf s =
      Ret ((tot + 512 * int k, take (512 * i) buf @
        concat (map (\<lambda>j. cp_dec hw km arr cp (k_disk K (dm_drv s) (dev_id dev, blk + of_nat j))) [i..<i + k]) @ drop (512 * (i + k)) buf), s\<lparr>dm_drv := d'\<rparr>) \<and>
      world_ok K (s\<lparr>dm_drv := d'\<rparr>) \<and> k_disk K d' = k_disk K (dm_drv s)"
proof (induction k arbitrary: i tot tmp buf s)
  case 0
  have "s\<lparr>dm_drv := dm_drv s\<rparr> = s" by simp
  then show ?case using 0 by (intro exI [of _ "dm_drv s"]) simp
next
  case (Suc k)
  have nb: "k_nb K dev < 2 ^ 31" using at by (simp add: attached_def)
  then have b: "unat (blk + of_nat i) < k_nb K dev" using Suc.prems(2) unat_shift [of blk i] by simp
  let ?c = "k_disk K (dm_drv s) (dev_id dev, blk + of_nat i)"
  from lower_rw(1) [OF at Suc.prems(1) b Suc.prems(4)] obtain d1 where
    d1: "dm_do_block_rw (k_env K) READ dev (blk + of_nat i) tmp 0 s = Ret ((512, ?c), s\<lparr>dm_drv := d1\<rparr>)" "world_ok K (s\<lparr>dm_drv := d1\<rparr>)"
      "k_disk K d1 = k_disk K (dm_drv s)" by (elim exE conjE) (rule that)
  let ?buf = "take (512 * i) buf @ cp_dec hw km arr cp ?c @ drop (512 * i + 512) buf"
  have fit: "512 * i + 512 \<le> length buf" "length ?buf = length buf" using Suc.prems(3) by simp_all
  have step: "cp_loop (k_env K) hw km arr cp READ blk (Suc k) i tot tmp buf s =
      cp_loop (k_env K) hw km arr cp READ blk k (i + 1) (tot + 512) ?c ?buf (s\<lparr>dm_drv := d1\<rparr>)"
    by (rule cp_read_step [OF cp(2) fit(1)]) (simp add: cp(1) d1(1))
  have tk: "take (512 * (i + 1)) ?buf = take (512 * i) buf @ cp_dec hw km arr cp ?c"
    and dr: "drop (512 * (i + 1 + k)) ?buf = drop (512 * (i + Suc k)) buf"
    using fit(1) by (simp_all add: min_def ac_simps)
  have up: "[i..<i + Suc k] = i # [i + 1..<i + 1 + k]" by (simp add: upt_conv_Cons)
  have "unat blk + (i + 1) + k \<le> k_nb K dev" "512 * (i + 1 + k) \<le> length ?buf" using Suc.prems(2,3) fit(2) by simp_all
  from Suc.IH [OF d1(2) this lower_rw(3) [OF at Suc.prems(1) b Suc.prems(4)], of "tot + 512"] obtain d2 where
    "cp_loop (k_env K) hw km arr cp READ blk k (i + 1) (tot + 512) ?c ?buf (s\<lparr>dm_drv := d1\<rparr>) =
      Ret ((tot + 512 + 512 * int k, take (512 * (i + 1)) ?buf @
        concat (map (\<lambda>j. cp_dec hw km arr cp (k_disk K (dm_drv (s\<lparr>dm_drv := d1\<rparr>)) (dev_id dev, blk + of_nat j))) [i + 1..<i + 1 + k]) @ drop (512 * (i + 1 + k)) ?buf),
        s\<lparr>dm_drv := d1\<rparr>\<lparr>dm_drv := d2\<rparr>)" "world_ok K (s\<lparr>dm_drv := d1\<rparr>\<lparr>dm_drv := d2\<rparr>)" "k_disk K d2 = k_disk K (dm_drv (s\<lparr>dm_drv := d1\<rparr>))"
    by (elim exE conjE) (rule that)
  then show ?case unfolding step tk dr up using d1(3) by (intro exI [of _ d2]) (simp add: algebra_simps)
qed

definition crypt_disk :: "'d conf \<Rightarrow> bool \<Rightarrow> mem \<Rightarrow> arrays \<Rightarrow> crypt_part \<Rightarrow> int \<Rightarrow> 'd dmstate \<Rightarrow> u64 \<times> u64 \<Rightarrow> u8 list" where
  "crypt_disk K hw km arr cp up s = (\<lambda>(i, b).
     if i = dev_id up \<and> unat b < k_nb K (cp_dev cp) then cp_dec hw km arr cp (k_disk K (dm_drv s) (dev_id (cp_dev cp), b)) else [])"

lemma crypt_disk_same: "k_disk K d' = k_disk K (dm_drv s) \<Longrightarrow> crypt_disk K hw km arr cp up (s\<lparr>dm_drv := d'\<rparr>) = crypt_disk K hw km arr cp up s"
  by (simp add: crypt_disk_def cong: if_cong)

lemma crypt_disk_upd:
  assumes "k_disk K d' = (k_disk K (dm_drv s))((dev_id (cp_dev cp), blk) := cp_enc hw km arr cp data)" "unat blk < k_nb K (cp_dev cp)" "length data = 512"
  shows "crypt_disk K hw km arr cp up (s\<lparr>dm_drv := d'\<rparr>) = (crypt_disk K hw km arr cp up s)((dev_id up, blk) := data)"
proof (rule ext)
  fix x :: "u64 \<times> u64"
  obtain i b where x: "x = (i, b)" by (cases x)
  show "crypt_disk K hw km arr cp up (s\<lparr>dm_drv := d'\<rparr>) x = ((crypt_disk K hw km arr cp up s)((dev_id up, blk) := data)) x"
    using assms cp_dec_enc [OF assms(3)] by (auto simp: x crypt_disk_def)
qed

text \<open>A configured slot: the device below has sectors of 512 bytes and the key has 16 bytes.\<close>

definition is_crypt :: "'d conf \<Rightarrow> crypt_part list \<Rightarrow> int \<Rightarrow> crypt_part \<Rightarrow> bool" where
  "is_crypt K l mi cp \<longleftrightarrow> 0 < mi \<and> mi < int (length l) \<and> l ! nat mi = cp \<and> ia_keylength (cp_kd cp) = 16 \<and>
     (\<exists>p bd. k_att K (cp_dev cp) p bd \<and> bd_blksz bd = 512)"

lemma crypt_write:
  assumes c: "is_crypt K l (MINOR up) cp" "length tmp = 512" and s: "world_ok K s" "unat blk < k_nb K (cp_dev cp)" "512 \<le> length buf"
  shows "\<exists>d'. cp_rw_single (k_env K) hw km arr tmp l WRITE (MINOR up) blk buf s = Ret ((512, buf), s\<lparr>dm_drv := d'\<rparr>) \<and>
    world_ok K (s\<lparr>dm_drv := d'\<rparr>) \<and> k_disk K d' = (k_disk K (dm_drv s))((dev_id (cp_dev cp), blk) := cp_enc hw km arr cp (take 512 buf))"
proof -
  obtain p bd where at: "k_att K (cp_dev cp) p bd" "bd_blksz bd = 512" using c(1) by (auto simp: is_crypt_def)
  have l: "length (cp_enc hw km arr cp (take 512 buf)) = 512" by simp
  from lower_rw(2) [OF at s(1,2) l] obtain d' where
    d': "dm_do_block_rw (k_env K) WRITE (cp_dev cp) blk (cp_enc hw km arr cp (take 512 buf)) 0 s = Ret ((512, cp_enc hw km arr cp (take 512 buf)), s\<lparr>dm_drv := d'\<rparr>)"
      "world_ok K (s\<lparr>dm_drv := d'\<rparr>)" "k_disk K d' = (k_disk K (dm_drv s))((dev_id (cp_dev cp), blk) := cp_enc hw km arr cp (take 512 buf))"
    by (elim exE conjE) (rule that)
  have "cp_loop (k_env K) hw km arr cp WRITE blk (Suc 0) 0 0 tmp buf s =
      cp_loop (k_env K) hw km arr cp WRITE blk 0 (0 + 1) (0 + 512) (cp_enc hw km arr cp (take 512 buf)) buf (s\<lparr>dm_drv := d'\<rparr>)"
    by (rule cp_write_step) (use c s(3) d'(1) in \<open>simp_all add: is_crypt_def\<close>)
  then have "cp_rw_single (k_env K) hw km arr tmp l WRITE (MINOR up) blk buf s = Ret ((512, buf), s\<lparr>dm_drv := d'\<rparr>)"
    using c(1) by (simp add: cp_rw_single_def cp_rw_multiple_def is_crypt_def del: cp_loop.simps(2)) 
  then show ?thesis using d'(2,3) by blast
qed

lemma crypt_read:
  assumes c: "is_crypt K l (MINOR up) cp" "length tmp = 512" and s: "world_ok K s" "unat blk + m \<le> k_nb K (cp_dev cp)" "512 * m \<le> length buf"
  shows "\<exists>d'. cp_rw_multiple (k_env K) hw km arr tmp l READ (MINOR up) blk (int m) buf s =
      Ret ((512 * int m, concat (map (\<lambda>j. crypt_disk K hw km arr cp up s (dev_id up, blk + of_nat j)) [0..<m]) @ drop (512 * m) buf), s\<lparr>dm_drv := d'\<rparr>) \<and>
    world_ok K (s\<lparr>dm_drv := d'\<rparr>) \<and> k_disk K d' = k_disk K (dm_drv s)"
proof -
  obtain p bd where at: "k_att K (cp_dev cp) p bd" "bd_blksz bd = 512" using c(1) by (auto simp: is_crypt_def)
  have nb: "k_nb K (cp_dev cp) < 2 ^ 31" using at by (simp add: attached_def)
  have k: "ia_keylength (cp_kd cp) = 16" using c(1) by (simp add: is_crypt_def)
  have mp: "map (\<lambda>j. crypt_disk K hw km arr cp up s (dev_id up, blk + of_nat j)) [0..<m] =
      map (\<lambda>j. cp_dec hw km arr cp (k_disk K (dm_drv s) (dev_id (cp_dev cp), blk + of_nat j))) [0..<m]"
  proof (rule map_cong [OF refl])
    fix j assume "j \<in> set [0..<m]"
    then have "unat (blk + of_nat j) < k_nb K (cp_dev cp)" using unat_shift [of blk j] s(2) nb by simp
    then show "crypt_disk K hw km arr cp up s (dev_id up, blk + of_nat j) =
        cp_dec hw km arr cp (k_disk K (dm_drv s) (dev_id (cp_dev cp), blk + of_nat j))" by (simp add: crypt_disk_def)
  qed
  show ?thesis
  proof (cases "m = 0")
    case True
    have "s\<lparr>dm_drv := dm_drv s\<rparr> = s" by simp
    then show ?thesis using True s(1) by (intro exI [of _ "dm_drv s"]) (simp add: cp_rw_multiple_def)
  next
    case False
    then have "cp_rw_multiple (k_env K) hw km arr tmp l READ (MINOR up) blk (int m) buf s = cp_loop (k_env K) hw km arr cp READ blk m 0 0 tmp buf s"
      using c(1) by (simp add: cp_rw_multiple_def is_crypt_def)
    moreover have "unat blk + 0 + m \<le> k_nb K (cp_dev cp)" "512 * (0 + m) \<le> length buf" using s(2,3) by simp_all
    ultimately show ?thesis unfolding mp using cp_read_loop [OF at refl k s(1) _ _ c(2), of blk 0 m buf hw km arr 0] by simp
  qed
qed

text \<open>C37: An encrypted partition keeps the contract of a block driver.  For a slot with a key of sixteen bytes over a
  device with sectors of 512 bytes, whether or not the processor has the AES instructions, single blocks are read and
  written and runs of blocks are read as the bytes that were written, no other block changes, and after a write the
  device below holds the encrypted sector.\<close>

theorem crypto_partition_contract:
  assumes "is_crypt K l (MINOR up) cp" "length tmp = 512"
  shows "driver_ok (world_ok K) (crypt_disk K hw km arr cp up) up (k_nb K (cp_dev cp)) 512 (cp_rw_single (k_env K) hw km arr tmp l) \<and>
    multi_ok (world_ok K) (crypt_disk K hw km arr cp up) up (k_nb K (cp_dev cp)) 512 (cp_rw_multiple (k_env K) hw km arr tmp l) \<and>
    (world_ok K s \<longrightarrow> unat blk < k_nb K (cp_dev cp) \<longrightarrow> 512 \<le> length buf \<longrightarrow>
      (\<exists>d'. cp_rw_single (k_env K) hw km arr tmp l WRITE (MINOR up) blk buf s = Ret ((512, buf), s\<lparr>dm_drv := d'\<rparr>) \<and>
        k_disk K d' (dev_id (cp_dev cp), blk) = cp_enc hw km arr cp (take 512 buf)))"
proof (intro conjI impI)
  show "driver_ok (world_ok K) (crypt_disk K hw km arr cp up) up (k_nb K (cp_dev cp)) 512 (cp_rw_single (k_env K) hw km arr tmp l)"
    unfolding driver_ok_def
  proof (intro allI impI conjI)
    fix s :: "'a dmstate" and blk :: u64 and buf :: "u8 list"
    assume s: "world_ok K s" "unat blk < k_nb K (cp_dev cp)" "512 \<le> length buf"
    show "length (crypt_disk K hw km arr cp up s (dev_id up, blk)) = 512" using s(2) by (simp add: crypt_disk_def)
    have "unat blk + 1 \<le> k_nb K (cp_dev cp)" "512 * 1 \<le> length buf" using s(2,3) by simp_all
    from crypt_read [OF assms s(1) this, of hw km arr]
    show "\<exists>d'. cp_rw_single (k_env K) hw km arr tmp l READ (MINOR up) blk buf s =
        Ret ((int 512, crypt_disk K hw km arr cp up s (dev_id up, blk) @ drop 512 buf), d') \<and> world_ok K d' \<and>
        crypt_disk K hw km arr cp up d' = crypt_disk K hw km arr cp up s"
      by (auto simp: cp_rw_single_def crypt_disk_same)
    from crypt_write [OF assms s, of hw km arr]
    show "\<exists>d'. cp_rw_single (k_env K) hw km arr tmp l WRITE (MINOR up) blk buf s = Ret ((int 512, buf), d') \<and> world_ok K d' \<and>
        crypt_disk K hw km arr cp up d' = (crypt_disk K hw km arr cp up s)((dev_id up, blk) := take 512 buf)"
      using crypt_disk_upd [OF _ s(2), of _ s hw km arr "take 512 buf" up] s(3) by auto
  qed
  show "multi_ok (world_ok K) (crypt_disk K hw km arr cp up) up (k_nb K (cp_dev cp)) 512 (cp_rw_multiple (k_env K) hw km arr tmp l)"
    unfolding multi_ok_def
  proof (intro allI impI)
    fix s :: "'a dmstate" and blk :: u64 and buf :: "u8 list" and m
    assume s: "world_ok K s" "unat blk + m \<le> k_nb K (cp_dev cp)" "m * 512 \<le> length buf"
    then have "512 * m \<le> length buf" by simp
    from crypt_read [OF assms s(1,2) this, of hw km arr]
    show "\<exists>d'. cp_rw_multiple (k_env K) hw km arr tmp l READ (MINOR up) blk (int m) buf s =
        Ret ((int (m * 512), concat (map (\<lambda>j. crypt_disk K hw km arr cp up s (dev_id up, blk + of_nat j)) [0..<m]) @ drop (m * 512) buf), d') \<and>
        world_ok K d' \<and> crypt_disk K hw km arr cp up d' = crypt_disk K hw km arr cp up s"
      by (auto simp: crypt_disk_same mult.commute)
  qed
  show "\<exists>d'. cp_rw_single (k_env K) hw km arr tmp l WRITE (MINOR up) blk buf s = Ret ((512, buf), s\<lparr>dm_drv := d'\<rparr>) \<and>
        k_disk K d' (dev_id (cp_dev cp), blk) = cp_enc hw km arr cp (take 512 buf)"
    if "world_ok K s" "unat blk < k_nb K (cp_dev cp)" "512 \<le> length buf"
    using crypt_write [OF assms that, of hw km arr] by auto
qed

definition crypt_slot :: crypt_part where
  "crypt_slot = \<lparr>cp_psm_minor = 1, cp_used = True, cp_dev = ram_dev, cp_kd = \<lparr>ia_devname = 0, ia_keylength = 16, ia_key = 64\<rparr>\<rparr>"

definition no_arrays :: arrays where
  "no_arrays = \<lparr>ar_enc = (\<lambda>_. 1), ar_dec = (\<lambda>_. 2), ar_tmp = (\<lambda>_. 3)\<rparr>"

theorem crypto_partition_contract_witness:
  "\<exists>d'. cp_rw_single (task_env 1) True of_nat no_arrays (replicate 512 0) [cp_zero, crypt_slot] WRITE 1 3 (replicate 512 7) (ram_world 512) =
      Ret ((512, replicate 512 7), (ram_world 512)\<lparr>dm_drv := d'\<rparr>) \<and>
    d' 3 = cp_enc True of_nat no_arrays crypt_slot (replicate 512 7)"
proof -
  let ?up = "GETDEV 12 1"
  have m: "MINOR ?up = 1" by (simp add: MINOR_def GETDEV_def)
  have a: "k_att (ram_conf 512) ram_dev 64 (ram_bd 512)" by (rule ram_attached) simp_all
  have b: "bd_blksz (ram_bd 512) = 512" by (simp add: ram_bd_def)
  have c: "is_crypt (ram_conf 512) [cp_zero, crypt_slot] (MINOR ?up) crypt_slot"
    using a b by (auto simp: is_crypt_def m crypt_slot_def)
  have d: "cp_dev crypt_slot = ram_dev" by (simp add: crypt_slot_def)
  have "unat (3 :: u64) < k_nb (ram_conf 512) (cp_dev crypt_slot)" "512 \<le> length (replicate 512 (7 :: u8))" "length (replicate 512 (0 :: u8)) = 512"
    by (simp_all add: ram_conf_sel)
  with crypto_partition_contract [OF c this(3), of True of_nat no_arrays "ram_world 512" 3 "replicate 512 7"] ram_ok(4) [of 512]
  show ?thesis unfolding m ram_conf_sel d by auto
qed

end
