(* ===== verification/Spec2Isabelle.thy ===== *)
theory Spec2Isabelle
  imports Prelude Mutex Rwlock Queue Llist Interrupt Tqueue Bytes Strings Klibc Hash AesTables Rijndael Valloc Cache Device BlockBytes Psm Crypt
begin

text \<open>
  A verification development for SeaKernel.
\<close>

end
